(* ===== verification/Go_Prelude.thy ===== *)
theory Go_Prelude
  imports Main "HOL-Library.Sublist"
begin

text \<open>
  What the components share of the Go language and its standard library.

  A Go string is a sequence of bytes; an Isabelle \<^typ>\<open>char\<close> is a byte, so a Go
  string is modelled by \<^typ>\<open>string\<close> and \<open>len(s)\<close> by \<open>length s\<close>.
  The theory gives the functions of package \<open>strings\<close> and \<open>unicode/utf8\<close> that
  the modelled code calls, and the generic lemmas about them.
\<close>

named_theorems go_string \<open>characteristic facts of the Go string primitives\<close>

type_synonym bytes = string

section \<open>Bytes\<close>

definition byte :: "char \<Rightarrow> nat" where
  "byte c = of_char c"

lemma byte_char_of [simp]: "byte (char_of n) = n mod 256"
  by (simp add: byte_def)

lemma byte_less [simp]: "byte c < 256"
  by (simp add: byte_def)

lemma char_of_byte [simp]: "char_of (byte c) = c"
  by (simp add: byte_def)

lemma byte_inject [simp]: "byte c = byte d \<longleftrightarrow> c = d"
  by (metis char_of_byte)

section \<open>Prefixes, suffixes and search (package strings)\<close>

definition has_prefix :: "bytes \<Rightarrow> bytes \<Rightarrow> bool" where
  "has_prefix s p \<longleftrightarrow> take (length p) s = p"

definition has_suffix :: "bytes \<Rightarrow> bytes \<Rightarrow> bool" where
  "has_suffix s p \<longleftrightarrow> length p \<le> length s \<and> drop (length s - length p) s = p"

fun index_of :: "bytes \<Rightarrow> bytes \<Rightarrow> nat option" where
  "index_of [] sub = (if sub = [] then Some 0 else None)"
| "index_of (c # s) sub =
     (if has_prefix (c # s) sub then Some 0 else map_option Suc (index_of s sub))"

definition contains :: "bytes \<Rightarrow> bytes \<Rightarrow> bool" where
  "contains s sub \<longleftrightarrow> index_of s sub \<noteq> None"

definition cut_prefix :: "bytes \<Rightarrow> bytes \<Rightarrow> bytes \<times> bool" where
  "cut_prefix s p = (if has_prefix s p then (drop (length p) s, True) else (s, False))"

definition trim_suffix :: "bytes \<Rightarrow> bytes \<Rightarrow> bytes" where
  "trim_suffix s p = (if has_suffix s p then take (length s - length p) s else s)"

lemma has_prefix_iff [go_string]: "has_prefix s p \<longleftrightarrow> prefix p s"
  by (metis has_prefix_def append_eq_conv_conj prefix_def)

lemma has_prefix_append [simp]: "has_prefix (p @ s) p"
  by (simp add: has_prefix_def)

lemma has_prefix_split: "has_prefix s p \<longleftrightarrow> s = p @ drop (length p) s"
  by (metis has_prefix_def append_take_drop_id same_append_eq append_same_eq)

lemma has_prefix_length: "has_prefix s p \<Longrightarrow> length p \<le> length s"
  by (simp add: has_prefix_iff prefix_length_le)

lemma has_suffix_iff [go_string]: "has_suffix s p \<longleftrightarrow> suffix p s"
  by (auto simp: has_suffix_def suffix_def)
    (metis append_take_drop_id)

lemma has_suffix_append [simp]: "has_suffix (s @ p) p"
  by (simp add: has_suffix_def)

lemma has_prefix_Nil [simp]: "has_prefix s []"
  by (simp add: has_prefix_def)

lemma has_prefix_Cons [simp]:
  "has_prefix (c # s) (d # p) \<longleftrightarrow> c = d \<and> has_prefix s p"
  "has_prefix [] (d # p) \<longleftrightarrow> False"
  by (auto simp: has_prefix_def)

lemma index_of_Some: "index_of s sub = Some i \<Longrightarrow> i \<le> length s \<and> has_prefix (drop i s) sub"
  by (induction s sub arbitrary: i rule: index_of.induct) (auto split: if_splits)

lemma index_of_bound: "index_of s sub = Some i \<Longrightarrow> i + length sub \<le> length s"
  using index_of_Some [of s sub i] by (auto dest: has_prefix_length)

lemma index_of_least: "index_of s sub = Some i \<Longrightarrow> j < i \<Longrightarrow> \<not> has_prefix (drop j s) sub"
proof (induction s sub arbitrary: i j rule: index_of.induct)
  case (1 sub)
  then show ?case by (simp split: if_splits)
next
  case (2 c s sub)
  then show ?case by (cases j) (auto split: if_splits)
qed

lemma index_of_None: "index_of s sub = None \<Longrightarrow> \<not> has_prefix (drop j s) sub"
proof (induction s sub arbitrary: j rule: index_of.induct)
  case (1 sub)
  then show ?case by (cases sub) (auto split: if_splits)
next
  case (2 c s sub)
  then show ?case by (cases j) (auto split: if_splits)
qed

lemma index_of_prefix [simp]: "index_of (sub @ s) sub = Some 0"
  by (cases "sub @ s") (auto, metis has_prefix_append)

lemma contains_iff: "contains s sub \<longleftrightarrow> (\<exists>u v. s = u @ sub @ v)"
proof
  assume "contains s sub"
  then obtain i where "index_of s sub = Some i" by (auto simp: contains_def)
  then have "drop i s = sub @ drop (length sub) (drop i s)"
    using index_of_Some has_prefix_split by blast
  then have "s = take i s @ sub @ drop (length sub) (drop i s)"
    by (metis append_take_drop_id)
  then show "\<exists>u v. s = u @ sub @ v" by blast
next
  assume "\<exists>u v. s = u @ sub @ v"
  then obtain u v where s: "s = u @ sub @ v" by blast
  then have "has_prefix (drop (length u) s) sub" by simp
  then show "contains s sub"
    using index_of_None [of s sub] by (auto simp: contains_def)
qed

text \<open>
  A pattern none of whose proper prefixes is also its suffix: its occurrences cannot
  overlap, so the first occurrence after a text without one is where it was put.
\<close>

definition borderless :: "bytes \<Rightarrow> bool" where
  "borderless p \<longleftrightarrow> list_all (\<lambda>k. take k p \<noteq> drop (length p - k) p) [1..<length p]"

lemma append_eq_longer:
  assumes "u @ v = a @ b" "length u \<le> length a"
  obtains w where "a = u @ w" "w @ b = v"
proof
  have "u = take (length u) a"
    using arg_cong [OF assms(1), of "take (length u)"] assms(2) by simp
  then show "a = u @ drop (length u) a" by (metis append_take_drop_id)
  show "drop (length u) a @ b = v"
    using arg_cong [OF assms(1), of "drop (length u)"] assms(2) by simp
qed

lemma occurrence_split:
  assumes "u @ p @ v = a @ p @ b" "length u < length a" "borderless p"
  shows "\<exists>w. a = u @ p @ w"
proof -
  obtain w where w: "a = u @ w" "w @ p @ b = p @ v"
    by (rule append_eq_longer [OF assms(1) less_imp_le [OF assms(2)]])
  show ?thesis
  proof (cases "length p \<le> length w")
    case True
    obtain x where "w = p @ x" by (rule append_eq_longer [OF w(2) [symmetric] True])
    with w(1) show ?thesis by blast
  next
    case False
    then have "length w \<le> length p" by simp
    then obtain x where x: "p = w @ x" "x @ v = p @ b"
      by (rule append_eq_longer [OF w(2)])
    have "w \<noteq> []" using assms(2) w(1) by auto
    then have k: "length x < length p" "length x \<noteq> 0" using x(1) False by auto
    have "take (length x) p = x"
      using arg_cong [OF x(2), of "take (length x)"] k(1) by simp
    moreover have "drop (length p - length x) p = x" using x(1) by simp
    moreover have "length x \<in> set [1..<length p]" using k by (cases "length x") auto
    ultimately have "\<not> borderless p" unfolding borderless_def list_all_iff by metis
    with assms(3) show ?thesis by blast
  qed
qed

lemma index_of_append_borderless:
  assumes "borderless p" "p \<noteq> []" "\<not> contains u p"
  shows "index_of (u @ p @ v) p = Some (length u)"
proof -
  have "contains (u @ p @ v) p" by (auto simp: contains_iff)
  then obtain i where i: "index_of (u @ p @ v) p = Some i" by (auto simp: contains_def)
  have "\<not> length u < i"
    using index_of_least [OF i, of "length u"] by auto
  moreover have "\<not> i < length u"
  proof
    assume "i < length u"
    let ?a = "take i (u @ p @ v)" and ?b = "drop (length p) (drop i (u @ p @ v))"
    have "drop i (u @ p @ v) = p @ ?b"
      using index_of_Some [OF i] has_prefix_split by blast
    then have "?a @ p @ ?b = u @ p @ v"
      by (metis append_take_drop_id)
    moreover have "length ?a < length u" using \<open>i < length u\<close> by simp
    ultimately obtain w where "u = ?a @ p @ w"
      using occurrence_split assms(1) by blast
    with assms(3) show False unfolding contains_iff by metis
  qed
  ultimately show ?thesis using i by simp
qed

text \<open>
  Searching across a boundary: when only the pattern's last byte can lie in the tail, the
  tail matters through its first byte only.
\<close>

lemma contains_Cons: "contains (c # s) p \<longleftrightarrow> has_prefix (c # s) p \<or> contains s p"
  by (auto simp: contains_def)

lemma contains_Nil [simp]: "contains [] p \<longleftrightarrow> p = []"
  by (simp add: contains_def)

lemma has_prefix_append_tail:
  assumes "has_prefix (u @ b # bs) p"
    and "list_all (\<lambda>k. \<not> has_prefix (b # bs) (drop k p)) [0..<length p - 1]"
  shows "has_prefix (u @ [b]) p"
proof -
  from assms(1) obtain v where v: "u @ b # bs = p @ v"
    using has_prefix_split by metis
  have "\<not> length u < length p - 1"
  proof
    assume "length u < length p - 1"
    then have k: "length u \<in> set [0..<length p - 1]" and "length u \<le> length p" by simp_all
    then have "b # bs = drop (length u) p @ v"
      using arg_cong [OF v, of "drop (length u)"] by simp
    then have "has_prefix (b # bs) (drop (length u) p)" by (metis has_prefix_append)
    with assms(2) k show False by (auto simp: list_all_iff)
  qed
  then have "length p \<le> Suc (length u)" by linarith
  then show ?thesis
    using arg_cong [OF v, of "take (length p)"]
    by (cases "length p = Suc (length u)") (auto simp: has_prefix_def)
qed

lemma contains_append_tail:
  assumes "\<not> contains (u @ [b]) p" "\<not> contains bs p"
    and "list_all (\<lambda>k. \<not> has_prefix (b # bs) (drop k p)) [0..<length p - 1]"
  shows "\<not> contains (u @ b # bs) p"
  using assms(1)
proof (induction u)
  case Nil
  with assms(2,3) has_prefix_append_tail [of "[]" b bs p] show ?case
    by (auto simp: contains_Cons)
next
  case (Cons c u)
  have "\<not> has_prefix (c # u @ b # bs) p"
    using has_prefix_append_tail [of "c # u" b bs p] assms(3) Cons.prems
    by (auto simp: contains_Cons)
  with Cons show ?case by (simp add: contains_Cons)
qed

section \<open>Splitting and joining\<close>

text \<open>
  \<open>strings.Split\<close> on a one-byte separator, which returns one empty part for the empty
  string, and \<open>strings.Join\<close>.
\<close>

fun split_byte :: "bytes \<Rightarrow> char \<Rightarrow> bytes list" where
  "split_byte [] c = [[]]"
| "split_byte (x # s) c =
     (if x = c then [] # split_byte s c
      else (x # hd (split_byte s c)) # tl (split_byte s c))"

fun join :: "bytes list \<Rightarrow> bytes \<Rightarrow> bytes" where
  "join [] sep = []"
| "join [part] sep = part"
| "join (part # parts) sep = part @ sep @ join parts sep"

lemma split_byte_not_Nil [simp]: "split_byte s c \<noteq> []"
  by (cases s) auto

lemma split_byte_none: "c \<notin> set s \<Longrightarrow> split_byte s c = [s]"
  by (induction s) auto

lemma split_byte_append: "c \<notin> set s \<Longrightarrow> split_byte (s @ c # t) c = s # split_byte t c"
  by (induction s) auto

lemma split_byte_join:
  "parts \<noteq> [] \<Longrightarrow> \<forall>part \<in> set parts. c \<notin> set part \<Longrightarrow> split_byte (join parts [c]) c = parts"
  by (induction parts "[c]" rule: join.induct) (auto simp: split_byte_none split_byte_append)

text \<open>\<open>strings.Split\<close> on a longer separator, leftmost occurrence first.\<close>

function split_str :: "bytes \<Rightarrow> bytes \<Rightarrow> bytes list" where
  "split_str s sep =
     (case index_of s sep of
        None \<Rightarrow> [s]
      | Some i \<Rightarrow> if sep = [] then [s] else take i s # split_str (drop (i + length sep) s) sep)"
  by pat_completeness auto
termination
proof (relation "measure (\<lambda>(s, sep). length s)", simp)
  fix s sep :: bytes and i assume i: "index_of s sep = Some i" and "sep \<noteq> []"
  then have "0 < length sep" "i + length sep \<le> length s" using index_of_bound by auto
  then have "length s - (i + length sep) < length s" by linarith
  then show "((drop (i + length sep) s, sep), s, sep) \<in> measure (\<lambda>(s, sep). length s)" by simp
qed

declare split_str.simps [simp del]

lemma split_str_none: "\<not> contains s sep \<Longrightarrow> split_str s sep = [s]"
  by (simp add: split_str.simps contains_def)

lemma split_str_found:
  "index_of s sep = Some i \<Longrightarrow> sep \<noteq> [] \<Longrightarrow>
   split_str s sep = take i s # split_str (drop (i + length sep) s) sep"
  by (simp add: split_str.simps)

section \<open>Outcomes\<close>

text \<open>A Go function returns a value or panics (an index out of range).\<close>

datatype 'a outcome = Panic | Returns 'a

fun and_then :: "'a outcome \<Rightarrow> ('a \<Rightarrow> 'b outcome) \<Rightarrow> 'b outcome" where
  "and_then Panic f = Panic"
| "and_then (Returns x) f = f x"

lemma and_then_Returns [simp]: "and_then m Returns = m"
  by (cases m) simp_all

lemma and_then_assoc [simp]: "and_then (and_then m f) g = and_then m (\<lambda>x. and_then (f x) g)"
  by (cases m) simp_all

lemma and_then_eq_Returns:
  "and_then m f = Returns y \<longleftrightarrow> (\<exists>x. m = Returns x \<and> f x = Returns y)"
  by (cases m) simp_all

end
