(* ===== verification/Go_Utf8.thy ===== *)
theory Go_Utf8
  imports Go_Prelude
begin

text \<open>
  Package \<open>unicode/utf8\<close>, the conversions between \<open>string\<close> and \<open>[]rune\<close>, and
  the white-space trimming of package \<open>strings\<close>, on byte strings. A rune is its code
  point, a \<^typ>\<open>nat\<close>. Bytes that are not well-formed UTF-8 decode to
  \<open>RuneError\<close> (U+FFFD) one byte at a time, as in Go.
\<close>

section \<open>Decoding and encoding\<close>

type_synonym rune = nat

abbreviation rune_error :: rune where
  "rune_error \<equiv> 65533"

definition cont_byte :: "char \<Rightarrow> bool" where
  "cont_byte c \<longleftrightarrow> 128 \<le> byte c \<and> byte c < 192"

definition rune_start :: "char \<Rightarrow> bool" where
  "rune_start c \<longleftrightarrow> \<not> cont_byte c"

text \<open>
  The accepted range of the second byte depends on the first (no overlong forms, no
  surrogates, nothing above U+10FFFF).
\<close>

definition second_ok3 :: "char \<Rightarrow> char \<Rightarrow> bool" where
  "second_ok3 b0 b1 \<longleftrightarrow>
     (if byte b0 = 224 then 160 \<le> byte b1 \<and> byte b1 < 192
      else if byte b0 = 237 then 128 \<le> byte b1 \<and> byte b1 < 160
      else cont_byte b1)"

definition second_ok4 :: "char \<Rightarrow> char \<Rightarrow> bool" where
  "second_ok4 b0 b1 \<longleftrightarrow>
     (if byte b0 = 240 then 144 \<le> byte b1 \<and> byte b1 < 192
      else if byte b0 = 244 then 128 \<le> byte b1 \<and> byte b1 < 144
      else cont_byte b1)"

definition decode2 :: "char \<Rightarrow> bytes \<Rightarrow> rune \<times> nat" where
  "decode2 b0 s = (case s of
     b1 # _ \<Rightarrow> if cont_byte b1 then ((byte b0 - 192) * 64 + (byte b1 - 128), 2)
              else (rune_error, 1)
   | [] \<Rightarrow> (rune_error, 1))"

definition decode3 :: "char \<Rightarrow> bytes \<Rightarrow> rune \<times> nat" where
  "decode3 b0 s = (case s of
     b1 # b2 # _ \<Rightarrow> if second_ok3 b0 b1 \<and> cont_byte b2
       then ((byte b0 - 224) * 4096 + (byte b1 - 128) * 64 + (byte b2 - 128), 3)
       else (rune_error, 1)
   | _ \<Rightarrow> (rune_error, 1))"

definition decode4 :: "char \<Rightarrow> bytes \<Rightarrow> rune \<times> nat" where
  "decode4 b0 s = (case s of
     b1 # b2 # b3 # _ \<Rightarrow> if second_ok4 b0 b1 \<and> cont_byte b2 \<and> cont_byte b3
       then ((byte b0 - 240) * 262144 + (byte b1 - 128) * 4096 + (byte b2 - 128) * 64
             + (byte b3 - 128), 4)
       else (rune_error, 1)
   | _ \<Rightarrow> (rune_error, 1))"

fun decode_rune :: "bytes \<Rightarrow> rune \<times> nat" where
  "decode_rune [] = (rune_error, 0)"
| "decode_rune (b0 # s) =
     (if byte b0 < 128 then (byte b0, 1)
      else if byte b0 < 194 then (rune_error, 1)
      else if byte b0 < 224 then decode2 b0 s
      else if byte b0 < 240 then decode3 b0 s
      else if byte b0 < 245 then decode4 b0 s
      else (rune_error, 1))"

definition valid_rune :: "rune \<Rightarrow> bool" where
  "valid_rune r \<longleftrightarrow> r < 55296 \<or> (57343 < r \<and> r \<le> 1114111)"

definition encode_valid :: "rune \<Rightarrow> bytes" where
  "encode_valid r =
     (if r < 128 then [char_of r]
      else if r < 2048 then [char_of (192 + r div 64), char_of (128 + r mod 64)]
      else if r < 65536 then
        [char_of (224 + r div 4096), char_of (128 + r div 64 mod 64), char_of (128 + r mod 64)]
      else [char_of (240 + r div 262144), char_of (128 + r div 4096 mod 64),
            char_of (128 + r div 64 mod 64), char_of (128 + r mod 64)])"

definition encode_rune :: "rune \<Rightarrow> bytes" where
  "encode_rune r = encode_valid (if valid_rune r then r else rune_error)"

lemma encode_rune_code [code]:
  "encode_rune r =
     (if r < 128 then [char_of r] else encode_valid (if valid_rune r then r else rune_error))"
  by (simp add: encode_rune_def encode_valid_def valid_rune_def)

lemma decode_rune_size_le: "snd (decode_rune s) \<le> length s"
  by (cases s) (auto simp: decode2_def decode3_def decode4_def split: list.splits)

lemma decode_rune_size_pos: "s \<noteq> [] \<Longrightarrow> 0 < snd (decode_rune s)"
  by (cases s) (auto simp: decode2_def decode3_def decode4_def split: list.splits)

function runes_of :: "bytes \<Rightarrow> rune list" where
  "runes_of s = (if s = [] then []
     else fst (decode_rune s) # runes_of (drop (snd (decode_rune s)) s))"
  by pat_completeness auto
termination
  by (relation "measure length") (use decode_rune_size_pos in auto)

declare runes_of.simps [simp del]

definition string_of_runes :: "rune list \<Rightarrow> bytes" where
  "string_of_runes rs = concat (map encode_rune rs)"

text \<open>\<open>utf8.ValidString\<close>: no position decodes to an error of width one.\<close>

function valid_utf8 :: "bytes \<Rightarrow> bool" where
  "valid_utf8 s = (if s = [] then True
     else decode_rune s \<noteq> (rune_error, 1) \<and> valid_utf8 (drop (snd (decode_rune s)) s))"
  by pat_completeness auto
termination
  by (relation "measure length") (use decode_rune_size_pos in auto)

declare valid_utf8.simps [simp del]

lemma valid_utf8_code [code]:
  "valid_utf8 s = (case s of [] \<Rightarrow> True
     | c # t \<Rightarrow> if byte c < 128 then valid_utf8 t
         else decode_rune s \<noteq> (rune_error, 1) \<and> valid_utf8 (drop (snd (decode_rune s)) s))"
  by (cases s) (auto simp: valid_utf8.simps [of "_ # _"] valid_utf8.simps [of "[]"])

lemma runes_of_Nil [simp]: "runes_of [] = []"
  by (simp add: runes_of.simps)

lemma valid_utf8_Nil [simp]: "valid_utf8 []"
  by (simp add: valid_utf8.simps)

lemma string_of_runes_simps [simp]:
  "string_of_runes [] = []"
  "string_of_runes (r # rs) = encode_rune r @ string_of_runes rs"
  "string_of_runes (rs @ qs) = string_of_runes rs @ string_of_runes qs"
  by (simp_all add: string_of_runes_def)

lemma length_runes_of_le: "length (runes_of s) \<le> length s"
proof (induction s rule: runes_of.induct)
  case (1 s)
  show ?case
  proof (cases "s = []")
    case True
    then show ?thesis by simp
  next
    case False
    with 1 decode_rune_size_pos [of s] decode_rune_size_le [of s] show ?thesis
      by (simp add: runes_of.simps [of s])
  qed
qed

section \<open>Decoding and encoding are inverse on well-formed input\<close>

lemma split64: "z < 64 \<Longrightarrow> (a * 64 + z) div 64 = a \<and> (a * 64 + z) mod 64 = (z :: nat)"
  by simp

lemma encode_decode2:
  assumes "\<not> byte b0 < 194" "byte b0 < 224" "decode2 b0 s \<noteq> (rune_error, 1)"
  shows "encode_rune (fst (decode2 b0 s)) = take (snd (decode2 b0 s)) (b0 # s)"
proof -
  from assms obtain b1 t where s: "s = b1 # t" and c: "cont_byte b1"
    by (auto simp: decode2_def split: list.splits if_splits)
  define x y where "x = byte b0 - 192" and "y = byte b1 - 128"
  have b: "byte b0 = x + 192" "byte b1 = y + 128" and r: "2 \<le> x" "x < 32" "y < 64"
    using assms c by (auto simp: x_def y_def cont_byte_def)
  have "b0 = char_of (192 + x)" "b1 = char_of (128 + y)"
    by (metis b char_of_byte add.commute)+
  with r have "encode_rune (x * 64 + y) = [b0, b1]"
    by (simp add: encode_rune_def encode_valid_def valid_rune_def)
  then show ?thesis
    by (simp add: s decode2_def c b)
qed

lemma encode_decode3:
  assumes "\<not> byte b0 < 224" "byte b0 < 240" "decode3 b0 s \<noteq> (rune_error, 1)"
  shows "encode_rune (fst (decode3 b0 s)) = take (snd (decode3 b0 s)) (b0 # s)"
proof -
  from assms obtain b1 b2 t where s: "s = b1 # b2 # t" and c: "second_ok3 b0 b1" "cont_byte b2"
    by (auto simp: decode3_def split: list.splits if_splits)
  define x y z where "x = byte b0 - 224" and "y = byte b1 - 128" and "z = byte b2 - 128"
  have b: "byte b0 = x + 224" "byte b1 = y + 128" "byte b2 = z + 128"
    and r: "x < 16" "y < 64" "z < 64" "x = 0 \<longrightarrow> 32 \<le> y" "x = 13 \<longrightarrow> y < 32"
    using assms c by (auto simp: x_def y_def z_def cont_byte_def second_ok3_def split: if_splits)
  have e: "b0 = char_of (224 + x)" "b1 = char_of (128 + y)" "b2 = char_of (128 + z)"
    by (metis b char_of_byte add.commute)+
  define n where "n = x * 4096 + y * 64 + z"
  have "n = (x * 64 + y) * 64 + z"
    by (simp add: n_def algebra_simps)
  then have d: "n div 64 = x * 64 + y" "n mod 64 = z"
    using split64 r(3) by metis+
  have n: "n div 4096 = x" "n div 64 mod 64 = y"
    using r d div_mult2_eq [of n 64 64] by simp_all
  have "2048 \<le> n" "n < 65536" "n < 55296 \<or> 57343 < n"
    unfolding n_def using r by (cases "x = 0"; cases "x = 13"; linarith)+
  then have "encode_rune n = [b0, b1, b2]"
    using n d e by (simp add: encode_rune_def encode_valid_def valid_rune_def)
  then show ?thesis
    by (simp add: s decode3_def c b n_def)
qed

lemma encode_decode4:
  assumes "\<not> byte b0 < 240" "byte b0 < 245" "decode4 b0 s \<noteq> (rune_error, 1)"
  shows "encode_rune (fst (decode4 b0 s)) = take (snd (decode4 b0 s)) (b0 # s)"
proof -
  from assms obtain b1 b2 b3 t where s: "s = b1 # b2 # b3 # t"
    and c: "second_ok4 b0 b1" "cont_byte b2" "cont_byte b3"
    by (auto simp: decode4_def split: list.splits if_splits)
  define x y z w where "x = byte b0 - 240" and "y = byte b1 - 128" and "z = byte b2 - 128"
    and "w = byte b3 - 128"
  have b: "byte b0 = x + 240" "byte b1 = y + 128" "byte b2 = z + 128" "byte b3 = w + 128"
    and r: "x < 5" "y < 64" "z < 64" "w < 64" "x = 0 \<longrightarrow> 16 \<le> y" "x = 4 \<longrightarrow> y < 16"
    using assms c
    by (auto simp: x_def y_def z_def w_def cont_byte_def second_ok4_def split: if_splits)
  have e: "b0 = char_of (240 + x)" "b1 = char_of (128 + y)" "b2 = char_of (128 + z)"
    "b3 = char_of (128 + w)"
    by (metis b char_of_byte add.commute)+
  define n where "n = x * 262144 + y * 4096 + z * 64 + w"
  have "n = ((x * 64 + y) * 64 + z) * 64 + w"
    by (simp add: n_def algebra_simps)
  then have d: "n div 64 = (x * 64 + y) * 64 + z" "n mod 64 = w"
    using split64 r(4) by metis+
  then have d': "n div 4096 = x * 64 + y" "n div 64 mod 64 = z"
    using split64 [of z "x * 64 + y"] r div_mult2_eq [of n 64 64] by simp_all
  then have n: "n div 262144 = x" "n div 4096 mod 64 = y"
    using r div_mult2_eq [of n 4096 64] by simp_all
  have "65536 \<le> n" "n \<le> 1114111"
    unfolding n_def using r by (cases "x = 0"; cases "x = 4"; linarith)+
  then have "encode_rune n = [b0, b1, b2, b3]"
    using n d d' e by (simp add: encode_rune_def encode_valid_def valid_rune_def)
  then show ?thesis
    by (simp add: s decode4_def c b n_def)
qed

lemma encode_decode_rune:
  assumes "s \<noteq> []" "decode_rune s \<noteq> (rune_error, 1)"
  shows "encode_rune (fst (decode_rune s)) = take (snd (decode_rune s)) s"
proof (cases s)
  case Nil
  with assms show ?thesis by simp
next
  case (Cons b0 t)
  have "byte b0 < 128 \<Longrightarrow> ?thesis"
    by (simp add: Cons encode_rune_def encode_valid_def valid_rune_def)
  moreover have "\<not> byte b0 < 128 \<Longrightarrow> ?thesis"
    using assms encode_decode2 [of b0 t] encode_decode3 [of b0 t] encode_decode4 [of b0 t]
    by (auto simp: Cons split: if_splits)
  ultimately show ?thesis by blast
qed

lemma string_of_runes_of [simp]: "valid_utf8 s \<Longrightarrow> string_of_runes (runes_of s) = s"
proof (induction s rule: runes_of.induct)
  case (1 s)
  show ?case
  proof (cases "s = []")
    case True
    then show ?thesis by simp
  next
    case False
    let ?n = "snd (decode_rune s)"
    have v: "decode_rune s \<noteq> (rune_error, 1)" "valid_utf8 (drop ?n s)"
      using "1.prems" False by (simp_all add: valid_utf8.simps [of s])
    have "string_of_runes (runes_of (drop ?n s)) = drop ?n s"
      using "1.IH" False v(2) by blast
    then show ?thesis
      using False encode_decode_rune [OF False v(1)] by (simp add: runes_of.simps [of s])
  qed
qed

section \<open>Cutting well-formed strings\<close>

text \<open>
  A well-formed rune is read the same whatever follows it, and all of its bytes but the
  first are continuation bytes.
\<close>

lemma decode_rune_local:
  assumes "decode_rune s \<noteq> (rune_error, 1)" "s \<noteq> []" "take (snd (decode_rune s)) s = take (snd (decode_rune s)) t"
    "snd (decode_rune s) \<le> length t"
  shows "decode_rune t = decode_rune s"
proof (cases s)
  case Nil
  with assms show ?thesis by simp
next
  case (Cons b0 u)
  have pos: "0 < snd (decode_rune s)" using assms(2) by (rule decode_rune_size_pos)
  then obtain v where t: "t = b0 # v"
    using assms(3,4) Cons by (cases t) (auto simp: take_Cons' simp del: decode_rune.simps)
  show ?thesis
    using assms(1,3,4) unfolding Cons t
    by (auto simp: decode2_def decode3_def decode4_def split: if_splits list.splits)
qed

lemma second_ok_cont:
  "second_ok3 b0 b1 \<Longrightarrow> cont_byte b1"
  "second_ok4 b0 b1 \<Longrightarrow> cont_byte b1"
  by (auto simp: second_ok3_def second_ok4_def cont_byte_def split: if_splits)

lemma decode_rune_cont:
  assumes "decode_rune s \<noteq> (rune_error, 1)" "0 < j" "j < snd (decode_rune s)"
  shows "cont_byte (s ! j)"
proof (cases s)
  case Nil
  with assms show ?thesis by simp
next
  case (Cons b0 u)
  have 2: "cont_byte (s ! j)" if "decode2 b0 u \<noteq> (rune_error, 1)" "j < snd (decode2 b0 u)"
  proof -
    have "j = 1" using that assms(2) by (auto simp: decode2_def split: list.splits if_splits)
    with that Cons show ?thesis by (auto simp: decode2_def split: list.splits if_splits)
  qed
  have 3: "cont_byte (s ! j)" if "decode3 b0 u \<noteq> (rune_error, 1)" "j < snd (decode3 b0 u)"
  proof -
    have "j = 1 \<or> j = 2" using that assms(2) by (auto simp: decode3_def split: list.splits if_splits)
    with that Cons show ?thesis
      by (auto simp: decode3_def dest: second_ok_cont split: list.splits if_splits)
  qed
  have 4: "cont_byte (s ! j)" if "decode4 b0 u \<noteq> (rune_error, 1)" "j < snd (decode4 b0 u)"
  proof -
    have "j = 1 \<or> j = 2 \<or> j = 3"
      using that assms(2) by (auto simp: decode4_def split: list.splits if_splits)
    with that Cons show ?thesis
      by (auto simp: decode4_def dest: second_ok_cont split: list.splits if_splits)
  qed
  show ?thesis
    using assms 2 3 4 unfolding Cons by (simp split: if_splits)
qed

lemma valid_utf8_Cons_chunk:
  "s \<noteq> [] \<Longrightarrow> valid_utf8 s \<longleftrightarrow>
     decode_rune s \<noteq> (rune_error, 1) \<and> valid_utf8 (drop (snd (decode_rune s)) s)"
  by (simp add: valid_utf8.simps [of s])

lemma valid_utf8_drop:
  "valid_utf8 s \<Longrightarrow> i < length s \<Longrightarrow> rune_start (s ! i) \<Longrightarrow> valid_utf8 (drop i s)"
proof (induction s arbitrary: i rule: valid_utf8.induct)
  case (1 s)
  let ?n = "snd (decode_rune s)"
  have s: "s \<noteq> []" using "1.prems"(2) by auto
  then have v: "decode_rune s \<noteq> (rune_error, 1)" "valid_utf8 (drop ?n s)"
    using "1.prems"(1) by (simp_all add: valid_utf8_Cons_chunk)
  consider "i = 0" | "?n \<le> i" | "0 < i" "i < ?n" by linarith
  then show ?case
  proof cases
    case 1
    then show ?thesis using "1.prems"(1) by simp
  next
    case 2
    then have "valid_utf8 (drop (i - ?n) (drop ?n s))"
      using "1.IH" [OF s v(2), of "i - ?n"] "1.prems"(2,3) by simp
    with 2 show ?thesis by simp
  next
    case 3
    with decode_rune_cont [OF v(1)] "1.prems"(3) show ?thesis
      by (simp add: rune_start_def)
  qed
qed

lemma valid_utf8_append:
  "valid_utf8 s \<Longrightarrow> valid_utf8 (s @ t) \<longleftrightarrow> valid_utf8 t"
proof (induction s rule: valid_utf8.induct)
  case (1 s)
  show ?case
  proof (cases "s = []")
    case True
    then show ?thesis by simp
  next
    case False
    let ?n = "snd (decode_rune s)"
    have v: "decode_rune s \<noteq> (rune_error, 1)" "valid_utf8 (drop ?n s)"
      using "1.prems" False by (simp_all add: valid_utf8_Cons_chunk)
    have n: "?n \<le> length s" by (rule decode_rune_size_le)
    have d: "decode_rune (s @ t) = decode_rune s"
      using decode_rune_local [OF v(1) False, of "s @ t"] n by simp
    show ?thesis
      using "1.IH" [OF False v(2)] False v(1) n
      by (simp add: valid_utf8_Cons_chunk [of "s @ t"] d)
  qed
qed

lemma valid_utf8_prefix:
  "valid_utf8 (s @ c # t) \<Longrightarrow> rune_start c \<Longrightarrow> valid_utf8 s"
proof (induction s rule: length_induct)
  case (1 s)
  show ?case
  proof (cases "s = []")
    case True
    then show ?thesis by simp
  next
    case False
    let ?u = "s @ c # t"
    let ?n = "snd (decode_rune ?u)"
    have v: "decode_rune ?u \<noteq> (rune_error, 1)" "valid_utf8 (drop ?n ?u)"
      using "1.prems"(1) by (simp_all add: valid_utf8_Cons_chunk)
    have "\<not> length s < ?n"
      using decode_rune_cont [OF v(1), of "length s"] False "1.prems"(2) by (auto simp: rune_start_def)
    then have n: "?n \<le> length s" by simp
    have d: "decode_rune s = decode_rune ?u"
      using decode_rune_local [OF v(1), of s] n by simp
    have "0 < ?n" by (simp add: decode_rune_size_pos)
    then have "valid_utf8 (drop ?n s)"
      using "1.IH" v(2) n "1.prems"(2) False by simp
    with v(1) d False show ?thesis by (simp add: valid_utf8_Cons_chunk)
  qed
qed

lemma valid_utf8_ascii: "list_all (\<lambda>c. byte c < 128) s \<Longrightarrow> valid_utf8 s"
  by (induction s) (auto simp: valid_utf8.simps)

section \<open>White space\<close>

text \<open>\<open>unicode.IsSpace\<close>\<close>

definition is_space :: "rune \<Rightarrow> bool" where
  "is_space r \<longleftrightarrow>
     (9 \<le> r \<and> r \<le> 13) \<or> r = 32 \<or> r = 133 \<or> r = 160 \<or> r = 5760 \<or> (8192 \<le> r \<and> r \<le> 8202)
     \<or> r = 8232 \<or> r = 8233 \<or> r = 8239 \<or> r = 8287 \<or> r = 12288"

lemma is_space_code [code]:
  "is_space r \<longleftrightarrow>
     (if r < 128 then (9 \<le> r \<and> r \<le> 13) \<or> r = 32
      else r = 133 \<or> r = 160 \<or> r = 5760 \<or> (8192 \<le> r \<and> r \<le> 8202)
        \<or> r = 8232 \<or> r = 8233 \<or> r = 8239 \<or> r = 8287 \<or> r = 12288)"
  by (auto simp: is_space_def)

text \<open>
  \<open>utf8.DecodeLastRuneInString\<close>: step back over at most three continuation bytes to a
  byte that can start a rune; the rune read there must end where the string ends.
\<close>

definition decode_last_rune :: "bytes \<Rightarrow> rune \<times> nat" where
  "decode_last_rune s =
     (if s = [] then (rune_error, 0)
      else if byte (last s) < 128 then (byte (last s), 1)
      else case find (\<lambda>k. k \<le> length s \<and> rune_start (s ! (length s - k))) [2, 3, 4] of
        None \<Rightarrow> (rune_error, 1)
      | Some k \<Rightarrow> (let (r, n) = decode_rune (drop (length s - k) s)
                   in if n = k then (r, n) else (rune_error, 1)))"

lemma decode_last_rune_size:
  "s \<noteq> [] \<Longrightarrow> 0 < snd (decode_last_rune s)"
  by (auto simp: decode_last_rune_def find_Some_iff split: option.splits prod.splits)

function trim_left_space :: "bytes \<Rightarrow> bytes" where
  "trim_left_space s =
     (if s \<noteq> [] \<and> is_space (fst (decode_rune s))
      then trim_left_space (drop (snd (decode_rune s)) s) else s)"
  by pat_completeness auto
termination
  by (relation "measure length") (use decode_rune_size_pos in auto)

function trim_right_space :: "bytes \<Rightarrow> bytes" where
  "trim_right_space s =
     (if s \<noteq> [] \<and> is_space (fst (decode_last_rune s))
      then trim_right_space (take (length s - snd (decode_last_rune s)) s) else s)"
  by pat_completeness auto
termination
  by (relation "measure length") (use decode_last_rune_size in auto)

declare trim_left_space.simps [simp del] trim_right_space.simps [simp del]

definition trim_space :: "bytes \<Rightarrow> bytes" where
  "trim_space s = trim_right_space (trim_left_space s)"

text \<open>\<open>strings.TrimRight\<close> and \<open>strings.TrimLeft\<close> with a cut set of ASCII characters.\<close>

definition trim_right_set :: "bytes \<Rightarrow> char list \<Rightarrow> bytes" where
  "trim_right_set s cutset = rev (dropWhile (\<lambda>c. c \<in> set cutset) (rev s))"

definition trim_left_set :: "bytes \<Rightarrow> char list \<Rightarrow> bytes" where
  "trim_left_set s cutset = dropWhile (\<lambda>c. c \<in> set cutset) s"

lemma trim_space_Nil [simp]: "trim_space [] = []"
  by (simp add: trim_space_def trim_left_space.simps trim_right_space.simps)

lemma trim_space_plain:
  assumes "s \<noteq> []" "byte (hd s) < 128" "\<not> is_space (byte (hd s))"
    "byte (last s) < 128" "\<not> is_space (byte (last s))"
  shows "trim_space s = s"
proof -
  have "decode_rune s = (byte (hd s), 1)" using assms(1,2) by (cases s) auto
  then have "trim_left_space s = s" using assms(3) by (simp add: trim_left_space.simps)
  moreover have "decode_last_rune s = (byte (last s), 1)"
    using assms(1,4) by (simp add: decode_last_rune_def)
  then have "trim_right_space s = s" using assms(5) by (simp add: trim_right_space.simps)
  ultimately show ?thesis by (simp add: trim_space_def)
qed

lemma trim_left_space_suffix: "suffix (trim_left_space s) s"
proof (induction s rule: trim_left_space.induct)
  case (1 s)
  then show ?case
    by (subst trim_left_space.simps) (auto intro: suffix_order.trans suffix_drop)
qed

lemma trim_right_space_prefix: "prefix (trim_right_space s) s"
proof (induction s rule: trim_right_space.induct)
  case (1 s)
  then show ?case
    by (subst trim_right_space.simps) (auto intro: prefix_order.trans take_is_prefix)
qed

lemma trim_right_set_prefix: "prefix (trim_right_set s cs) s"
  by (metis trim_right_set_def rev_rev_ident suffix_dropWhile suffix_to_prefix)

end
