(* ===== verification/Go_Strconv.thy ===== *)
theory Go_Strconv
  imports Go_Utf8
begin

text \<open>
  Package \<open>strconv\<close>: decimal conversion (\<open>Itoa\<close>, \<open>Atoi\<close> with the range of a
  64-bit \<open>int\<close>) and Go string literals (\<open>Quote\<close>, \<open>QuotedPrefix\<close>, \<open>Unquote\<close>).
\<close>

section \<open>Decimal integers\<close>

abbreviation max_int :: int where
  "max_int \<equiv> 9223372036854775807"

definition digit_char :: "nat \<Rightarrow> char" where
  "digit_char n = char_of (48 + n)"

definition is_digit :: "char \<Rightarrow> bool" where
  "is_digit c \<longleftrightarrow> 48 \<le> byte c \<and> byte c \<le> 57"

fun nat_digits :: "nat \<Rightarrow> bytes" where
  "nat_digits n =
     (if n < 10 then [digit_char n] else nat_digits (n div 10) @ [digit_char (n mod 10)])"

declare nat_digits.simps [simp del]

definition digits_value :: "bytes \<Rightarrow> nat" where
  "digits_value ds = foldl (\<lambda>v c. v * 10 + (byte c - 48)) 0 ds"

definition itoa :: "int \<Rightarrow> bytes" where
  "itoa i = (if i < 0 then CHR ''-'' # nat_digits (nat (- i)) else nat_digits (nat i))"

definition atoi_unsigned :: "bool \<Rightarrow> bytes \<Rightarrow> int option" where
  "atoi_unsigned neg ds =
     (if ds = [] \<or> \<not> list_all is_digit ds then None
      else let v = (if neg then - int (digits_value ds) else int (digits_value ds))
           in if - max_int - 1 \<le> v \<and> v \<le> max_int then Some v else None)"

fun atoi :: "bytes \<Rightarrow> int option" where
  "atoi [] = None"
| "atoi (c # s) =
     (if c = CHR ''-'' then atoi_unsigned True s
      else if c = CHR ''+'' then atoi_unsigned False s
      else atoi_unsigned False (c # s))"

lemma digit_char_props [simp]:
  "n < 10 \<Longrightarrow> is_digit (digit_char n)"
  "n < 10 \<Longrightarrow> byte (digit_char n) = 48 + n"
  by (simp_all add: digit_char_def is_digit_def)

lemma nat_digits_nonempty [simp]: "nat_digits n \<noteq> []"
  by (subst nat_digits.simps) simp

lemma nat_digits_are_digits: "list_all is_digit (nat_digits n)"
proof (induction n rule: nat_digits.induct)
  case (1 n)
  then show ?case by (subst nat_digits.simps) auto
qed

lemma digits_value_append [simp]: "digits_value (ds @ [c]) = digits_value ds * 10 + (byte c - 48)"
  by (simp add: digits_value_def)

lemma digits_value_nat_digits [simp]: "digits_value (nat_digits n) = n"
proof (induction n rule: nat_digits.induct)
  case (1 n)
  show ?case
  proof (cases "n < 10")
    case True
    then show ?thesis by (simp add: nat_digits.simps [of n] digits_value_def)
  next
    case False
    with 1 show ?thesis by (simp add: nat_digits.simps [of n])
  qed
qed

lemma atoi_digits:
  assumes "list_all is_digit ds" "ds \<noteq> []"
  shows "atoi ds = (if int (digits_value ds) \<le> max_int then Some (int (digits_value ds)) else None)"
  using assms by (cases ds) (auto simp: atoi_unsigned_def is_digit_def byte_def)

lemma atoi_nat_digits [simp]:
  "atoi (nat_digits n) = (if int n \<le> max_int then Some (int n) else None)"
  using atoi_digits [OF nat_digits_are_digits [of n] nat_digits_nonempty] by simp

section \<open>String literals\<close>

abbreviation dquote :: char where "dquote \<equiv> CHR 0x22"
abbreviation squote :: char where "squote \<equiv> CHR 0x27"
abbreviation bquote :: char where "bquote \<equiv> CHR 0x60"
abbreviation backslash :: char where "backslash \<equiv> CHR 0x5C"
abbreviation newline :: char where "newline \<equiv> CHR 0x0A"
abbreviation creturn :: char where "creturn \<equiv> CHR 0x0D"

definition hex_char :: "nat \<Rightarrow> char" where
  "hex_char n = (if n < 10 then char_of (48 + n) else char_of (87 + n))"

text \<open>
  \<open>Quote\<close> on ASCII strings; the modelled code quotes enumeration names and decimal
  numbers only.
\<close>

definition quote_byte :: "char \<Rightarrow> bytes" where
  "quote_byte c =
     (if c = dquote \<or> c = backslash then [backslash, c]
      else if 32 \<le> byte c \<and> byte c < 127 then [c]
      else if byte c = 7 then [backslash, CHR ''a'']
      else if byte c = 8 then [backslash, CHR ''b'']
      else if byte c = 12 then [backslash, CHR ''f'']
      else if byte c = 10 then [backslash, CHR ''n'']
      else if byte c = 13 then [backslash, CHR ''r'']
      else if byte c = 9 then [backslash, CHR ''t'']
      else if byte c = 11 then [backslash, CHR ''v'']
      else [backslash, CHR ''x'', hex_char (byte c div 16), hex_char (byte c mod 16)])"

definition quote :: "bytes \<Rightarrow> bytes" where
  "quote s = [dquote] @ concat (map quote_byte s) @ [dquote]"

definition unhex :: "char \<Rightarrow> nat option" where
  "unhex c =
     (if 48 \<le> byte c \<and> byte c \<le> 57 then Some (byte c - 48)
      else if 97 \<le> byte c \<and> byte c \<le> 102 then Some (byte c - 87)
      else if 65 \<le> byte c \<and> byte c \<le> 70 then Some (byte c - 55)
      else None)"

fun hex_value :: "bytes \<Rightarrow> nat \<Rightarrow> nat option" where
  "hex_value [] v = Some v"
| "hex_value (c # s) v = (case unhex c of None \<Rightarrow> None | Some x \<Rightarrow> hex_value s (v * 16 + x))"

definition oct_digit :: "char \<Rightarrow> bool" where
  "oct_digit c \<longleftrightarrow> 48 \<le> byte c \<and> byte c \<le> 55"

text \<open>
  The escape after a backslash: the rune, whether it is encoded as UTF-8 (\<open>multibyte\<close>)
  and the rest of the input.
\<close>

fun unquote_escape :: "bytes \<Rightarrow> char \<Rightarrow> (rune \<times> bool \<times> bytes) option" where
  "unquote_escape [] q = None"
| "unquote_escape (c # s) q =
     (if c = CHR ''a'' then Some (7, False, s)
      else if c = CHR ''b'' then Some (8, False, s)
      else if c = CHR ''f'' then Some (12, False, s)
      else if c = CHR ''n'' then Some (10, False, s)
      else if c = CHR ''r'' then Some (13, False, s)
      else if c = CHR ''t'' then Some (9, False, s)
      else if c = CHR ''v'' then Some (11, False, s)
      else if c \<in> {CHR ''x'', CHR ''u'', CHR ''U''} then
        (let n = (if c = CHR ''x'' then 2 else if c = CHR ''u'' then 4 else 8)
         in if length s < n then None
            else case hex_value (take n s) 0 of
              None \<Rightarrow> None
            | Some v \<Rightarrow>
                if c = CHR ''x'' then Some (v, False, drop n s)
                else if valid_rune v then Some (v, True, drop n s) else None)
      else if oct_digit c then
        (case s of
           c1 # c2 # t \<Rightarrow>
             if oct_digit c1 \<and> oct_digit c2 then
               (let v = (byte c - 48) * 64 + (byte c1 - 48) * 8 + (byte c2 - 48)
                in if 255 < v then None else Some (v, False, t))
             else None
         | _ \<Rightarrow> None)
      else if c = backslash then Some (92, False, s)
      else if c = squote \<or> c = dquote then (if c \<noteq> q then None else Some (byte c, False, s))
      else None)"

fun unquote_char :: "bytes \<Rightarrow> char \<Rightarrow> (rune \<times> bool \<times> bytes) option" where
  "unquote_char [] q = None"
| "unquote_char (c # s) q =
     (if c = q \<and> (q = squote \<or> q = dquote) then None
      else if 128 \<le> byte c then
        (let (r, n) = decode_rune (c # s) in Some (r, True, drop n (c # s)))
      else if c \<noteq> backslash then Some (byte c, False, s)
      else unquote_escape s q)"

lemma unquote_escape_shorter:
  "unquote_escape s q = Some (r, m, t) \<Longrightarrow> length t < length s"
  by (cases s) (auto simp: Let_def split: if_splits option.splits list.splits)

lemma unquote_char_shorter:
  assumes "unquote_char s q = Some (r, m, t)"
  shows "length t < length s"
proof (cases s)
  case Nil
  with assms show ?thesis by simp
next
  case (Cons c u)
  have "0 < snd (decode_rune (c # u))" by (simp add: decode_rune_size_pos del: decode_rune.simps)
  with assms Cons show ?thesis
    by (auto simp del: decode_rune.simps split: if_splits prod.splits dest: unquote_escape_shorter)
qed

definition append_rune :: "bytes \<Rightarrow> rune \<Rightarrow> bool \<Rightarrow> bytes" where
  "append_rune buf r multibyte =
     (if r < 128 \<or> \<not> multibyte then buf @ [char_of r] else buf @ encode_rune r)"

function unquote_loop :: "char \<Rightarrow> bytes \<Rightarrow> bytes \<Rightarrow> (bytes \<times> bytes) option" where
  "unquote_loop q buf s =
     (if s = [] \<or> hd s = q then Some (buf, s)
      else case unquote_char s q of
        None \<Rightarrow> None
      | Some (r, multibyte, rest) \<Rightarrow>
          if hd s = newline then None
          else if q = squote then Some (append_rune buf r multibyte, rest)
          else unquote_loop q (append_rune buf r multibyte) rest)"
  by pat_completeness auto
termination
  by (relation "measure (\<lambda>(q, buf, s). length s)") (auto dest: unquote_char_shorter)

declare unquote_loop.simps [simp del]

text \<open>
  \<open>unquote\<close> with both of its outputs: the literal with its quotes (\<open>unescape = false\<close>),
  the value (\<open>unescape = true\<close>) and the remaining input.
\<close>

definition unquote_simple :: "char \<Rightarrow> bytes \<Rightarrow> bool" where
  "unquote_simple q body \<longleftrightarrow>
     backslash \<notin> set body \<and> newline \<notin> set body \<and>
     (if q = dquote then valid_utf8 body
      else (let (r, n) = decode_rune body in n = length body \<and> (r \<noteq> rune_error \<or> n \<noteq> 1)))"

definition unquote_prefix :: "bytes \<Rightarrow> (bytes \<times> bytes \<times> bytes) option" where
  "unquote_prefix s =
     (if length s < 2 then None
      else let q = hd s in
        case index_of (tl s) [q] of
          None \<Rightarrow> None
        | Some e \<Rightarrow>
            if q = bquote then
              Some (take (e + 2) s, filter (\<lambda>c. c \<noteq> creturn) (take e (tl s)), drop (e + 2) s)
            else if q = dquote \<or> q = squote then
              if unquote_simple q (take e (tl s))
              then Some (take (e + 2) s, take e (tl s), drop (e + 2) s)
              else case unquote_loop q [] (tl s) of
                None \<Rightarrow> None
              | Some (buf, rest) \<Rightarrow>
                  if rest \<noteq> [] \<and> hd rest = q
                  then Some (take (length s - length (tl rest)) s, buf, tl rest)
                  else None
            else None)"

definition quoted_prefix :: "bytes \<Rightarrow> bytes option" where
  "quoted_prefix s = map_option fst (unquote_prefix s)"

definition unquote :: "bytes \<Rightarrow> bytes option" where
  "unquote s = (case unquote_prefix s of
     Some (_, value, rest) \<Rightarrow> if rest = [] then Some value else None
   | None \<Rightarrow> None)"

section \<open>Literals without escapes\<close>

definition plain :: "bytes \<Rightarrow> bool" where
  "plain s \<longleftrightarrow> list_all (\<lambda>c. 32 \<le> byte c \<and> byte c < 127 \<and> c \<noteq> dquote \<and> c \<noteq> backslash) s"

lemma plain_digits: "plain (nat_digits n)"
  using nat_digits_are_digits [of n]
  by (auto simp: plain_def is_digit_def list_all_iff byte_def)

lemma quote_plain: "plain s \<Longrightarrow> quote s = [dquote] @ s @ [dquote]"
proof -
  assume "plain s"
  then have "concat (map quote_byte s) = s"
    by (induction s) (auto simp: plain_def quote_byte_def)
  then show ?thesis by (simp add: quote_def)
qed

lemma index_of_char_append: "c \<notin> set s \<Longrightarrow> index_of (s @ c # t) [c] = Some (length s)"
  by (induction s) auto

lemma plain_mem:
  assumes "plain s"
  shows "dquote \<notin> set s" "backslash \<notin> set s" "newline \<notin> set s" "valid_utf8 s"
proof -
  have all: "\<forall>c\<in>set s. 32 \<le> byte c \<and> byte c < 127 \<and> c \<noteq> dquote \<and> c \<noteq> backslash"
    using assms by (simp add: plain_def list_all_iff)
  then show "dquote \<notin> set s" "backslash \<notin> set s" by blast+
  have "\<not> 32 \<le> byte newline" by (simp add: byte_def)
  with all show "newline \<notin> set s" by blast
  show "valid_utf8 s"
    by (rule valid_utf8_ascii) (use all in \<open>fastforce simp: list_all_iff\<close>)
qed

lemma unquote_prefix_plain:
  assumes "plain s"
  shows "unquote_prefix (quote s @ rest) = Some (quote s, s, rest)"
proof -
  have "unquote_simple dquote s"
    using plain_mem [OF assms] by (simp add: unquote_simple_def)
  then show ?thesis
    using index_of_char_append [OF plain_mem(1) [OF assms], of rest]
    by (simp add: quote_plain [OF assms] unquote_prefix_def Let_def)
qed

lemma quoted_prefix_plain [simp]: "plain s \<Longrightarrow> quoted_prefix (quote s @ rest) = Some (quote s)"
  by (simp add: quoted_prefix_def unquote_prefix_plain)

lemma unquote_plain [simp]: "plain s \<Longrightarrow> unquote (quote s) = Some s"
  using unquote_prefix_plain [of s "[]"] by (simp add: unquote_def)

end
