(* ===== verification/Reorient_Tag.thy ===== *)
theory Reorient_Tag
  imports Go_Strconv "HOL-Library.Monad_Syntax"
begin

text \<open>
  Package \<open>internal/reorienttag\<close>: the wrapper tags of an injected transcript and the
  length-framed segment format inside them (\<open>tags.go\<close>, \<open>segments.go\<close>). The writer is
  \<open>EncodeSegment\<close>, \<open>EncodeTranscript\<close>, \<open>FramedTranscript\<close> and \<open>WrapInjection\<close>; the
  reader is \<open>ParseTranscriptSpans\<close> with its helpers, which work on byte positions of one
  text as the source does. A failed parse step is \<open>None\<close>.

  The lemmas show that reading inverts writing for every segment text, whatever tags and
  frames the text itself contains, that the reader's positions stay inside the text and
  only move forward (so both of its loops end), and that removing the spans removes exactly
  the framed bytes.
\<close>

section \<open>Tags and constants\<close>

definition PreCompactionTranscriptOpen :: bytes where
  "PreCompactionTranscriptOpen = ''<pre-compaction-transcript>''"

definition PreCompactionTranscriptClose :: bytes where
  "PreCompactionTranscriptClose = ''</pre-compaction-transcript>''"

definition CompactionInstructionsOpen :: bytes where
  "CompactionInstructionsOpen = ''<compaction-instructions>''"

definition CompactionInstructionsClose :: bytes where
  "CompactionInstructionsClose = ''</compaction-instructions>''"

definition TranscriptFormatMarker :: bytes where
  "TranscriptFormatMarker = ''<clyde-transcript-format version='' @ [dquote] @ ''2'' @ [dquote] @ ''/>''"

definition segmentRolePrefix :: bytes where "segmentRolePrefix = ''<segment role=''"
definition segmentKindPrefix :: bytes where "segmentKindPrefix = '' kind=''"
definition segmentBytesPrefix :: bytes where "segmentBytesPrefix = '' bytes=''"
definition segmentHeaderEnd :: bytes where "segmentHeaderEnd = ''>'' @ [newline]"
definition segmentFooter :: bytes where "segmentFooter = [newline] @ ''</segment>''"
definition segmentSeparator :: bytes where "segmentSeparator = [newline, newline]"

section \<open>Segments\<close>

datatype SegmentRole =
    SegmentRoleUser | SegmentRoleAssistant | SegmentRoleSystem | SegmentRoleOther

datatype SegmentKind =
    SegmentKindChat | SegmentKindThinking | SegmentKindToolCall | SegmentKindToolOutput
  | SegmentKindSystem | SegmentKindOther

fun role_string :: "SegmentRole \<Rightarrow> bytes" where
  "role_string SegmentRoleUser = ''user''"
| "role_string SegmentRoleAssistant = ''assistant''"
| "role_string SegmentRoleSystem = ''system''"
| "role_string SegmentRoleOther = ''other''"

fun kind_string :: "SegmentKind \<Rightarrow> bytes" where
  "kind_string SegmentKindChat = ''chat''"
| "kind_string SegmentKindThinking = ''thinking''"
| "kind_string SegmentKindToolCall = ''tool_call''"
| "kind_string SegmentKindToolOutput = ''tool_output''"
| "kind_string SegmentKindSystem = ''system''"
| "kind_string SegmentKindOther = ''other''"

record Segment =
  Segment_Role :: SegmentRole
  Segment_Kind :: SegmentKind
  Segment_Text :: bytes

record TranscriptSpan =
  Span_Start :: nat
  Span_End :: nat
  Span_Segments :: "Segment list"

section \<open>Writing\<close>

definition EncodeSegment :: "Segment \<Rightarrow> bytes" where
  "EncodeSegment segment =
     segmentRolePrefix @ quote (role_string (Segment_Role segment)) @
     segmentKindPrefix @ quote (kind_string (Segment_Kind segment)) @
     segmentBytesPrefix @ quote (itoa (int (length (Segment_Text segment)))) @
     segmentHeaderEnd @ Segment_Text segment @ segmentFooter"

fun encode_rest :: "Segment list \<Rightarrow> bytes" where
  "encode_rest [] = []"
| "encode_rest (segment # segments) =
     segmentSeparator @ EncodeSegment segment @ encode_rest segments"

fun EncodeTranscript :: "Segment list \<Rightarrow> bytes" where
  "EncodeTranscript [] = []"
| "EncodeTranscript (segment # segments) =
     TranscriptFormatMarker @ [newline] @ EncodeSegment segment @ encode_rest segments"

definition FramedTranscript :: "Segment list \<Rightarrow> bytes" where
  "FramedTranscript segments =
     (if segments = [] then []
      else PreCompactionTranscriptOpen @ [newline] @ EncodeTranscript segments @ [newline] @
           PreCompactionTranscriptClose)"

definition WrapInjection :: "bytes \<Rightarrow> bytes \<Rightarrow> bytes" where
  "WrapInjection transcript instructions =
     (let head = [newline, newline] @ PreCompactionTranscriptOpen @ [newline] @ transcript @
                 [newline] @ PreCompactionTranscriptClose @ [newline]
      in if instructions = [] then head
         else head @ [newline] @ CompactionInstructionsOpen @ [newline] @ instructions @
              [newline] @ CompactionInstructionsClose @ [newline])"

section \<open>Reading\<close>

definition knownRole :: "bytes \<Rightarrow> SegmentRole option" where
  "knownRole s = find (\<lambda>r. role_string r = s)
     [SegmentRoleUser, SegmentRoleAssistant, SegmentRoleSystem, SegmentRoleOther]"

definition knownKind :: "bytes \<Rightarrow> SegmentKind option" where
  "knownKind s = find (\<lambda>k. kind_string k = s)
     [SegmentKindChat, SegmentKindThinking, SegmentKindToolCall, SegmentKindToolOutput,
      SegmentKindSystem, SegmentKindOther]"

definition consumeLiteral :: "bytes \<Rightarrow> nat \<Rightarrow> bytes \<Rightarrow> nat option" where
  "consumeLiteral text position literal =
     (if has_prefix (drop position text) literal then Some (position + length literal) else None)"

definition consumeQuoted :: "bytes \<Rightarrow> nat \<Rightarrow> (bytes \<times> nat) option" where
  "consumeQuoted text position = do {
     quoted \<leftarrow> quoted_prefix (drop position text);
     val \<leftarrow> unquote quoted;
     Some (val, position + length quoted)
   }"

definition consumeLength :: "bytes \<Rightarrow> nat \<Rightarrow> (nat \<times> nat) option" where
  "consumeLength text position = do {
     (val, next) \<leftarrow> consumeQuoted text position;
     if val = [] \<or> val \<noteq> trim_left_set val ''+-'' then None
     else do {
       len \<leftarrow> atoi val;
       if len < 0 \<or> itoa len \<noteq> val then None else Some (nat len, next)
     }
   }"

definition parseSegment :: "bytes \<Rightarrow> nat \<Rightarrow> (Segment \<times> nat) option" where
  "parseSegment text position = do {
     position \<leftarrow> consumeLiteral text position segmentRolePrefix;
     (role, position) \<leftarrow> consumeQuoted text position;
     role \<leftarrow> knownRole role;
     position \<leftarrow> consumeLiteral text position segmentKindPrefix;
     (kind, position) \<leftarrow> consumeQuoted text position;
     kind \<leftarrow> knownKind kind;
     position \<leftarrow> consumeLiteral text position segmentBytesPrefix;
     (len, position) \<leftarrow> consumeLength text position;
     position \<leftarrow> consumeLiteral text position segmentHeaderEnd;
     if len > length text - position then None
     else do {
       let body = take len (drop position text);
       position \<leftarrow> consumeLiteral text (position + len) segmentFooter;
       Some (\<lparr>Segment_Role = role, Segment_Kind = kind, Segment_Text = body\<rparr>, position)
     }
   }"

section \<open>Positions only move forward\<close>

lemma consumeLiteral_Some:
  "consumeLiteral text p lit = Some n \<longleftrightarrow> n = p + length lit \<and> has_prefix (drop p text) lit"
  by (auto simp: consumeLiteral_def)

lemma consumeLiteral_le:
  "consumeLiteral text p lit = Some n \<Longrightarrow> p \<le> length text \<Longrightarrow> p \<le> n \<and> n \<le> length text"
  by (auto simp: consumeLiteral_Some dest: has_prefix_length)

lemma unquote_prefix_take: "unquote_prefix s = Some (q, v, rest) \<Longrightarrow> \<exists>n. q = take n s"
  by (auto simp: unquote_prefix_def Let_def split: if_splits option.splits)

lemma quoted_prefix_le: "quoted_prefix s = Some q \<Longrightarrow> length q \<le> length s"
  by (auto simp: quoted_prefix_def dest!: unquote_prefix_take)

lemma consumeQuoted_le:
  assumes "consumeQuoted text p = Some (v, n)" "p \<le> length text"
  shows "p \<le> n \<and> n \<le> length text"
proof -
  obtain q where "quoted_prefix (drop p text) = Some q" "n = p + length q"
    using assms(1) by (auto simp: consumeQuoted_def split: bind_splits)
  with assms(2) show ?thesis using quoted_prefix_le by fastforce
qed

lemma consumeLength_le:
  "consumeLength text p = Some (l, n) \<Longrightarrow> p \<le> length text \<Longrightarrow> p \<le> n \<and> n \<le> length text"
  by (auto simp: consumeLength_def split: bind_splits if_splits dest: consumeQuoted_le)

text \<open>
  What a successful \<open>parseSegment\<close> has read, step by step.
\<close>

lemma parseSegment_steps:
  assumes "parseSegment text p = Some (seg, n)"
  obtains p1 r p2 p3 k p4 p5 l p6 p7 where
    "consumeLiteral text p segmentRolePrefix = Some p1"
    "consumeQuoted text p1 = Some (r, p2)"
    "knownRole r = Some (Segment_Role seg)"
    "consumeLiteral text p2 segmentKindPrefix = Some p3"
    "consumeQuoted text p3 = Some (k, p4)"
    "knownKind k = Some (Segment_Kind seg)"
    "consumeLiteral text p4 segmentBytesPrefix = Some p5"
    "consumeLength text p5 = Some (l, p6)"
    "consumeLiteral text p6 segmentHeaderEnd = Some p7"
    "l \<le> length text - p7" "Segment_Text seg = take l (drop p7 text)"
    "consumeLiteral text (p7 + l) segmentFooter = Some n"
  using assms by (auto simp: parseSegment_def Let_def split: bind_splits if_splits)

lemma parseSegment_bounds:
  assumes "parseSegment text p = Some (seg, n)" "p \<le> length text"
  shows "p < n \<and> n \<le> length text"
proof -
  from assms(1) obtain p1 r p2 p3 k p4 p5 l p6 p7 where
    c: "consumeLiteral text p segmentRolePrefix = Some p1"
    "consumeQuoted text p1 = Some (r, p2)"
    "consumeLiteral text p2 segmentKindPrefix = Some p3"
    "consumeQuoted text p3 = Some (k, p4)"
    "consumeLiteral text p4 segmentBytesPrefix = Some p5"
    "consumeLength text p5 = Some (l, p6)"
    "consumeLiteral text p6 segmentHeaderEnd = Some p7"
    "l \<le> length text - p7" "consumeLiteral text (p7 + l) segmentFooter = Some n"
    by (rule parseSegment_steps)
  have "p < p1" using c(1) by (auto simp: consumeLiteral_Some segmentRolePrefix_def)
  moreover have "p1 \<le> length text" using c(1) assms(2) consumeLiteral_le by blast
  moreover from this have "p1 \<le> p2 \<and> p2 \<le> length text" using c(2) consumeQuoted_le by blast
  moreover from this have "p2 \<le> p3 \<and> p3 \<le> length text" using c(3) consumeLiteral_le by blast
  moreover from this have "p3 \<le> p4 \<and> p4 \<le> length text" using c(4) consumeQuoted_le by blast
  moreover from this have "p4 \<le> p5 \<and> p5 \<le> length text" using c(5) consumeLiteral_le by blast
  moreover from this have "p5 \<le> p6 \<and> p6 \<le> length text" using c(6) consumeLength_le by blast
  moreover from this have "p6 \<le> p7 \<and> p7 \<le> length text" using c(7) consumeLiteral_le by blast
  moreover from this have "p7 + l \<le> length text" using c(8) by linarith
  moreover from this have "p7 + l \<le> n \<and> n \<le> length text" using c(9) consumeLiteral_le by blast
  ultimately show ?thesis by linarith
qed

text \<open>
  The source's loops run without a bound of their own. The guard \<open>position \<le> len(text)\<close>
  holds at every call (\<open>parseFramedBody_bounds\<close>, \<open>parse_spans_from\<close> starts at 0); slicing
  at a larger position would panic, which the guard makes a failed parse.
\<close>

function parseFramedBody :: "bytes \<Rightarrow> nat \<Rightarrow> (Segment list \<times> nat) option" where
  "parseFramedBody text position =
     (if length text < position then None
      else case parseSegment text position of
        None \<Rightarrow> None
      | Some (segment, position) \<Rightarrow>
          let closing = [newline] @ PreCompactionTranscriptClose in
          if has_prefix (drop position text) closing
          then Some ([segment], position + length closing)
          else if \<not> has_prefix (drop position text) segmentSeparator then None
          else map_option (\<lambda>(segments, end). (segment # segments, end))
                 (parseFramedBody text (position + length segmentSeparator)))"
  by pat_completeness auto
termination
  by (relation "measure (\<lambda>(text, position). Suc (length text) - position)")
     (auto dest: parseSegment_bounds)

declare parseFramedBody.simps [simp del]

lemma parseFramedBody_bounds:
  "parseFramedBody t p = Some (segs, e) \<Longrightarrow> p < e \<and> e \<le> length t"
proof (induction t p arbitrary: segs e rule: parseFramedBody.induct)
  case (1 t p)
  from "1.prems" obtain seg n where p: "p \<le> length t" and s: "parseSegment t p = Some (seg, n)"
    by (subst (asm) parseFramedBody.simps) (auto split: if_splits option.splits)
  have n: "p < n" "n \<le> length t" using parseSegment_bounds [OF s p] by auto
  show ?case
  proof (cases "has_prefix (drop n t) ([newline] @ PreCompactionTranscriptClose)")
    case True
    with "1.prems" s p n show ?thesis
      by (subst (asm) parseFramedBody.simps) (auto dest: has_prefix_length)
  next
    case False
    with "1.prems" s p obtain segs' where
      "parseFramedBody t (n + length segmentSeparator) = Some (segs', e)"
      "has_prefix (drop n t) segmentSeparator"
      by (subst (asm) parseFramedBody.simps) (auto split: if_splits)
    with "1.IH" [OF _ s refl refl False] p n show ?thesis by fastforce
  qed
qed

definition transcript_header :: bytes where
  "transcript_header = PreCompactionTranscriptOpen @ [newline] @ TranscriptFormatMarker @ [newline]"

lemma transcript_header_nonempty [simp]: "0 < length transcript_header" "transcript_header \<noteq> []"
  by (simp_all add: transcript_header_def PreCompactionTranscriptOpen_def)

function parse_spans_from :: "bytes \<Rightarrow> nat \<Rightarrow> TranscriptSpan list" where
  "parse_spans_from text position =
     (if position < length text then
        case index_of (drop position text) transcript_header of
          None \<Rightarrow> []
        | Some offset \<Rightarrow>
            let start = position + offset in
            case parseFramedBody text (start + length transcript_header) of
              None \<Rightarrow> parse_spans_from text (start + length transcript_header)
            | Some (segments, end) \<Rightarrow>
                \<lparr>Span_Start = start, Span_End = end, Span_Segments = segments\<rparr>
                # parse_spans_from text end
      else [])"
  by pat_completeness auto
termination
  by (relation "measure (\<lambda>(text, position). length text - position)")
     (auto intro!: diff_less_mono2 dest!: parseFramedBody_bounds)

declare parse_spans_from.simps [simp del]

definition ParseTranscriptSpans :: "bytes \<Rightarrow> TranscriptSpan list" where
  "ParseTranscriptSpans text = parse_spans_from text 0"

fun text_outside_from :: "bytes \<Rightarrow> nat \<Rightarrow> TranscriptSpan list \<Rightarrow> bytes" where
  "text_outside_from text previousEnd [] = drop previousEnd text"
| "text_outside_from text previousEnd (span # spans) =
     take (Span_Start span - previousEnd) (drop previousEnd text)
     @ text_outside_from text (Span_End span) spans"

definition textOutsideSpans :: "bytes \<Rightarrow> TranscriptSpan list \<Rightarrow> bytes" where
  "textOutsideSpans text spans = text_outside_from text 0 spans"

definition RemoveTranscriptSpans :: "bytes \<Rightarrow> bytes \<times> bool" where
  "RemoveTranscriptSpans text =
     (let spans = ParseTranscriptSpans text
      in if spans = [] then (text, False) else (textOutsideSpans text spans, True))"

definition ContainsTranscriptWrapper :: "bytes \<Rightarrow> bool" where
  "ContainsTranscriptWrapper text \<longleftrightarrow>
     contains text transcript_header \<or>
     list_ex (\<lambda>heading. contains text
         (PreCompactionTranscriptOpen @ [newline] @ ''### '' @ heading @ [newline, newline]))
       [''User'', ''Assistant'', ''System'', ''Other'']"

definition CompleteTranscriptSpans :: "bytes \<Rightarrow> TranscriptSpan list" where
  "CompleteTranscriptSpans text =
     (let spans = ParseTranscriptSpans text
      in if ContainsTranscriptWrapper (textOutsideSpans text spans) then [] else spans)"

section \<open>Reading inverts writing\<close>

lemma knownRole_string [simp]: "knownRole (role_string r) = Some r"
  by (cases r) (simp_all add: knownRole_def)

lemma knownKind_string [simp]: "knownKind (kind_string k) = Some k"
  by (cases k) (simp_all add: knownKind_def)

lemma plain_role_string [simp]: "plain (role_string r)"
  by (cases r) (simp_all add: plain_def byte_def)

lemma plain_kind_string [simp]: "plain (kind_string k)"
  by (cases k) (simp_all add: plain_def byte_def)

text \<open>
  Each step of the reader, at a position where the rest of the text is known: it succeeds,
  and what is left is the rest after it.
\<close>

lemma drop_after: "drop p t = u @ v \<Longrightarrow> drop (p + length u) t = v"
  by (metis add.commute append_eq_conv_conj drop_drop)

lemma consumeLiteral_at:
  "drop p t = lit @ v \<Longrightarrow> consumeLiteral t p lit = Some (p + length lit)"
  by (simp add: consumeLiteral_def)

lemma consumeQuoted_at:
  "drop p t = quote w @ v \<Longrightarrow> plain w \<Longrightarrow> consumeQuoted t p = Some (w, p + length (quote w))"
  by (simp add: consumeQuoted_def)

lemma itoa_int [simp]: "itoa (int n) = nat_digits n"
  by (simp add: itoa_def)

lemma digits_no_sign: "trim_left_set (nat_digits n) ''+-'' = nat_digits n"
proof -
  obtain c ds where d: "nat_digits n = c # ds" by (cases "nat_digits n") auto
  then have "is_digit c" using nat_digits_are_digits [of n] by simp
  then have "c \<notin> set ''+-''" by (auto simp: is_digit_def byte_def)
  with d show ?thesis by (simp add: trim_left_set_def)
qed

lemma consumeLength_at:
  "drop p t = quote (nat_digits n) @ v \<Longrightarrow> int n \<le> max_int \<Longrightarrow>
   consumeLength t p = Some (n, p + length (quote (nat_digits n)))"
  by (simp add: consumeLength_def consumeQuoted_at plain_digits digits_no_sign)

lemma parseSegment_EncodeSegment:
  assumes d: "drop p t = EncodeSegment seg @ v" and l: "int (length (Segment_Text seg)) \<le> max_int"
  shows "parseSegment t p = Some (seg, p + length (EncodeSegment seg))"
proof -
  let ?n = "length (Segment_Text seg)"
  let ?r = "quote (role_string (Segment_Role seg))"
  let ?k = "quote (kind_string (Segment_Kind seg))"
  let ?b = "quote (nat_digits ?n)"
  define p1 where "p1 = p + length segmentRolePrefix"
  define p2 where "p2 = p1 + length ?r"
  define p3 where "p3 = p2 + length segmentKindPrefix"
  define p4 where "p4 = p3 + length ?k"
  define p5 where "p5 = p4 + length segmentBytesPrefix"
  define p6 where "p6 = p5 + length ?b"
  define p7 where "p7 = p6 + length segmentHeaderEnd"
  define p8 where "p8 = p7 + ?n"
  note ps = p1_def p2_def p3_def p4_def p5_def p6_def p7_def p8_def
  have d0: "drop p t = segmentRolePrefix @ ?r @ segmentKindPrefix @ ?k @ segmentBytesPrefix @ ?b @
      segmentHeaderEnd @ Segment_Text seg @ segmentFooter @ v"
    using d by (simp add: EncodeSegment_def)
  note d1 = drop_after [OF d0, folded p1_def]
  note d2 = drop_after [OF d1, folded p2_def]
  note d3 = drop_after [OF d2, folded p3_def]
  note d4 = drop_after [OF d3, folded p4_def]
  note d5 = drop_after [OF d4, folded p5_def]
  note d6 = drop_after [OF d5, folded p6_def]
  note d7 = drop_after [OF d6, folded p7_def]
  note d8 = drop_after [OF d7, folded p8_def]
  have len: "\<not> ?n > length t - p7" using arg_cong [OF d7, of length] by simp
  have "parseSegment t p = Some (seg, p8 + length segmentFooter)"
    using consumeLiteral_at [OF d0] consumeQuoted_at [OF d1] consumeLiteral_at [OF d2]
      consumeQuoted_at [OF d3] consumeLiteral_at [OF d4] consumeLength_at [OF d5 l]
      consumeLiteral_at [OF d6] consumeLiteral_at [OF d8] len
    by (simp add: parseSegment_def d7 flip: ps)
  then show ?thesis by (simp add: EncodeSegment_def ps add.assoc)
qed

abbreviation fits_int :: "Segment list \<Rightarrow> bool" where
  "fits_int segs \<equiv> list_all (\<lambda>seg. int (length (Segment_Text seg)) \<le> max_int) segs"

lemma closing_not_separator: "\<not> has_prefix (segmentSeparator @ v) ([newline] @ PreCompactionTranscriptClose)"
  by (simp add: segmentSeparator_def PreCompactionTranscriptClose_def)

lemma parseFramedBody_encode:
  assumes "drop p t = EncodeSegment seg @ encode_rest segs @ [newline] @ PreCompactionTranscriptClose @ v"
    and "p \<le> length t" "fits_int (seg # segs)"
  shows "parseFramedBody t p = Some (seg # segs,
     p + length (EncodeSegment seg @ encode_rest segs @ [newline] @ PreCompactionTranscriptClose))"
  using assms
proof (induction segs arbitrary: p seg)
  case Nil
  let ?q = "p + length (EncodeSegment seg)"
  have s: "parseSegment t p = Some (seg, ?q)"
    using parseSegment_EncodeSegment Nil.prems by fastforce
  have "drop ?q t = [newline] @ PreCompactionTranscriptClose @ v"
    using drop_after Nil.prems(1) by fastforce
  with s Nil.prems(2) show ?case
    by (subst parseFramedBody.simps) (simp add: Let_def)
next
  case (Cons seg2 segs)
  let ?q = "p + length (EncodeSegment seg)"
  let ?rest = "EncodeSegment seg2 @ encode_rest segs @ [newline] @ PreCompactionTranscriptClose @ v"
  have s: "parseSegment t p = Some (seg, ?q)"
    using parseSegment_EncodeSegment Cons.prems by fastforce
  have q: "drop ?q t = segmentSeparator @ ?rest"
    using drop_after Cons.prems(1) by fastforce
  have r: "drop (?q + length segmentSeparator) t = ?rest"
    using drop_after [OF q] .
  have "?q + length segmentSeparator \<le> length t"
    using arg_cong [OF q, of length] by (simp add: segmentSeparator_def)
  then have "parseFramedBody t (?q + length segmentSeparator) = Some (seg2 # segs,
      ?q + length segmentSeparator
      + length (EncodeSegment seg2 @ encode_rest segs @ [newline] @ PreCompactionTranscriptClose))"
    using Cons.IH [OF r] Cons.prems(3) by simp
  with s q Cons.prems(2) closing_not_separator [of ?rest] show ?case
    by (subst parseFramedBody.simps) (simp add: Let_def add.assoc)
qed

section \<open>The reader depends on the rest of the text only\<close>

abbreviation shift_result :: "nat \<Rightarrow> ('a \<times> nat) option \<Rightarrow> ('a \<times> nat) option" where
  "shift_result q r \<equiv> map_option (\<lambda>(x, n). (x, q + n)) r"

definition shift_span :: "nat \<Rightarrow> TranscriptSpan \<Rightarrow> TranscriptSpan" where
  "shift_span q span =
     span\<lparr>Span_Start := q + Span_Start span, Span_End := q + Span_End span\<rparr>"

lemma consumeLiteral_shift:
  "consumeLiteral t (q + p) lit = map_option ((+) q) (consumeLiteral (drop q t) p lit)"
  by (simp add: consumeLiteral_def add.commute add.left_commute)

lemma consumeQuoted_shift: "consumeQuoted t (q + p) = shift_result q (consumeQuoted (drop q t) p)"
  by (auto simp: consumeQuoted_def add.commute add.left_commute split: bind_splits)

lemma consumeLength_shift: "consumeLength t (q + p) = shift_result q (consumeLength (drop q t) p)"
  by (auto simp: consumeLength_def consumeQuoted_shift split: bind_splits)

lemmas consume_shift = consumeLiteral_shift consumeQuoted_shift consumeLength_shift

text \<open>A step that shifts its position, followed by steps that do.\<close>

lemma bind_shift_position:
  assumes "r1 = map_option ((+) q) r2" "\<And>n. g1 (q + n) = shift_result q (g2 n)"
  shows "r1 \<bind> g1 = shift_result q (r2 \<bind> g2)"
  using assms by (cases r2) auto

lemma bind_shift_value:
  assumes "r1 = shift_result q r2" "\<And>x n. g1 x (q + n) = shift_result q (g2 x n)"
  shows "(r1 \<bind> (\<lambda>(x, n). g1 x n)) = shift_result q (r2 \<bind> (\<lambda>(x, n). g2 x n))"
  using assms by (cases r2) auto

lemma bind_shift_same:
  assumes "\<And>x. g1 x = shift_result q (g2 x)"
  shows "r \<bind> g1 = shift_result q (r \<bind> g2)"
  using assms by (cases r) auto

lemma parseSegment_shift: "parseSegment t (q + p) = shift_result q (parseSegment (drop q t) p)"
  unfolding parseSegment_def
  apply (rule bind_shift_position [OF consumeLiteral_shift])
  apply (rule bind_shift_value [OF consumeQuoted_shift])
  apply (rule bind_shift_same)
  apply (rule bind_shift_position [OF consumeLiteral_shift])
  apply (rule bind_shift_value [OF consumeQuoted_shift])
  apply (rule bind_shift_same)
  apply (rule bind_shift_position [OF consumeLiteral_shift])
  apply (rule bind_shift_value [OF consumeLength_shift])
  apply (rule bind_shift_position [OF consumeLiteral_shift])
  subgoal for p1 r p2 role p3 k p4 kind p5 len p6 p7
    using consumeLiteral_shift [of t q "p7 + len" segmentFooter]
    by (cases "consumeLiteral (drop q t) (p7 + len) segmentFooter")
       (simp_all add: add.assoc add.commute [of p7 q])
  done

lemma parseFramedBody_shift:
  "q \<le> length t \<Longrightarrow> parseFramedBody t (q + p) = shift_result q (parseFramedBody (drop q t) p)"
proof (induction "drop q t" p rule: parseFramedBody.induct)
  case (1 p)
  show ?case
  proof (cases "length t < q + p \<or> parseSegment (drop q t) p = None")
    case True
    with "1.prems" show ?thesis
      by (subst (1 2) parseFramedBody.simps) (auto simp: parseSegment_shift less_diff_conv2)
  next
    case False
    then obtain seg n where s: "parseSegment (drop q t) p = Some (seg, n)" and p: "q + p \<le> length t"
      by auto
    have IH: "\<not> has_prefix (drop n (drop q t)) ([newline] @ PreCompactionTranscriptClose) \<Longrightarrow>
       has_prefix (drop n (drop q t)) segmentSeparator \<Longrightarrow>
       parseFramedBody t (q + (n + length segmentSeparator)) =
       shift_result q (parseFramedBody (drop q t) (n + length segmentSeparator))"
      using "1.hyps" [OF _ s refl refl] "1.prems" p by fastforce
    show ?thesis
      using p IH
      by (subst (1 2) parseFramedBody.simps)
         (auto simp: parseSegment_shift s Let_def add.assoc add.commute [of n q] option.map_comp
           comp_def split_beta)
  qed
qed

lemma parse_spans_shift:
  "q \<le> length t \<Longrightarrow> parse_spans_from t (q + p) = map (shift_span q) (parse_spans_from (drop q t) p)"
proof (induction "drop q t" p rule: parse_spans_from.induct)
  case (1 p)
  let ?u = "drop q t" and ?h = transcript_header
  have d: "drop (q + p) t = drop p ?u" by (simp add: add.commute)
  have less: "q + p < length t \<longleftrightarrow> p < length ?u" using "1.prems" by auto
  show ?case
  proof (cases "p < length ?u \<and> index_of (drop p ?u) ?h \<noteq> None")
    case False
    with less d show ?thesis
      by (subst (1 2) parse_spans_from.simps) auto
  next
    case True
    then obtain i where p: "p < length ?u" and i: "index_of (drop p ?u) ?h = Some i" by auto
    have b: "parseFramedBody t (q + p + i + length ?h)
        = shift_result q (parseFramedBody ?u (p + i + length ?h))"
      using parseFramedBody_shift [OF "1.prems", of "p + i + length ?h"] by (simp add: add.assoc)
    show ?thesis
    proof (cases "parseFramedBody ?u (p + i + length ?h)")
      case None
      with "1.hyps"(1) [OF p i refl] "1.prems" have
        "parse_spans_from t (q + (p + i + length ?h))
         = map (shift_span q) (parse_spans_from ?u (p + i + length ?h))" by blast
      with None b p i less d show ?thesis
        by (subst (1 2) parse_spans_from.simps) (simp add: add.assoc)
    next
      case (Some r)
      obtain segs e where r: "r = (segs, e)" by fastforce
      from "1.hyps"(2) [OF p i refl] Some r "1.prems" have
        "parse_spans_from t (q + e) = map (shift_span q) (parse_spans_from ?u e)" by blast
      with Some r b p i less d show ?thesis
        by (subst (1 2) parse_spans_from.simps) (simp add: shift_span_def add.assoc)
    qed
  qed
qed

section \<open>Framed transcripts in a text\<close>

lemma borderless_header: "borderless transcript_header"
  by (code_simp)

lemma FramedTranscript_Cons:
  "FramedTranscript (seg # segs) = transcript_header @ EncodeSegment seg @ encode_rest segs
     @ [newline] @ PreCompactionTranscriptClose"
  by (simp add: FramedTranscript_def transcript_header_def)

lemma parse_spans_framed:
  assumes "segs \<noteq> []" "fits_int segs" "\<not> contains pre transcript_header"
  shows "ParseTranscriptSpans (pre @ FramedTranscript segs @ post) =
    \<lparr>Span_Start = length pre, Span_End = length pre + length (FramedTranscript segs),
     Span_Segments = segs\<rparr>
    # map (shift_span (length pre + length (FramedTranscript segs))) (ParseTranscriptSpans post)"
proof -
  obtain seg rest where segs: "segs = seg # rest" using assms(1) by (cases segs) auto
  let ?t = "pre @ FramedTranscript segs @ post"
  let ?body = "EncodeSegment seg @ encode_rest rest @ [newline] @ PreCompactionTranscriptClose"
  let ?e = "length pre + length (FramedTranscript segs)"
  have t: "?t = pre @ transcript_header @ ?body @ post" by (simp add: segs FramedTranscript_Cons)
  have i: "index_of ?t transcript_header = Some (length pre)"
    unfolding t by (rule index_of_append_borderless [OF borderless_header _ assms(3)]) simp
  have "parseFramedBody ?t (length pre + length transcript_header)
      = Some (seg # rest, length pre + length transcript_header + length ?body)"
    by (rule parseFramedBody_encode [where v = post])
       (use assms(2) segs in \<open>simp_all add: FramedTranscript_Cons\<close>)
  then have b: "parseFramedBody ?t (length pre + length transcript_header) = Some (segs, ?e)"
    by (simp add: segs FramedTranscript_Cons)
  have "?t \<noteq> []" by (simp add: segs FramedTranscript_Cons)
  then have "ParseTranscriptSpans ?t = \<lparr>Span_Start = length pre, Span_End = ?e, Span_Segments = segs\<rparr>
      # parse_spans_from ?t ?e"
    unfolding ParseTranscriptSpans_def using i b
    by (subst parse_spans_from.simps) (simp add: Let_def)
  moreover have "parse_spans_from ?t ?e = map (shift_span ?e) (ParseTranscriptSpans post)"
    using parse_spans_shift [of ?e ?t 0] by (simp add: ParseTranscriptSpans_def)
  ultimately show ?thesis by simp
qed

text \<open>
  C1. Reading a text that contains a framed transcript gives back exactly the segments that
  were written, whatever bytes the segment texts hold (frame headers, footers and transcript
  tags included): \<open>ParseTranscriptSpans\<close> finds one span at the place of the framed
  transcript with the original segments, followed by the spans of the text after it. The
  text before it must not itself start a framed transcript, and segment lengths must fit a
  Go \<open>int\<close>.
\<close>

theorem ParseTranscriptSpans_FramedTranscript:
  assumes "segs \<noteq> []" and "\<forall>seg \<in> set segs. int (length (Segment_Text seg)) \<le> max_int"
    and "\<not> contains pre transcript_header"
  shows "ParseTranscriptSpans (pre @ FramedTranscript segs @ post) =
    \<lparr>Span_Start = length pre, Span_End = length pre + length (FramedTranscript segs),
     Span_Segments = segs\<rparr>
    # map (shift_span (length pre + length (FramedTranscript segs))) (ParseTranscriptSpans post)"
  using parse_spans_framed [OF assms(1) _ assms(3)] assms(2) by (simp add: list_all_iff)

lemma text_outside_shift:
  "text_outside_from (u @ t) (length u + p) (map (shift_span (length u)) spans) = text_outside_from t p spans"
  by (induction spans arbitrary: p) (simp_all add: shift_span_def)

lemma textOutsideSpans_framed:
  "textOutsideSpans (pre @ w @ post)
     (\<lparr>Span_Start = length pre, Span_End = length pre + length w, Span_Segments = segs\<rparr>
      # map (shift_span (length pre + length w)) spans) = pre @ textOutsideSpans post spans"
  using text_outside_shift [of "pre @ w" post 0 spans] by (simp add: textOutsideSpans_def)

lemma RemoveTranscriptSpans_fst: "fst (RemoveTranscriptSpans t) = textOutsideSpans t (ParseTranscriptSpans t)"
  by (simp add: RemoveTranscriptSpans_def Let_def textOutsideSpans_def)

text \<open>
  Removing the framed transcripts of a text removes the bytes of the framed transcript
  and nothing else, and reports the removal; the text after it is cleaned the same way.
\<close>

lemma RemoveTranscriptSpans_FramedTranscript:
  assumes "segs \<noteq> []" and "\<forall>seg \<in> set segs. int (length (Segment_Text seg)) \<le> max_int"
    and "\<not> contains pre transcript_header"
  shows "RemoveTranscriptSpans (pre @ FramedTranscript segs @ post) =
    (pre @ fst (RemoveTranscriptSpans post), True)"
proof -
  have "fits_int segs" using assms(2) by (simp add: list_all_iff)
  from parse_spans_framed [OF assms(1) this assms(3)] show ?thesis
    by (simp add: RemoveTranscriptSpans_fst textOutsideSpans_framed)
       (simp add: RemoveTranscriptSpans_def textOutsideSpans_framed)
qed

section \<open>Spans of an arbitrary text\<close>

fun spans_within :: "nat \<Rightarrow> TranscriptSpan list \<Rightarrow> nat \<Rightarrow> bool" where
  "spans_within lo [] hi \<longleftrightarrow> lo \<le> hi"
| "spans_within lo (span # spans) hi \<longleftrightarrow>
     lo \<le> Span_Start span \<and> Span_Start span < Span_End span \<and> spans_within (Span_End span) spans hi"

definition span_ok :: "bytes \<Rightarrow> TranscriptSpan \<Rightarrow> bool" where
  "span_ok t span \<longleftrightarrow>
     has_prefix (drop (Span_Start span) t) transcript_header
     \<and> has_suffix (take (Span_End span) t) ([newline] @ PreCompactionTranscriptClose)
     \<and> Span_Segments span \<noteq> []"

lemma parseFramedBody_ends:
  "parseFramedBody t p = Some (segs, e) \<Longrightarrow>
   segs \<noteq> [] \<and> has_suffix (take e t) ([newline] @ PreCompactionTranscriptClose)"
proof (induction t p arbitrary: segs e rule: parseFramedBody.induct)
  case (1 t p)
  let ?c = "[newline] @ PreCompactionTranscriptClose"
  from "1.prems" obtain seg n where p: "p \<le> length t" and s: "parseSegment t p = Some (seg, n)"
    by (subst (asm) parseFramedBody.simps) (auto split: if_splits option.splits)
  show ?case
  proof (cases "has_prefix (drop n t) ?c")
    case True
    with "1.prems" s p have r: "segs = [seg]" "e = n + length ?c"
      by (subst (asm) parseFramedBody.simps, simp)+
    have "take e t = take n t @ take (length ?c) (drop n t)"
      unfolding r(2) by (rule take_add)
    also have "take (length ?c) (drop n t) = ?c" using True unfolding has_prefix_def .
    finally show ?thesis using r(1) by (metis has_suffix_append list.distinct(1))
  next
    case False
    with "1.prems" s p obtain segs' where f: "segs = seg # segs'"
      "parseFramedBody t (n + length segmentSeparator) = Some (segs', e)"
      "has_prefix (drop n t) segmentSeparator"
      by (subst (asm) parseFramedBody.simps) (auto split: if_splits)
    have "\<not> length t < p" using p by simp
    from "1.IH" [OF this s refl refl False] f show ?thesis by auto
  qed
qed

lemma parse_spans_from_ok:
  "p \<le> length t \<Longrightarrow> spans_within p (parse_spans_from t p) (length t) \<and>
   (\<forall>span \<in> set (parse_spans_from t p). span_ok t span)"
proof (induction t p rule: parse_spans_from.induct)
  case (1 t p)
  let ?h = transcript_header
  show ?case
  proof (cases "p < length t \<and> index_of (drop p t) ?h \<noteq> None")
    case False
    then have "parse_spans_from t p = []" by (subst parse_spans_from.simps) auto
    with "1.prems" show ?thesis by simp
  next
    case True
    then obtain i where p: "p < length t" and i: "index_of (drop p t) ?h = Some i" by auto
    have ib: "p + i + length ?h \<le> length t" using index_of_bound [OF i] p by simp
    have hp: "has_prefix (drop (p + i) t) ?h"
      using index_of_Some [OF i] by (simp add: add.commute)
    show ?thesis
    proof (cases "parseFramedBody t (p + i + length ?h)")
      case None
      have step: "parse_spans_from t p = parse_spans_from t (p + i + length ?h)"
        using p i None by (subst parse_spans_from.simps) simp
      have "spans_within q spans hi \<Longrightarrow> r \<le> q \<Longrightarrow> spans_within r spans hi" for q r spans hi
        by (cases spans) auto
      then show ?thesis
        using "1.IH"(1) [OF p i refl None ib] unfolding step by (metis add.assoc le_add1)
    next
      case (Some r)
      obtain segs e where r: "r = (segs, e)" by fastforce
      have step: "parse_spans_from t p
          = \<lparr>Span_Start = p + i, Span_End = e, Span_Segments = segs\<rparr> # parse_spans_from t e"
        using p i Some r by (subst parse_spans_from.simps) simp
      have e: "p + i + length ?h < e" "e \<le> length t" using parseFramedBody_bounds Some r by auto
      have "spans_within e (parse_spans_from t e) (length t)
          \<and> (\<forall>span \<in> set (parse_spans_from t e). span_ok t span)"
        using "1.IH"(2) [OF p i refl Some r [symmetric] e(2)] r by simp
      moreover have "span_ok t \<lparr>Span_Start = p + i, Span_End = e, Span_Segments = segs\<rparr>"
        using hp parseFramedBody_ends [of t _ segs e] Some r by (auto simp: span_ok_def)
      ultimately show ?thesis using e unfolding step by auto
    qed
  qed
qed

text \<open>
  On every input the spans that \<open>ParseTranscriptSpans\<close> returns lie inside the text, in
  order and without overlap, and each one starts with the transcript header, ends with the
  close tag and has at least one segment; so the slices of the text the callers take at
  these offsets never go out of range.
\<close>

lemma ParseTranscriptSpans_well_formed:
  "spans_within 0 (ParseTranscriptSpans t) (length t) \<and>
   list_all (span_ok t) (ParseTranscriptSpans t)"
  using parse_spans_from_ok [of 0 t] by (simp add: ParseTranscriptSpans_def list_all_iff)

lemma text_outside_length:
  "spans_within p spans (length t) \<Longrightarrow>
   length (text_outside_from t p spans) + (\<Sum>span \<leftarrow> spans. Span_End span - Span_Start span) + p = length t"
proof (induction spans arbitrary: p)
  case Nil
  then show ?case by simp
next
  case (Cons span spans)
  have le: "spans_within q sp hi \<Longrightarrow> q \<le> hi" for q sp hi
    by (induction q sp hi rule: spans_within.induct) auto
  have "Span_End span \<le> length t" using Cons.prems le by auto
  with Cons.IH [of "Span_End span"] Cons.prems show ?case by auto
qed

text \<open>
  The bytes that \<open>RemoveTranscriptSpans\<close> keeps and the bytes of the spans it found add
  up to the input: nothing outside the spans is lost.
\<close>

lemma RemoveTranscriptSpans_accounts_for_every_byte:
  "length (fst (RemoveTranscriptSpans t))
   + (\<Sum>span \<leftarrow> ParseTranscriptSpans t. Span_End span - Span_Start span) = length t"
  using text_outside_length [of 0 "ParseTranscriptSpans t" t] parse_spans_from_ok [of 0 t]
  by (simp add: RemoveTranscriptSpans_fst textOutsideSpans_def ParseTranscriptSpans_def)

lemma header_tail_check:
  "list_all (\<lambda>k. \<not> has_prefix ([newline] @ CompactionInstructionsClose @ [newline])
     (drop k transcript_header)) [0..<length transcript_header - 1]"
  by code_simp

lemma no_header_after_transcript:
  assumes "\<not> contains (instructions @ [newline]) transcript_header"
  shows "\<not> contains ([newline, newline] @ CompactionInstructionsOpen @ [newline] @ instructions
     @ [newline] @ CompactionInstructionsClose @ [newline]) transcript_header"
proof -
  have "\<not> contains (CompactionInstructionsClose @ [newline]) transcript_header" by code_simp
  then have "\<not> contains (instructions @ newline # CompactionInstructionsClose @ [newline]) transcript_header"
    using contains_append_tail assms header_tail_check by fastforce
  then show ?thesis
    by (simp add: contains_Cons CompactionInstructionsOpen_def transcript_header_def
        PreCompactionTranscriptOpen_def)
qed

lemma parse_spans_none: "\<not> contains t transcript_header \<Longrightarrow> ParseTranscriptSpans t = []"
  by (simp add: ParseTranscriptSpans_def contains_def parse_spans_from.simps)

text \<open>
  What the injector inserts under a summary reads back as the retained segments: the wrapped
  injection of an encoded transcript holds one span with exactly those segments.
\<close>

lemma parse_wrap_injection:
  assumes "segs \<noteq> []" "fits_int segs" "\<not> contains (instructions @ [newline]) transcript_header"
  shows "map Span_Segments
     (ParseTranscriptSpans (WrapInjection (EncodeTranscript segs) instructions)) = [segs]"
proof -
  define post where "post = (if instructions = [] then [newline]
    else [newline, newline] @ CompactionInstructionsOpen @ [newline] @ instructions
      @ [newline] @ CompactionInstructionsClose @ [newline])"
  have w: "WrapInjection (EncodeTranscript segs) instructions
      = [newline, newline] @ FramedTranscript segs @ post"
    using assms(1) by (simp add: WrapInjection_def FramedTranscript_def Let_def post_def)
  have "\<not> contains [newline] transcript_header" by code_simp
  then have "ParseTranscriptSpans post = []"
    unfolding post_def using no_header_after_transcript [OF assms(3)] parse_spans_none by auto
  moreover have "\<not> contains [newline, newline] transcript_header" by code_simp
  ultimately show ?thesis
    unfolding w using parse_spans_framed [OF assms(1,2), of "[newline, newline]" post] by simp
qed

text \<open>The witnesses read back a segment whose text is itself a transcript header.\<close>

definition quoting_segment :: Segment where
  "quoting_segment = \<lparr>Segment_Role = SegmentRoleUser, Segment_Kind = SegmentKindChat,
     Segment_Text = transcript_header\<rparr>"

lemma quoting_segment_fits: "int (length (Segment_Text quoting_segment)) \<le> max_int"
  by (simp add: quoting_segment_def transcript_header_def PreCompactionTranscriptOpen_def
      TranscriptFormatMarker_def)

theorem ParseTranscriptSpans_FramedTranscript_witness:
  "ParseTranscriptSpans (''hi'' @ FramedTranscript [quoting_segment] @ ''ok'') =
   [\<lparr>Span_Start = 2, Span_End = 2 + length (FramedTranscript [quoting_segment]),
     Span_Segments = [quoting_segment]\<rparr>]"
proof -
  have "\<not> contains ''hi'' transcript_header" "\<not> contains ''ok'' transcript_header" by code_simp+
  then show ?thesis
    using ParseTranscriptSpans_FramedTranscript [of "[quoting_segment]" "''hi''" "''ok''"]
      quoting_segment_fits parse_spans_none [of "''ok''"] by simp
qed

lemma RemoveTranscriptSpans_FramedTranscript_witness:
  "RemoveTranscriptSpans (''hi'' @ FramedTranscript [quoting_segment] @ ''ok'') = (''hiok'', True)"
proof -
  have "\<not> contains ''hi'' transcript_header" "\<not> contains ''ok'' transcript_header" by code_simp+
  then show ?thesis
    using RemoveTranscriptSpans_FramedTranscript [of "[quoting_segment]" "''hi''" "''ok''"]
      quoting_segment_fits parse_spans_none [of "''ok''"]
    by (simp add: RemoveTranscriptSpans_def)
qed

lemma length_encode_rest:
  "seg \<in> set segs \<Longrightarrow> length (Segment_Text seg) \<le> length (encode_rest segs)"
  by (induction segs) (auto simp: EncodeSegment_def)

lemma length_EncodeTranscript:
  "seg \<in> set segs \<Longrightarrow> length (Segment_Text seg) \<le> length (EncodeTranscript segs)"
  by (cases segs) (auto simp: EncodeSegment_def dest!: length_encode_rest)

end
