(* ===== verification/Token_Count.thy ===== *)
theory Token_Count
  imports Go_Utf8 Complex_Main
begin

text \<open>
  Package \<open>internal/tokencount\<close>: the local token estimators (\<open>counter.go\<close>,
  \<open>heuristic.go\<close>, \<open>local.go\<close>, \<open>tiktoken.go\<close>) and the cap of a text to its last
  tokens (\<open>cap.go\<close>, \<open>exact.go\<close>).

  The o200k codec and the provider's counting endpoint are third-party code and parameters:
  \<open>codec :: bytes \<Rightarrow> nat option\<close> (\<open>None\<close> when the codec is unavailable or fails) and
  \<open>exact :: nat \<Rightarrow> bytes \<Rightarrow> int option\<close> (the answer to the n-th call, \<open>None\<close> on an
  error). Ratios and factors are exact rationals; the source computes them in
  \<open>float64\<close>, which agrees for the default ratios on every count a Go string can have.
\<close>

section \<open>Counters\<close>

datatype Family = FamilyUnknown | FamilyClaude | FamilyGPT

record Settings =
  SafetyFactor :: rat
  CharsPerToken :: rat

definition DefaultSafetyFactor :: rat where "DefaultSafetyFactor = 13 / 10"
definition DefaultCharsPerToken :: rat where "DefaultCharsPerToken = 7 / 2"

definition safetyFactor :: "Settings \<Rightarrow> rat" where
  "safetyFactor s = (if SafetyFactor s > 0 then SafetyFactor s else DefaultSafetyFactor)"

definition charsPerToken :: "Settings \<Rightarrow> rat" where
  "charsPerToken s = (if CharsPerToken s > 0 then CharsPerToken s else DefaultCharsPerToken)"

text \<open>
  \<open>strings.ToLower\<close> on the ASCII letters; no other rune lowers to a letter or digit of
  the names searched for.
\<close>

definition to_lower :: "bytes \<Rightarrow> bytes" where
  "to_lower s = map (\<lambda>c. if 65 \<le> byte c \<and> byte c \<le> 90 then char_of (byte c + 32) else c) s"

definition FamilyFromModel :: "bytes \<Rightarrow> Family" where
  "FamilyFromModel model =
     (let lower = to_lower model in
      if contains lower ''claude'' then FamilyClaude
      else if contains lower ''gpt'' \<or> contains lower ''codex'' \<or> contains lower ''o1''
        \<or> contains lower ''o3'' \<or> contains lower ''o4'' then FamilyGPT
      else FamilyUnknown)"

text \<open>The implementations of the \<open>Counter\<close> interface.\<close>

datatype Counter =
    HeuristicCounter rat
  | TiktokenCounter rat
  | ScaledCounter Counter rat

definition heuristic_estimate :: "rat \<Rightarrow> bytes \<Rightarrow> int" where
  "heuristic_estimate ratio t =
     \<lceil>of_nat (length t) / (if ratio \<le> 0 then DefaultCharsPerToken else ratio)\<rceil>"

fun Estimate :: "(bytes \<Rightarrow> nat option) \<Rightarrow> Counter \<Rightarrow> bytes \<Rightarrow> int" where
  "Estimate codec (HeuristicCounter ratio) t = heuristic_estimate ratio t"
| "Estimate codec (TiktokenCounter ratio) t =
     (case codec t of None \<Rightarrow> heuristic_estimate ratio t | Some n \<Rightarrow> int n)"
| "Estimate codec (ScaledCounter base factor) t =
     \<lceil>of_int (Estimate codec base t) * (if factor \<le> 0 then 1 else factor)\<rceil>"

definition local_counter_known :: "Family \<Rightarrow> Settings \<Rightarrow> Counter" where
  "local_counter_known family s = (case family of
     FamilyClaude \<Rightarrow> ScaledCounter (TiktokenCounter (charsPerToken s)) (safetyFactor s)
   | FamilyGPT \<Rightarrow> TiktokenCounter (charsPerToken s)
   | FamilyUnknown \<Rightarrow> HeuristicCounter (charsPerToken s))"

text \<open>
  The source recurses once, on the family inferred from the model, when that is a known
  one.
\<close>

definition LocalCounter :: "Family \<Rightarrow> bytes \<Rightarrow> Settings \<Rightarrow> Counter" where
  "LocalCounter family model s = (case family of
     FamilyUnknown \<Rightarrow> local_counter_known (FamilyFromModel model) s
   | _ \<Rightarrow> local_counter_known family s)"

section \<open>Capping\<close>

type_synonym counter_fun = "bytes \<Rightarrow> int"

abbreviation nl :: char where "nl \<equiv> CHR 0x0A"

text \<open>
  Step back from \<open>middle\<close> to a byte that starts a rune, but not below \<open>low\<close>; step
  forward from \<open>low\<close> to one, but not above \<open>high\<close>.
\<close>

fun back_to_start :: "bytes \<Rightarrow> nat \<Rightarrow> nat \<Rightarrow> nat" where
  "back_to_start line low middle =
     (if low < middle \<and> \<not> rune_start (line ! middle) then back_to_start line low (middle - 1)
      else middle)"

function forward_to_start :: "bytes \<Rightarrow> nat \<Rightarrow> nat \<Rightarrow> nat" where
  "forward_to_start line low high =
     (if low < high \<and> \<not> rune_start (line ! low) then forward_to_start line (low + 1) high
      else low)"
  by pat_completeness auto
termination
  by (relation "measure (\<lambda>(line, low, high). high - low)") auto

declare back_to_start.simps [simp del] forward_to_start.simps [simp del]

lemma back_to_start_bounds: "low \<le> m \<Longrightarrow> low \<le> back_to_start line low m \<and> back_to_start line low m \<le> m"
proof (induction line low m rule: back_to_start.induct)
  case (1 line low m)
  show ?case
  proof (cases "low < m \<and> \<not> rune_start (line ! m)")
    case True
    then have "low \<le> m - 1" by linarith
    with "1.IH" [OF True]
    have "low \<le> back_to_start line low (m - 1) \<and> back_to_start line low (m - 1) \<le> m - 1"
      by blast
    with True show ?thesis by (auto simp: back_to_start.simps [of line low m])
  next
    case False
    with 1 show ?thesis by (auto simp: back_to_start.simps [of line low m])
  qed
qed

lemma forward_to_start_bounds: "low \<le> high \<Longrightarrow> low \<le> forward_to_start line low high \<and> forward_to_start line low high \<le> high"
proof (induction line low high rule: forward_to_start.induct)
  case (1 line low high)
  show ?case
  proof (cases "low < high \<and> \<not> rune_start (line ! low)")
    case True
    with 1 have "low + 1 \<le> forward_to_start line (low + 1) high
        \<and> forward_to_start line (low + 1) high \<le> high"
      by simp
    with True show ?thesis by (auto simp: forward_to_start.simps [of line low high])
  next
    case False
    with 1 show ?thesis by (auto simp: forward_to_start.simps [of line low high])
  qed
qed

lemma middle_bounds:
  assumes "low < high"
  shows "low \<le> back_to_start line low (low + (high - low) div 2)"
    and "back_to_start line low (low + (high - low) div 2) < high"
proof -
  have "low + (high - low) div 2 < high" using assms by linarith
  then show "low \<le> back_to_start line low (low + (high - low) div 2)"
    "back_to_start line low (low + (high - low) div 2) < high"
    using back_to_start_bounds [of low "low + (high - low) div 2" line] by auto
qed

function fitting_search :: "counter_fun \<Rightarrow> bytes \<Rightarrow> int \<Rightarrow> nat \<Rightarrow> nat \<Rightarrow> nat" where
  "fitting_search est line budget low high =
     (if low < high then
        let middle = back_to_start line low (low + (high - low) div 2) in
        if est (drop middle line @ [nl]) \<le> budget
        then fitting_search est line budget low middle
        else fitting_search est line budget (forward_to_start line (middle + 1) high) high
      else high)"
  by pat_completeness auto
termination
proof (relation "measure (\<lambda>(est, line, budget, low, high). high - low)", goal_cases)
  case 1
  then show ?case by simp
next
  case (2 est line budget low high middle)
  then have "low \<le> middle" "middle < high" using middle_bounds [of low high line] by auto
  then show ?case by auto
next
  case (3 est line budget low high middle)
  then have "low \<le> middle" "middle < high" using middle_bounds [of low high line] by auto
  with 3(1) forward_to_start_bounds [of "middle + 1" high line] show ?case by auto
qed

declare fitting_search.simps [simp del]

lemma fitting_search_done [simp]: "\<not> low < high \<Longrightarrow> fitting_search est line budget low high = high"
  by (subst fitting_search.simps) simp

definition lastFittingSuffix :: "bytes \<Rightarrow> int \<Rightarrow> counter_fun \<Rightarrow> nat \<times> int" where
  "lastFittingSuffix line budget est =
     (let high = fitting_search est line budget 0 (length line);
          tokens = est (drop high line @ [nl])
      in if \<not> tokens \<le> budget \<or> high = length line then (length line, 0) else (high, tokens))"

definition last_index_byte :: "bytes \<Rightarrow> char \<Rightarrow> nat option" where
  "last_index_byte s c = map_option (\<lambda>j. length s - 1 - j) (index_of (rev s) [c])"

lemma last_index_byte_less: "last_index_byte s c = Some i \<Longrightarrow> i < length s"
  using index_of_bound [of "rev s" "[c]"] by (auto simp: last_index_byte_def)

text \<open>
  The backward scan over whole lines. \<open>LastIndexByte\<close> gives -1 when there is no newline
  before \<open>end\<close>; the line then starts at 0 and the loop ends after it.
\<close>

function cap_loop :: "bytes \<Rightarrow> int \<Rightarrow> counter_fun \<Rightarrow> nat \<Rightarrow> nat \<Rightarrow> int \<Rightarrow> nat \<times> int" where
  "cap_loop trimmed budget est end cut' keptTokens =
     (if 0 < end then
        let newline = last_index_byte (take end trimmed) nl;
            lineStart = (case newline of None \<Rightarrow> 0 | Some i \<Rightarrow> i + 1);
            line = drop lineStart (take end trimmed);
            lineTokens = est (line @ [nl])
        in if keptTokens + lineTokens > budget then
             (let (suffixStart, suffixTokens) = lastFittingSuffix line (budget - keptTokens) est
              in if lineStart + suffixStart < end
                 then (lineStart + suffixStart, keptTokens + suffixTokens)
                 else (cut', keptTokens))
           else cap_loop trimmed budget est (case newline of None \<Rightarrow> 0 | Some i \<Rightarrow> i)
                  lineStart (keptTokens + lineTokens)
      else (cut', keptTokens))"
  by pat_completeness auto
termination
  by (relation "measure (\<lambda>(trimmed, budget, est, end, cut', keptTokens). end)")
     (auto dest!: last_index_byte_less split: option.splits)

declare cap_loop.simps [simp del]

definition CapToLastTokens :: "bytes \<Rightarrow> int \<Rightarrow> counter_fun \<Rightarrow> bytes \<times> int \<times> bool" where
  "CapToLastTokens body budget est =
     (if budget \<le> 0 then (body, 0, False)
      else let total = est body in
        if total \<le> budget then (body, total, False)
        else let trimmed = trim_right_set body [nl] in
          if trimmed = [] then (body, total, False)
          else let (cut', keptTokens) =
                 cap_loop trimmed budget est (length trimmed) (length trimmed) 0
               in if length trimmed \<le> cut' then ([], 0, True)
                  else (drop cut' trimmed @ [nl], keptTokens, True))"

section \<open>What the scan finds\<close>

lemma last_index_byte_Some:
  assumes "last_index_byte s c = Some i"
  shows "i < length s" "s ! i = c"
proof -
  show i: "i < length s" using assms by (rule last_index_byte_less)
  from assms obtain j where j: "index_of (rev s) [c] = Some j" "i = length s - 1 - j"
    by (auto simp: last_index_byte_def)
  have "j < length s" using index_of_bound [OF j(1)] by simp
  moreover have "rev s ! j = c"
    using index_of_Some [OF j(1)] \<open>j < length s\<close>
    by (cases "drop j (rev s)") (auto simp: has_prefix_def nth_via_drop)
  ultimately show "s ! i = c" using j(2) by (simp add: rev_nth)
qed

text \<open>
  The state of the scan: nothing is kept yet, or the kept part starts right after the
  newline at \<open>end\<close>, or the whole text is kept.
\<close>

definition scan_state :: "bytes \<Rightarrow> nat \<Rightarrow> nat \<Rightarrow> bool" where
  "scan_state t e c \<longleftrightarrow>
     (e = length t \<and> c = length t) \<or> (e < length t \<and> t ! e = nl \<and> c = e + 1) \<or> (e = 0 \<and> c = 0)"

definition kept_after :: "bytes \<Rightarrow> nat \<Rightarrow> bytes" where
  "kept_after t c = (if c < length t then drop c t @ [nl] else [])"

text \<open>
  One line more: the text from inside the line up to the end is the tail of the line, a
  newline and what was kept before.
\<close>

lemma kept_after_line:
  assumes "scan_state t e c" "0 < e" "i \<le> e" "i < length t" "last t \<noteq> nl"
  shows "kept_after t i = drop i (take e t) @ [nl] @ kept_after t c"
proof -
  have e: "e \<le> length t" using assms(1,2) by (auto simp: scan_state_def)
  have "drop i t = drop i (take e t) @ drop e t"
    using assms(3) e by (metis append_take_drop_id drop_append length_take min.absorb2
        diff_is_0_eq' drop_0)
  moreover have "drop e t @ [nl] = [nl] @ kept_after t c"
  proof (cases "e = length t")
    case True
    then show ?thesis using assms(1,2) by (auto simp: scan_state_def kept_after_def)
  next
    case False
    then have *: "e < length t" "t ! e = nl" "c = e + 1" using assms(1,2) e by (auto simp: scan_state_def)
    have "t \<noteq> []" using assms(4) by auto
    then have "e + 1 < length t"
      using * assms(5) by (metis Suc_eq_plus1 Suc_lessI diff_Suc_1 last_conv_nth)
    with * show ?thesis by (simp add: kept_after_def Cons_nth_drop_Suc [symmetric])
  qed
  ultimately show ?thesis using assms(4) by (simp add: kept_after_def)
qed

text \<open>The shape of one iteration of the scan.\<close>

lemma cap_loop_step:
  fixes t :: bytes and e :: nat
  assumes "0 < e"
  defines "n \<equiv> last_index_byte (take e t) nl"
  defines "ls \<equiv> (case n of None \<Rightarrow> 0 | Some i \<Rightarrow> i + 1)"
  defines "line \<equiv> drop ls (take e t)"
  shows "cap_loop t budget est e c k =
    (if k + est (line @ [nl]) > budget then
       (if ls + fst (lastFittingSuffix line (budget - k) est) < e
        then (ls + fst (lastFittingSuffix line (budget - k) est),
              k + snd (lastFittingSuffix line (budget - k) est))
        else (c, k))
     else cap_loop t budget est (case n of None \<Rightarrow> 0 | Some i \<Rightarrow> i) ls (k + est (line @ [nl])))"
  using assms(1) unfolding line_def ls_def n_def
  by (subst cap_loop.simps) (simp add: Let_def split_beta)

lemma line_start_state:
  fixes t :: bytes and e :: nat
  assumes "0 < e" "e \<le> length t"
  defines "n \<equiv> last_index_byte (take e t) nl"
  shows "scan_state t (case n of None \<Rightarrow> 0 | Some i \<Rightarrow> i) (case n of None \<Rightarrow> 0 | Some i \<Rightarrow> i + 1)"
    and "(case n of None \<Rightarrow> 0 | Some i \<Rightarrow> i) < e" and "(case n of None \<Rightarrow> 0 | Some i \<Rightarrow> i + 1) \<le> e"
  using last_index_byte_Some [of "take e t" nl] assms
  by (auto simp: scan_state_def n_def split: option.splits)

lemma fitting_search_le: "low \<le> high \<Longrightarrow> fitting_search est line budget low high \<le> high"
proof (induction est line budget low high rule: fitting_search.induct)
  case (1 est line budget low high)
  show ?case
  proof (cases "low < high")
    case False
    then show ?thesis by simp
  next
    case True
    define m where "m = back_to_start line low (low + (high - low) div 2)"
    have m: "low \<le> m" "m < high" using middle_bounds [OF True] by (simp_all add: m_def)
    have f: "forward_to_start line (m + 1) high \<le> high"
      using forward_to_start_bounds [of "m + 1" high line] m by simp
    have eq: "fitting_search est line budget low high =
        (if est (drop m line @ [nl]) \<le> budget then fitting_search est line budget low m
         else fitting_search est line budget (forward_to_start line (m + 1) high) high)"
      using True by (simp add: fitting_search.simps [of est line budget low high] Let_def m_def)
    show ?thesis
      using "1.IH"(1) [OF True m_def] "1.IH"(2) [OF True m_def] m f
      by (auto simp: eq intro: order.trans)
  qed
qed

lemma lastFittingSuffix_cases:
  obtains "lastFittingSuffix line budget est = (length line, 0)"
  | i where "lastFittingSuffix line budget est = (i, est (drop i line @ [nl]))"
      "i < length line" "est (drop i line @ [nl]) \<le> budget"
      "i = fitting_search est line budget 0 (length line)"
proof (cases "est (drop (fitting_search est line budget 0 (length line)) line @ [nl]) \<le> budget
    \<and> fitting_search est line budget 0 (length line) \<noteq> length line")
  case True
  then show ?thesis
    using fitting_search_le [of 0 "length line" est line budget]
    by (intro that(2)) (auto simp: lastFittingSuffix_def Let_def)
next
  case False
  then show ?thesis by (intro that(1)) (auto simp: lastFittingSuffix_def Let_def)
qed

section \<open>The Counter interface\<close>

text \<open>
  What the cap relies on: an estimate is never negative, and the estimate of a text is at
  most the sum of the estimates of its parts (\<open>cap.go\<close>, lines 18 to 20).
\<close>

locale token_counter =
  fixes est :: "bytes \<Rightarrow> int"
  assumes est_nonneg: "0 \<le> est s"
    and est_append: "est (s @ t) \<le> est s + est t"
begin

lemma cap_loop_within_budget:
  assumes "scan_state t e c" "c < length t \<longrightarrow> est (kept_after t c) \<le> k" "0 \<le> k" "k \<le> budget"
    "t \<noteq> []" "last t \<noteq> nl" "cap_loop t budget est e c k = (c', k')"
  shows "k' \<le> budget \<and> (c' < length t \<longrightarrow> est (kept_after t c') \<le> k')"
  using assms
proof (induction e arbitrary: c k rule: less_induct)
  case (less e)
  show ?case
  proof (cases "0 < e")
    case False
    with less.prems show ?thesis by (simp add: cap_loop.simps)
  next
    case True
    define n where "n = last_index_byte (take e t) nl"
    define ls where "ls = (case n of None \<Rightarrow> 0 | Some i \<Rightarrow> i + 1)"
    define e' where "e' = (case n of None \<Rightarrow> 0 | Some i \<Rightarrow> i)"
    define line where "line = drop ls (take e t)"
    have el: "e \<le> length t" using less.prems(1) True by (auto simp: scan_state_def)
    note st = line_start_state [OF True el, folded n_def, folded ls_def e'_def]
    have kc: "est (kept_after t c) \<le> k \<or> kept_after t c = []"
      using less.prems(2) by (auto simp: kept_after_def)
    have part: "est (kept_after t (ls + i)) \<le> k + est (drop i line @ [nl])" if "ls + i \<le> e" "ls + i < length t" for i
    proof -
      have "kept_after t (ls + i) = (drop i line @ [nl]) @ kept_after t c"
        using kept_after_line [OF less.prems(1) True that less.prems(6)]
        by (simp add: line_def add.commute)
      then show ?thesis
        using est_append [of "drop i line @ [nl]" "kept_after t c"] kc less.prems(3) by auto
    qed
    note step = cap_loop_step [OF True, of t budget est c k, folded n_def, folded ls_def e'_def, folded line_def]
    show ?thesis
    proof (cases "k + est (line @ [nl]) > budget")
      case over: True
      show ?thesis
      proof (rule lastFittingSuffix_cases [of line "budget - k" est])
        assume "lastFittingSuffix line (budget - k) est = (length line, 0)"
        with less.prems(2,4,7) over step el st(3) show ?thesis by (simp add: line_def)
      next
        fix i
        assume i: "lastFittingSuffix line (budget - k) est = (i, est (drop i line @ [nl]))"
          "est (drop i line @ [nl]) \<le> budget - k"
        with less.prems(2,4,7) over step el part [of i] show ?thesis by (auto split: if_splits)
      qed
    next
      case False
      have "ls < length t \<longrightarrow> est (kept_after t ls) \<le> k + est (line @ [nl])"
        using part [of 0] st(3) by simp
      with less.IH [OF st(2) st(1), of "k + est (line @ [nl])"] less.prems False step
      show ?thesis using est_nonneg [of "line @ [nl]"] by auto
    qed
  qed
qed

end

section \<open>The capped text\<close>

lemma trim_right_nl_last: "trim_right_set s [nl] \<noteq> [] \<Longrightarrow> last (trim_right_set s [nl]) \<noteq> nl"
  using hd_dropWhile [of "\<lambda>c. c \<in> set [nl]" "rev s"] by (simp add: trim_right_set_def last_rev)

lemma trim_right_nl_append: "\<exists>k. s = trim_right_set s [nl] @ replicate k nl"
proof -
  have "rev (takeWhile (\<lambda>c. c \<in> set [nl]) (rev s)) = replicate (length (takeWhile (\<lambda>c. c \<in> set [nl]) (rev s))) nl"
    by (rule replicate_eqI) (auto dest: set_takeWhileD)
  moreover have "s = rev (dropWhile (\<lambda>c. c \<in> set [nl]) (rev s)) @ rev (takeWhile (\<lambda>c. c \<in> set [nl]) (rev s))"
    by (metis rev_append rev_rev_ident takeWhile_dropWhile_id)
  ultimately show ?thesis unfolding trim_right_set_def by metis
qed

lemma CapToLastTokens_cases:
  assumes "CapToLastTokens body budget est = (out, tokens, truncated)"
  obtains (whole) "out = body" "\<not> truncated"
      "budget \<le> 0 \<or> est body \<le> budget \<or> trim_right_set body [nl] = []"
  | (cut) c k where "truncated" "0 < budget" "budget < est body" "trim_right_set body [nl] \<noteq> []"
      "cap_loop (trim_right_set body [nl]) budget est (length (trim_right_set body [nl]))
         (length (trim_right_set body [nl])) 0 = (c, k)"
      "out = kept_after (trim_right_set body [nl]) c"
      "tokens = (if c < length (trim_right_set body [nl]) then k else 0)"
proof (cases "budget \<le> 0 \<or> est body \<le> budget \<or> trim_right_set body [nl] = []")
  case True
  with assms show ?thesis by (intro whole) (auto simp: CapToLastTokens_def Let_def split: if_splits)
next
  case False
  obtain c k where "cap_loop (trim_right_set body [nl]) budget est (length (trim_right_set body [nl]))
      (length (trim_right_set body [nl])) 0 = (c, k)" by fastforce
  with assms False show ?thesis
    by (intro cut [of c k]) (auto simp: CapToLastTokens_def Let_def kept_after_def split: if_splits)
qed

context token_counter
begin

lemma CapToLastTokens_fits:
  assumes "CapToLastTokens body budget est = (out, tokens, True)"
  shows "tokens \<le> budget \<and> (out \<noteq> [] \<longrightarrow> est out \<le> tokens)"
  using assms
proof (cases rule: CapToLastTokens_cases)
  case (cut c k)
  let ?t = "trim_right_set body [nl]"
  have "k \<le> budget \<and> (c < length ?t \<longrightarrow> est (kept_after ?t c) \<le> k)"
    by (rule cap_loop_within_budget [of ?t "length ?t" "length ?t" 0])
       (use cut trim_right_nl_last [of body] in \<open>auto simp: scan_state_def\<close>)
  with cut show ?thesis by (auto simp: kept_after_def split: if_splits)
qed simp

end

subsection \<open>The estimators of the source satisfy the interface\<close>

lemma heuristic_ratio_pos: "0 < (if r \<le> 0 then DefaultCharsPerToken else r)"
  by (auto simp: DefaultCharsPerToken_def)

interpretation heuristic: token_counter "heuristic_estimate r" for r
proof
  fix s t :: bytes
  let ?q = "if r \<le> 0 then DefaultCharsPerToken else r"
  have q: "0 < ?q" by (rule heuristic_ratio_pos)
  have "0 \<le> of_nat (length s) / ?q" using q by (intro divide_nonneg_pos) simp_all
  then have "-1 < of_nat (length s) / ?q" by linarith
  then show "0 \<le> heuristic_estimate r s"
    unfolding heuristic_estimate_def zero_le_ceiling .
  have "\<lceil>of_nat (length s) / ?q + of_nat (length t) / ?q\<rceil>
      \<le> \<lceil>of_nat (length s) / ?q\<rceil> + \<lceil>of_nat (length t) / ?q\<rceil>"
    by (rule ceiling_add_le)
  then show "heuristic_estimate r (s @ t) \<le> heuristic_estimate r s + heuristic_estimate r t"
    by (simp add: heuristic_estimate_def add_divide_distrib)
qed

lemma scaled_token_counter:
  assumes "token_counter est"
  shows "token_counter (\<lambda>t. \<lceil>of_int (est t) * (if f \<le> 0 then 1 else f :: rat)\<rceil>)"
proof
  fix s t :: bytes
  let ?g = "if f \<le> 0 then 1 else f"
  have g: "0 < ?g" by auto
  have n: "0 \<le> est s" for s using assms by (rule token_counter.est_nonneg)
  have "(-1 :: rat) < of_int (est s) * ?g"
    using mult_nonneg_nonneg [of "of_int (est s)" ?g] n [of s] g by linarith
  then show "0 \<le> \<lceil>of_int (est s) * ?g\<rceil>" by (simp add: zero_le_ceiling)
  have "of_int (est (s @ t)) \<le> (of_int (est s) + of_int (est t) :: rat)"
    using token_counter.est_append [OF assms, of s t] by (simp flip: of_int_add)
  then have "of_int (est (s @ t)) * ?g \<le> of_int (est s) * ?g + of_int (est t) * ?g"
    using g mult_right_mono [of _ _ ?g] by (fastforce simp flip: distrib_right)
  then show "\<lceil>of_int (est (s @ t)) * ?g\<rceil> \<le> \<lceil>of_int (est s) * ?g\<rceil> + \<lceil>of_int (est t) * ?g\<rceil>"
    using ceiling_mono ceiling_add_le order.trans by meson
qed

text \<open>
  What the source relies on in the third-party codec: it is unavailable, or it counts every
  text and splitting a text never lowers the count.
\<close>

definition codec_law :: "(bytes \<Rightarrow> nat option) \<Rightarrow> bool" where
  "codec_law codec \<longleftrightarrow> (\<forall>t. codec t = None) \<or>
     (\<exists>count. (\<forall>t. codec t = Some (count t)) \<and> (\<forall>s t. count (s @ t) \<le> count s + count t))"

lemma Estimate_token_counter:
  assumes "codec_law codec"
  shows "token_counter (Estimate codec c)"
proof (induction c)
  case (HeuristicCounter r)
  have "Estimate codec (HeuristicCounter r) = heuristic_estimate r" by (rule ext) simp
  then show ?case using heuristic.token_counter_axioms by simp
next
  case (TiktokenCounter r)
  show ?case
  proof (cases "\<forall>t. codec t = None")
    case True
    then have "Estimate codec (TiktokenCounter r) = heuristic_estimate r" by (intro ext) simp
    then show ?thesis using heuristic.token_counter_axioms by simp
  next
    case False
    then obtain count where c: "\<And>t. codec t = Some (count t)"
      "\<And>s t. count (s @ t) \<le> count s + count t"
      using assms unfolding codec_law_def by blast
    show ?thesis
      by unfold_locales (simp_all add: c(1), metis c(2) of_nat_add of_nat_mono)
  qed
next
  case (ScaledCounter base f)
  have "Estimate codec (ScaledCounter base f)
      = (\<lambda>t. \<lceil>of_int (Estimate codec base t) * (if f \<le> 0 then 1 else f)\<rceil>)" by (rule ext) simp
  with scaled_token_counter [OF ScaledCounter] show ?case by simp
qed



section \<open>The cut falls on a rune boundary\<close>

definition at_boundary :: "bytes \<Rightarrow> nat \<Rightarrow> bool" where
  "at_boundary s i \<longleftrightarrow> i = length s \<or> (i < length s \<and> rune_start (s ! i))"

lemma valid_utf8_boundary: "valid_utf8 s \<Longrightarrow> at_boundary s i \<Longrightarrow> valid_utf8 (drop i s)"
  by (auto simp: at_boundary_def intro: valid_utf8_drop)

lemma valid_utf8_starts: "valid_utf8 s \<Longrightarrow> at_boundary s 0"
  by (cases s) (auto simp: at_boundary_def rune_start_def cont_byte_def valid_utf8.simps)

lemma back_to_start_boundary:
  "low \<le> m \<Longrightarrow> rune_start (line ! low) \<Longrightarrow> rune_start (line ! back_to_start line low m)"
proof (induction line low m rule: back_to_start.induct)
  case (1 line low m)
  show ?case
  proof (cases "low < m \<and> \<not> rune_start (line ! m)")
    case True
    then have "low \<le> m - 1" by linarith
    with "1.IH" [OF True] "1.prems"(2) True show ?thesis
      by (simp add: back_to_start.simps [of line low m])
  next
    case False
    then have "low = m \<or> rune_start (line ! m)" using "1.prems"(1) by auto
    moreover have "back_to_start line low m = m"
      using False by (subst back_to_start.simps) auto
    ultimately show ?thesis using "1.prems"(2) by auto
  qed
qed

lemma forward_to_start_boundary:
  "forward_to_start line low high < high \<Longrightarrow> rune_start (line ! forward_to_start line low high)"
proof (induction line low high rule: forward_to_start.induct)
  case (1 line low high)
  show ?case
  proof (cases "low < high \<and> \<not> rune_start (line ! low)")
    case True
    with 1 show ?thesis by (simp add: forward_to_start.simps [of line low high])
  next
    case False
    then have "forward_to_start line low high = low" by (subst forward_to_start.simps) auto
    with False "1.prems" show ?thesis by auto
  qed
qed

lemma forward_to_start_skips:
  "low \<le> i \<Longrightarrow> i < forward_to_start line low high \<Longrightarrow> \<not> rune_start (line ! i)"
proof (induction line low high rule: forward_to_start.induct)
  case (1 line low high)
  show ?case
  proof (cases "low < high \<and> \<not> rune_start (line ! low)")
    case True
    have eq: "forward_to_start line low high = forward_to_start line (low + 1) high"
      using True by (simp add: forward_to_start.simps [of line low high])
    show ?thesis
    proof (cases "i = low")
      case True
      with \<open>low < high \<and> \<not> rune_start (line ! low)\<close> show ?thesis by simp
    next
      case False
      then have "low + 1 \<le> i" using "1.prems"(1) by simp
      then show ?thesis using "1.IH" [OF True] "1.prems"(2) eq by simp
    qed
  next
    case False
    then have "forward_to_start line low high = low" by (subst forward_to_start.simps) auto
    with "1.prems" show ?thesis by simp
  qed
qed

lemma fitting_search_step:
  fixes line :: bytes
  assumes "low < high"
  defines "m \<equiv> back_to_start line low (low + (high - low) div 2)"
  shows "fitting_search est line budget low high =
    (if est (drop m line @ [nl]) \<le> budget then fitting_search est line budget low m
     else fitting_search est line budget (forward_to_start line (m + 1) high) high)"
  using assms(1) by (simp add: fitting_search.simps [of est line budget low high] Let_def m_def)

lemma fitting_search_boundary:
  "low < high \<longrightarrow> rune_start (line ! low) \<Longrightarrow> at_boundary line high \<Longrightarrow> low \<le> high \<Longrightarrow>
   at_boundary line (fitting_search est line budget low high)"
proof (induction est line budget low high rule: fitting_search.induct)
  case (1 est line budget low high)
  show ?case
  proof (cases "low < high")
    case False
    with "1.prems" show ?thesis by simp
  next
    case True
    define m where "m = back_to_start line low (low + (high - low) div 2)"
    have m: "low \<le> m" "m < high" using middle_bounds [OF True] by (simp_all add: m_def)
    have r: "rune_start (line ! m)"
      unfolding m_def using back_to_start_boundary "1.prems"(1) True by simp
    have b: "at_boundary line m" using r m "1.prems"(2) by (auto simp: at_boundary_def)
    have f: "forward_to_start line (m + 1) high \<le> high"
      using forward_to_start_bounds [of "m + 1" high line] m by simp
    show ?thesis
      using "1.IH"(1) [OF True m_def] "1.IH"(2) [OF True m_def] b f m "1.prems"
        forward_to_start_boundary [of line "m + 1" high]
      by (simp add: fitting_search_step [OF True, where line = line, folded m_def])
  qed
qed

lemma lastFittingSuffix_boundary:
  assumes "valid_utf8 line"
  shows "at_boundary line (fst (lastFittingSuffix line budget est))"
proof (rule lastFittingSuffix_cases [of line budget est])
  fix i assume "lastFittingSuffix line budget est = (i, est (drop i line @ [nl]))"
    "i = fitting_search est line budget 0 (length line)"
  moreover have "at_boundary line (fitting_search est line budget 0 (length line))"
    using valid_utf8_starts [OF assms]
    by (intro fitting_search_boundary) (auto simp: at_boundary_def)
  ultimately show ?thesis by simp
qed (simp add: at_boundary_def)

lemma rune_start_nl [simp]: "rune_start nl"
  by (simp add: rune_start_def cont_byte_def byte_def)

lemma valid_utf8_nl: "valid_utf8 (s @ nl # t) \<longleftrightarrow> valid_utf8 s \<and> valid_utf8 t"
proof -
  have "valid_utf8 ([nl] @ t) = valid_utf8 t"
    by (rule valid_utf8_append) (simp add: valid_utf8.simps byte_def)
  then show ?thesis using valid_utf8_prefix [of s nl t] valid_utf8_append [of s] by auto
qed

lemma valid_utf8_around_nl:
  assumes "valid_utf8 t" "e < length t" "t ! e = nl"
  shows "valid_utf8 (take e t)" "valid_utf8 (drop (e + 1) t)"
proof -
  have "t = take e t @ nl # drop (e + 1) t"
    using id_take_nth_drop [OF assms(2)] assms(3) by simp
  then show "valid_utf8 (take e t)" "valid_utf8 (drop (e + 1) t)"
    using assms(1) valid_utf8_nl by metis+
qed

lemma cap_loop_boundary:
  assumes "valid_utf8 t" "scan_state t e c"
  shows "valid_utf8 (drop (fst (cap_loop t budget est e c k)) t)"
  using assms(2)
proof (induction e arbitrary: c k rule: less_induct)
  case (less e)
  have c: "valid_utf8 (drop c t)"
  proof (cases "e < length t \<and> t ! e = nl \<and> c = e + 1")
    case True
    then show ?thesis using valid_utf8_around_nl(2) [OF assms(1)] by blast
  qed (use less.prems assms(1) in \<open>auto simp: scan_state_def\<close>)
  show ?case
  proof (cases "0 < e")
    case False
    with c show ?thesis by (simp add: cap_loop.simps)
  next
    case True
    define n where "n = last_index_byte (take e t) nl"
    define ls where "ls = (case n of None \<Rightarrow> 0 | Some i \<Rightarrow> i + 1)"
    define e' where "e' = (case n of None \<Rightarrow> 0 | Some i \<Rightarrow> i)"
    define line where "line = drop ls (take e t)"
    have el: "e \<le> length t" using less.prems True by (auto simp: scan_state_def)
    note st = line_start_state [OF True el, folded n_def, folded ls_def e'_def]
    have v: "valid_utf8 (take e t)"
    proof (cases "e = length t")
      case False
      then have "e < length t" "t ! e = nl" using less.prems True by (auto simp: scan_state_def)
      then show ?thesis by (rule valid_utf8_around_nl(1) [OF assms(1)])
    qed (use assms(1) in simp)
    have l: "valid_utf8 line"
    proof (cases n)
      case (Some i)
      then have "i < length (take e t)" "take e t ! i = nl"
        using last_index_byte_Some [of "take e t" nl i] by (auto simp: n_def)
      then show ?thesis using valid_utf8_around_nl(2) [OF v] Some by (simp add: line_def ls_def)
    qed (use v in \<open>simp add: line_def ls_def\<close>)
    have s: "valid_utf8 (drop (ls + i) t)" if "at_boundary line i" "ls + i < e" for i
    proof -
      have "rune_start (line ! i)" using that el by (auto simp: at_boundary_def line_def)
      then have "rune_start (t ! (ls + i))" using that el by (simp add: line_def)
      then show ?thesis using assms(1) that el by (intro valid_utf8_drop) auto
    qed
    show ?thesis
      using s [OF lastFittingSuffix_boundary [OF l, of "budget - k" est]] c less.IH [OF st(2) st(1)]
      by (simp add: cap_loop_step [OF True, of t budget est c k, folded n_def, folded ls_def e'_def,
            folded line_def])
  qed
qed

text \<open>
  C26. Whatever the estimator, \<open>CapToLastTokens\<close> returns the text unchanged or a suffix of
  it: the truncated result is empty or ends the text without its trailing newlines, plus one
  newline; and it is well-formed UTF-8 whenever the text is (a rune is never split).
\<close>

theorem CapToLastTokens_valid_suffix:
  assumes "valid_utf8 body" and "CapToLastTokens body budget est = (out, tokens, truncated)"
  shows "valid_utf8 out \<and>
    (if truncated then out = [] \<or> (\<exists>w. suffix w (trim_right_set body [nl]) \<and> out = w @ [nl])
     else out = body)"
  using assms(2)
proof (cases rule: CapToLastTokens_cases)
  case whole
  with assms(1) show ?thesis by simp
next
  case (cut c k)
  let ?t = "trim_right_set body [nl]"
  obtain n where n: "body = ?t @ replicate n nl" using trim_right_nl_append by blast
  then have "valid_utf8 ?t"
    using assms(1) valid_utf8_prefix [of ?t nl] by (cases n) (auto, metis)
  then have "valid_utf8 (drop c ?t)"
    using cap_loop_boundary [of ?t "length ?t" "length ?t" budget est 0] cut by (simp add: scan_state_def)
  then have "valid_utf8 (drop c ?t @ [nl])" using valid_utf8_nl [of "drop c ?t" "[]"] by simp
  with cut show ?thesis by (auto simp: kept_after_def suffix_drop)
qed

theorem CapToLastTokens_valid_suffix_witness:
  "valid_utf8 [CHR ''c'', CHR ''d'', CHR ''e'', nl]"
proof -
  have v: "valid_utf8 [CHR ''a'', CHR ''b'', nl, CHR ''c'', CHR ''d'', CHR ''e'']"
    by (rule valid_utf8_ascii) (simp add: byte_def)
  have eval: "CapToLastTokens [CHR ''a'', CHR ''b'', nl, CHR ''c'', CHR ''d'', CHR ''e''] 1
      (Estimate (\<lambda>_. None) (LocalCounter FamilyUnknown [] \<lparr>SafetyFactor = 0, CharsPerToken = 4\<rparr>))
      = ([CHR ''c'', CHR ''d'', CHR ''e'', nl], 1, True)"
    by code_simp
  show ?thesis using CapToLastTokens_valid_suffix [OF v eval] by simp
qed

section \<open>The binary search finds the longest fitting tail\<close>

text \<open>
  The search in \<open>lastFittingSuffix\<close> is right for estimators that do not shrink when text
  is put in front.
\<close>

locale mono_token_counter = token_counter +
  assumes est_mono: "est t \<le> est (s @ t)"
begin

lemma est_drop_mono: "i \<le> j \<Longrightarrow> est (drop j line @ [nl]) \<le> est (drop i line @ [nl])"
  using est_mono [of "drop j line @ [nl]" "take (j - i) (drop i line)"]
  by (metis append_assoc append_take_drop_id drop_drop le_add_diff_inverse2)

lemma fitting_search_least:
  assumes "low < high \<longrightarrow> rune_start (line ! low)" "low \<le> high" "high \<le> length line"
    "\<forall>j < low. rune_start (line ! j) \<longrightarrow> budget < est (drop j line @ [nl])"
    "high = length line \<or> est (drop high line @ [nl]) \<le> budget"
  defines "r \<equiv> fitting_search est line budget low high"
  shows "(\<forall>j < r. rune_start (line ! j) \<longrightarrow> budget < est (drop j line @ [nl]))
    \<and> (r = length line \<or> est (drop r line @ [nl]) \<le> budget)"
  using assms(1-5) unfolding r_def
proof (induction "high - low" arbitrary: low high rule: less_induct)
  case less
  show ?case
  proof (cases "low < high")
    case False
    with less.prems show ?thesis by simp
  next
    case True
    define m where "m = back_to_start line low (low + (high - low) div 2)"
    have m: "low \<le> m" "m < high" using middle_bounds [OF True] by (simp_all add: m_def)
    note step = fitting_search_step [OF True, where line = line, folded m_def]
    show ?thesis
    proof (cases "est (drop m line @ [nl]) \<le> budget")
      case fits: True
      with less.hyps [of m low] m less.prems show ?thesis
        by (simp add: step)
    next
      case False
      let ?low = "forward_to_start line (m + 1) high"
      have f: "m + 1 \<le> ?low" "?low \<le> high"
        using forward_to_start_bounds [of "m + 1" high line] m by simp_all
      have "\<forall>j < ?low. rune_start (line ! j) \<longrightarrow> budget < est (drop j line @ [nl])"
      proof (intro allI impI)
        fix j assume j: "j < ?low" "rune_start (line ! j)"
        then have "j \<le> m" using forward_to_start_skips [of "m + 1" j line high] by force
        then show "budget < est (drop j line @ [nl])"
          using est_drop_mono [of j m line] False by simp
      qed
      with less.hyps [of high ?low] f m less.prems False forward_to_start_boundary [of line "m + 1" high]
      show ?thesis by (simp add: step)
    qed
  qed
qed

lemma lastFittingSuffix_longest:
  assumes "valid_utf8 line" "lastFittingSuffix line budget est = (i, n)"
  shows "(\<forall>j < i. rune_start (line ! j) \<longrightarrow> budget < est (drop j line @ [nl])) \<and>
    (i = length line \<or> i < length line \<and> rune_start (line ! i) \<and>
       n = est (drop i line @ [nl]) \<and> n \<le> budget)"
proof -
  define r where "r = fitting_search est line budget 0 (length line)"
  have least: "\<forall>j < r. rune_start (line ! j) \<longrightarrow> budget < est (drop j line @ [nl])"
    "r = length line \<or> est (drop r line @ [nl]) \<le> budget"
    unfolding r_def
    using fitting_search_least [of 0 "length line" line budget] valid_utf8_starts [OF assms(1)]
    by (auto simp: at_boundary_def)
  have "at_boundary line i"
    using lastFittingSuffix_boundary [OF assms(1), of budget est] assms(2) by simp
  moreover have "i = r \<and> (r = length line \<or> n = est (drop r line @ [nl]))"
    using assms(2) least(2) by (auto simp: lastFittingSuffix_def Let_def r_def split: if_splits)
  ultimately show ?thesis using least by (auto simp: at_boundary_def)
qed

end

interpretation heuristic_mono: mono_token_counter "heuristic_estimate r" for r
proof
  fix s t :: bytes
  have "of_nat (length t) / q \<le> of_nat (length (s @ t)) / q" if "0 < q" for q :: rat
    using that by (simp add: divide_right_mono)
  then show "heuristic_estimate r t \<le> heuristic_estimate r (s @ t)"
    unfolding heuristic_estimate_def using heuristic_ratio_pos by (intro ceiling_mono) blast
qed



section \<open>Refinement with an exact count\<close>

definition maxRefineCalls :: nat where "maxRefineCalls = 3"

text \<open>Go's integer conversion of a quotient truncates towards zero.\<close>

definition trunc_quot :: "int \<Rightarrow> int \<Rightarrow> int" where
  "trunc_quot a b = sgn a * sgn b * (\<bar>a\<bar> div \<bar>b\<bar>)"

fun refine_loop :: "nat \<Rightarrow> (nat \<Rightarrow> bytes \<Rightarrow> int option) \<Rightarrow> int \<Rightarrow> counter_fun \<Rightarrow> bytes \<Rightarrow> bool \<Rightarrow> bytes \<times> bool" where
  "refine_loop 0 exact budget est current truncated = (current, truncated)"
| "refine_loop (Suc calls) exact budget est current truncated =
     (case exact (maxRefineCalls - Suc calls) current of
        None \<Rightarrow> (current, truncated)
      | Some count \<Rightarrow>
          if count \<le> budget \<or> count \<le> 0 then (current, truncated)
          else let localCount = est current;
                   scaled = trunc_quot (localCount * budget) count;
                   target = (if scaled \<ge> localCount then localCount - 1 else scaled)
               in if target \<le> 0 then ([], True)
                  else let next = fst (CapToLastTokens current target est)
                       in if next = [] then ([], True)
                          else refine_loop calls exact budget est next True)"

definition CapToLastTokensExact ::
    "bytes \<Rightarrow> int \<Rightarrow> counter_fun \<Rightarrow> (nat \<Rightarrow> bytes \<Rightarrow> int option) option \<Rightarrow> bytes \<times> bool" where
  "CapToLastTokensExact body budget est exact =
     (let (capped, tokens, truncated) = CapToLastTokens body budget est in
      case exact of
        None \<Rightarrow> (capped, truncated)
      | Some count \<Rightarrow>
          if capped = [] \<or> budget \<le> 0 then (capped, truncated)
          else refine_loop maxRefineCalls count budget est capped truncated)"

context token_counter
begin

lemma CapToLastTokens_no_more:
  assumes "est current \<le> budget" "0 < target" "target \<le> est current"
  shows "fst (CapToLastTokens current target est) = [] \<or>
    est (fst (CapToLastTokens current target est)) \<le> budget"
proof -
  obtain out n tr where o: "CapToLastTokens current target est = (out, n, tr)"
    using prod_cases3 by blast
  then show ?thesis
  proof (cases rule: CapToLastTokens_cases)
    case whole
    with o assms show ?thesis by simp
  next
    case (cut c k)
    then have "n \<le> target \<and> (out \<noteq> [] \<longrightarrow> est out \<le> n)"
      using CapToLastTokens_fits [of current target out n] o by simp
    with o assms show ?thesis by auto
  qed
qed

lemma refine_loop_budget:
  "est current \<le> budget \<Longrightarrow> 0 < budget \<Longrightarrow>
   fst (refine_loop calls exact budget est current truncated) = [] \<or>
   est (fst (refine_loop calls exact budget est current truncated)) \<le> budget"
proof (induction calls arbitrary: current truncated)
  case 0
  then show ?case by simp
next
  case (Suc calls)
  show ?case
  proof (cases "exact (maxRefineCalls - Suc calls) current")
    case None
    with Suc.prems show ?thesis by simp
  next
    case (Some count)
    define target where "target = (if trunc_quot (est current * budget) count \<ge> est current
        then est current - 1 else trunc_quot (est current * budget) count)"
    have "target \<le> est current" by (simp add: target_def)
    with CapToLastTokens_no_more [OF Suc.prems(1), of target]
      Suc.IH [of "fst (CapToLastTokens current target est)" True] Suc.prems Some
    show ?thesis by (auto simp: Let_def simp flip: target_def)
  qed
qed

end

text \<open>
  Refining with the provider's own counter never makes the local estimate exceed the
  budget: for a text with some content, the returned text is empty or its local estimate is
  at most the budget, whatever the exact counter answers (an error included).
\<close>

lemma CapToLastTokensExact_local_budget:
  assumes "codec_law codec" and "0 < budget" and "trim_right_set body [nl] \<noteq> []"
  shows "fst (CapToLastTokensExact body budget (Estimate codec (LocalCounter family model s)) exact) = []
    \<or> Estimate codec (LocalCounter family model s)
        (fst (CapToLastTokensExact body budget (Estimate codec (LocalCounter family model s)) exact)) \<le> budget"
proof -
  let ?est = "Estimate codec (LocalCounter family model s)"
  have c: "token_counter ?est" by (rule Estimate_token_counter [OF assms(1)])
  obtain out n tr where o: "CapToLastTokens body budget ?est = (out, n, tr)"
    using prod_cases3 by blast
  then have "out = [] \<or> ?est out \<le> budget"
  proof (cases rule: CapToLastTokens_cases)
    case whole
    with assms(2,3) show ?thesis by auto
  next
    case (cut c k)
    then have "n \<le> budget \<and> (out \<noteq> [] \<longrightarrow> ?est out \<le> n)"
      using token_counter.CapToLastTokens_fits [OF c, of body budget out n] o by simp
    then show ?thesis by auto
  qed
  then show ?thesis
    using o token_counter.refine_loop_budget [OF c, of out budget] assms(2)
    by (auto simp: CapToLastTokensExact_def Let_def split: option.splits)
qed

lemma CapToLastTokensExact_local_budget_witness:
  "Estimate (\<lambda>_. None) (LocalCounter FamilyUnknown [] \<lparr>SafetyFactor = 0, CharsPerToken = 4\<rparr>)
     (fst (CapToLastTokensExact ''alpha beta gamma delta'' 3
       (Estimate (\<lambda>_. None) (LocalCounter FamilyUnknown [] \<lparr>SafetyFactor = 0, CharsPerToken = 4\<rparr>))
       (Some (\<lambda>_ t. Some (int (length t) div 3))))) \<le> 3"
proof -
  have law: "codec_law (\<lambda>_. None)" by (simp add: codec_law_def)
  have eval: "fst (CapToLastTokensExact ''alpha beta gamma delta'' 3
       (Estimate (\<lambda>_. None) (LocalCounter FamilyUnknown [] \<lparr>SafetyFactor = 0, CharsPerToken = 4\<rparr>))
       (Some (\<lambda>_ t. Some (int (length t) div 3)))) = ''a delta'' @ [nl]"
    by code_simp
  have trim: "trim_right_set ''alpha beta gamma delta'' [nl] \<noteq> []" by code_simp
  show ?thesis
    using CapToLastTokensExact_local_budget [OF law _ trim, of 3 FamilyUnknown "[]"
        "\<lparr>SafetyFactor = 0, CharsPerToken = 4\<rparr>" "Some (\<lambda>_ t. Some (int (length t) div 3))"] eval
    by simp
qed

end
