(* ===== verification/Content_Kind.thy ===== *)
theory Content_Kind
  imports Go_Utf8
begin

text \<open>
  The content kinds of package \<open>internal/conversation\<close> (\<open>contentkind.go\<close>) and the
  load-rules tag that records a kind selection in a stored row (\<open>loadrules.go\<close>). A set of
  kinds is the Go map from kinds to \<open>true\<close>, so a HOL set; the two errors of
  \<open>ResolveContentKinds\<close> are the values of \<open>kind_error\<close>.

  The lemmas show that a resolved selection is never empty and holds at most one tool kind,
  the most detailed one that was asked for, and that reading a written tag gives back the
  load gate of the kinds it was written for.
\<close>

section \<open>Kinds and selectors\<close>

datatype ContentKind =
    ContentKindChat | ContentKindThinking | ContentKindToolSummaries | ContentKindToolCalls
  | ContentKindToolOutputs | ContentKindSystemPrompts | ContentKindSystemMessages
  | ContentKindInjected | ContentKindRawJSONMetadata

fun kind_name :: "ContentKind \<Rightarrow> bytes" where
  "kind_name ContentKindChat = ''chat''"
| "kind_name ContentKindThinking = ''thinking''"
| "kind_name ContentKindToolSummaries = ''tools''"
| "kind_name ContentKindToolCalls = ''tool_calls''"
| "kind_name ContentKindToolOutputs = ''tool_outputs''"
| "kind_name ContentKindSystemPrompts = ''system_prompts''"
| "kind_name ContentKindSystemMessages = ''system_messages''"
| "kind_name ContentKindInjected = ''injected''"
| "kind_name ContentKindRawJSONMetadata = ''raw_json_metadata''"

definition AllContentKinds :: "ContentKind list" where
  "AllContentKinds =
     [ContentKindChat, ContentKindThinking, ContentKindToolSummaries, ContentKindToolCalls,
      ContentKindToolOutputs, ContentKindSystemPrompts, ContentKindSystemMessages,
      ContentKindInjected, ContentKindRawJSONMetadata]"

definition contentSelectorAll :: bytes where "contentSelectorAll = ''all''"

definition ContentKindSelectorValues :: "bytes list" where
  "ContentKindSelectorValues = map kind_name AllContentKinds @ [contentSelectorAll]"

fun all_selector_keeps :: "ContentKind \<Rightarrow> bool" where
  "all_selector_keeps ContentKindToolSummaries = False"
| "all_selector_keeps ContentKindToolCalls = False"
| "all_selector_keeps _ = True"

definition allSelectorContentKinds :: "ContentKind list" where
  "allSelectorContentKinds = filter all_selector_keeps AllContentKinds"

definition ExpandContentSelector :: "bytes \<Rightarrow> ContentKind list option" where
  "ExpandContentSelector val =
     (let trimmed = trim_space val in
      if trimmed = contentSelectorAll then Some allSelectorContentKinds
      else map_option (\<lambda>k. [k]) (find (\<lambda>k. kind_name k = trimmed) AllContentKinds))"

section \<open>Sets of kinds\<close>

type_synonym ContentKindSet = "ContentKind set"

definition collapseToolContentKinds :: "ContentKindSet \<Rightarrow> ContentKindSet" where
  "collapseToolContentKinds members =
     (if ContentKindToolOutputs \<in> members
      then members - {ContentKindToolCalls} - {ContentKindToolSummaries}
      else if ContentKindToolCalls \<in> members then members - {ContentKindToolSummaries}
      else members)"

definition NewContentKindSet :: "ContentKind list \<Rightarrow> ContentKindSet" where
  "NewContentKindSet kinds = collapseToolContentKinds (set kinds)"

definition Has :: "ContentKindSet \<Rightarrow> ContentKind \<Rightarrow> bool" where
  "Has s kind \<longleftrightarrow> kind \<in> s"

definition Kinds :: "ContentKindSet \<Rightarrow> ContentKind list" where
  "Kinds s = filter (Has s) AllContentKinds"

definition Empty :: "ContentKindSet \<Rightarrow> bool" where
  "Empty s \<longleftrightarrow> s = {}"

datatype kind_error = UnknownContentKind bytes | NoContentKinds

fun resolve_members :: "bytes list \<Rightarrow> ContentKindSet \<Rightarrow> kind_error + ContentKindSet" where
  "resolve_members [] members = Inr members"
| "resolve_members (val # vals) members =
     (if trim_space val = [] then resolve_members vals members
      else case ExpandContentSelector val of
             None \<Rightarrow> Inl (UnknownContentKind val)
           | Some kinds \<Rightarrow> resolve_members vals (members \<union> set kinds))"

definition ResolveContentKinds :: "bytes list \<Rightarrow> kind_error + ContentKindSet" where
  "ResolveContentKinds vals =
     (case resolve_members vals {} of
        Inl e \<Rightarrow> Inl e
      | Inr members \<Rightarrow>
          let collapsed = collapseToolContentKinds members in
          if collapsed = {} then Inl NoContentKinds else Inr collapsed)"

section \<open>Load rules\<close>

definition loadRulesTagVersionV1 :: bytes where "loadRulesTagVersionV1 = ''v1;''"

definition loadGatedContentKinds :: "ContentKind list" where
  "loadGatedContentKinds =
     [ContentKindToolOutputs, ContentKindSystemPrompts, ContentKindSystemMessages,
      ContentKindInjected]"

definition LoadRulesTag :: "ContentKindSet \<Rightarrow> bytes" where
  "LoadRulesTag kinds =
     loadRulesTagVersionV1 @
     join (map kind_name (filter (Has kinds) loadGatedContentKinds)) '',''"

text \<open>The tally pointer of \<open>LoadOptions\<close> is an output of the parsers and is left out.\<close>

record LoadOptions =
  IncludeSystemPrompts :: bool
  IncludeSystemMessages :: bool
  IncludeToolOutputs :: bool
  IncludeInjected :: bool
  ResolveInjectedTranscripts :: bool

definition defaultLoadOptions :: LoadOptions where
  "defaultLoadOptions = \<lparr>IncludeSystemPrompts = False, IncludeSystemMessages = False,
     IncludeToolOutputs = False, IncludeInjected = False, ResolveInjectedTranscripts = False\<rparr>"

definition load_rule :: "bytes \<Rightarrow> LoadOptions \<Rightarrow> LoadOptions" where
  "load_rule name options =
     (let kind = trim_space name in
      if kind = kind_name ContentKindToolOutputs then options\<lparr>IncludeToolOutputs := True\<rparr>
      else if kind = kind_name ContentKindSystemPrompts then options\<lparr>IncludeSystemPrompts := True\<rparr>
      else if kind = kind_name ContentKindSystemMessages then options\<lparr>IncludeSystemMessages := True\<rparr>
      else if kind = kind_name ContentKindInjected then options\<lparr>IncludeInjected := True\<rparr>
      else options)"

definition LoadOptionsForRules :: "bytes \<Rightarrow> LoadOptions \<times> bool" where
  "LoadOptionsForRules tag =
     (if tag = [] then (defaultLoadOptions, True)
      else case cut_prefix tag loadRulesTagVersionV1 of
             (list, versioned) \<Rightarrow>
               if \<not> versioned then (defaultLoadOptions, False)
               else (fold load_rule (split_byte list (CHR '','')) defaultLoadOptions, True))"

section \<open>A resolved selection\<close>

definition tool_kinds :: "ContentKindSet" where
  "tool_kinds = {ContentKindToolSummaries, ContentKindToolCalls, ContentKindToolOutputs}"

text \<open>The most detailed tool kind of a selection.\<close>

definition tool_detail :: "ContentKindSet \<Rightarrow> ContentKindSet" where
  "tool_detail s =
     (if ContentKindToolOutputs \<in> s then {ContentKindToolOutputs}
      else if ContentKindToolCalls \<in> s then {ContentKindToolCalls}
      else s \<inter> {ContentKindToolSummaries})"

lemma collapseToolContentKinds_eq:
  "collapseToolContentKinds s = (s - tool_kinds) \<union> tool_detail s"
  by (auto simp: collapseToolContentKinds_def tool_kinds_def tool_detail_def)

lemma collapse_empty [simp]: "collapseToolContentKinds s = {} \<longleftrightarrow> s = {}"
  by (auto simp: collapseToolContentKinds_def)

definition selected_kinds :: "bytes list \<Rightarrow> ContentKindSet" where
  "selected_kinds vals =
     {k. \<exists>val \<in> set vals. \<exists>kinds. ExpandContentSelector val = Some kinds \<and> k \<in> set kinds}"

lemma expand_blank: "trim_space val = [] \<Longrightarrow> ExpandContentSelector val = None"
  by (simp add: ExpandContentSelector_def contentSelectorAll_def AllContentKinds_def)

lemma selected_kinds_Cons:
  "selected_kinds (val # vals) =
     (case ExpandContentSelector val of None \<Rightarrow> {} | Some kinds \<Rightarrow> set kinds) \<union> selected_kinds vals"
  by (auto simp: selected_kinds_def split: option.splits)

lemma resolve_members_Inr:
  "resolve_members vals members = Inr out \<Longrightarrow> out = members \<union> selected_kinds vals"
  by (induction vals members rule: resolve_members.induct)
     (auto simp: selected_kinds_Cons selected_kinds_def [of "[]"] expand_blank
           split: if_splits option.splits)

lemma resolve_members_Inl:
  "resolve_members vals members = Inl e \<longleftrightarrow>
   (\<exists>val. find (\<lambda>v. trim_space v \<noteq> [] \<and> ExpandContentSelector v = None) vals = Some val \<and>
      e = UnknownContentKind val)"
  by (induction vals members rule: resolve_members.induct) (auto split: option.splits)

text \<open>
  \<open>ResolveContentKinds\<close> fails on the first selector that is neither blank nor known,
  naming it; otherwise, with every selector blank, it fails because nothing is selected; and
  otherwise it returns every selected kind outside the tool kinds together with the one tool
  kind of the highest detail that was selected.
\<close>

lemma ResolveContentKinds_spec:
  "ResolveContentKinds vals =
     (case find (\<lambda>v. trim_space v \<noteq> [] \<and> ExpandContentSelector v = None) vals of
        Some val \<Rightarrow> Inl (UnknownContentKind val)
      | None \<Rightarrow>
          if selected_kinds vals = {} then Inl NoContentKinds
          else Inr ((selected_kinds vals - tool_kinds) \<union> tool_detail (selected_kinds vals)))"
proof (cases "resolve_members vals {}")
  case (Inl e)
  then show ?thesis using resolve_members_Inl [of vals "{}" e] by (auto simp: ResolveContentKinds_def)
next
  case (Inr members)
  then have "members = selected_kinds vals" using resolve_members_Inr by fastforce
  moreover have "find (\<lambda>v. trim_space v \<noteq> [] \<and> ExpandContentSelector v = None) vals = None"
  proof (rule ccontr)
    assume "\<not> ?thesis"
    then obtain val where
      "find (\<lambda>v. trim_space v \<noteq> [] \<and> ExpandContentSelector v = None) vals = Some val" by auto
    then have "resolve_members vals {} = Inl (UnknownContentKind val)"
      by (simp add: resolve_members_Inl)
    with Inr show False by simp
  qed
  ultimately show ?thesis
    using Inr by (simp add: ResolveContentKinds_def Let_def flip: collapseToolContentKinds_eq)
qed

section \<open>Reading a tag back\<close>

lemma trim_space_kind_name [simp]: "trim_space (kind_name k) = kind_name k"
  by (rule trim_space_plain; cases k; simp add: byte_def is_space_def)

lemma comma_kind_name [simp]: "CHR '','' \<notin> set (kind_name k)"
  by (cases k) auto

lemma kind_name_inject [simp]: "kind_name j = kind_name k \<longleftrightarrow> j = k"
  by (cases j; cases k; simp)

lemma load_rule_blank: "load_rule [] options = options"
  by (simp add: load_rule_def)

lemma LoadOptionsForRules_names:
  "LoadOptionsForRules (loadRulesTagVersionV1 @ join (map kind_name kinds) '','') =
     (fold load_rule (map kind_name kinds) defaultLoadOptions, True)"
proof (cases "kinds = []")
  case True
  then show ?thesis
    by (simp add: LoadOptionsForRules_def cut_prefix_def loadRulesTagVersionV1_def load_rule_blank)
next
  case False
  then have "split_byte (join (map kind_name kinds) '','') CHR '','' = map kind_name kinds"
    by (intro split_byte_join) auto
  then show ?thesis
    by (simp add: LoadOptionsForRules_def cut_prefix_def loadRulesTagVersionV1_def)
qed

lemma load_rule_kind_name:
  "load_rule (kind_name k) options =
     (case k of ContentKindToolOutputs \<Rightarrow> options\<lparr>IncludeToolOutputs := True\<rparr>
      | ContentKindSystemPrompts \<Rightarrow> options\<lparr>IncludeSystemPrompts := True\<rparr>
      | ContentKindSystemMessages \<Rightarrow> options\<lparr>IncludeSystemMessages := True\<rparr>
      | ContentKindInjected \<Rightarrow> options\<lparr>IncludeInjected := True\<rparr>
      | _ \<Rightarrow> options)"
  unfolding load_rule_def Let_def trim_space_kind_name kind_name_inject by (cases k) simp_all

text \<open>
  C28. A stored row's tag says how to load the row again: reading the tag written for a kind
  selection gives, for each of the four load gates, whether the selection has that kind, and
  the tag is recognized.
\<close>

theorem LoadOptionsForRules_LoadRulesTag:
  "LoadOptionsForRules (LoadRulesTag kinds) =
     (\<lparr>IncludeSystemPrompts = Has kinds ContentKindSystemPrompts,
       IncludeSystemMessages = Has kinds ContentKindSystemMessages,
       IncludeToolOutputs = Has kinds ContentKindToolOutputs,
       IncludeInjected = Has kinds ContentKindInjected,
       ResolveInjectedTranscripts = False\<rparr>, True)"
  unfolding LoadRulesTag_def LoadOptionsForRules_names
  by (simp add: loadGatedContentKinds_def load_rule_kind_name defaultLoadOptions_def
           del: kind_name.simps)

end
