(* ===== verification/Reorient_Inject.thy ===== *)
theory Reorient_Inject
  imports Reorient_Tag Token_Count Content_Kind
begin

text \<open>
  Package \<open>internal/reorientinject\<close>: how a compaction request is split by a token budget
  (\<open>plan.go\<close>), the splitter around it (\<open>splitter.go\<close>), and how the transcript of an old,
  unframed injection is recovered (\<open>unframed.go\<close>). Indices are natural numbers, except
  \<open>RetainStart\<close> and \<open>InstructionStart\<close>, whose sign the code checks; the starting cut with
  message index \<open>-1\<close> is \<open>None\<close>, and a pair of a plan and \<open>false\<close> is \<open>None\<close>. A token
  counter is a function from texts to counts. Products and quotients of token counts are
  exact where the source goes through \<open>float64\<close>.

  The nested loops over the messages and their segments run over the list
  \<open>counted_segments\<close> of positions in source order.
\<close>

section \<open>The request\<close>

datatype InjectKind = KindText | KindThinking | KindToolUse | KindToolResult | KindImage | KindOther

datatype Role = RoleUser | RoleAssistant | RoleSystem | RoleOther

record RequestSegment =
  Request_Kind :: InjectKind
  Request_Text :: bytes
  Atomic :: bool

record Message =
  Message_Role :: Role
  Message_Segments :: "RequestSegment list"

record ParsedRequest =
  SessionID :: bytes
  Messages :: "Message list"
  RetainStart :: int
  InstructionStart :: int
  Arguments :: "bytes list"

record Cut =
  MessageIndex :: nat
  SegmentIndex :: nat
  HeadRunes :: nat

record plan =
  Plan_Cut :: Cut
  Retained :: bytes
  RetainedTokens :: int

type_synonym position = "nat \<times> nat \<times> Role \<times> RequestSegment"

definition message_positions :: "Message list \<Rightarrow> nat \<Rightarrow> position list" where
  "message_positions messages i =
     map (\<lambda>(j, segment). (i, j, Message_Role (messages ! i), segment))
       (enumerate 0 (Message_Segments (messages ! i)))"

definition counted_segments :: "ParsedRequest \<Rightarrow> nat \<Rightarrow> position list" where
  "counted_segments request start =
     concat (map (message_positions (Messages request)) [start..<nat (InstructionStart request)])"

section \<open>Framing one segment\<close>

fun frameRole :: "Role \<Rightarrow> SegmentRole" where
  "frameRole RoleUser = SegmentRoleUser"
| "frameRole RoleAssistant = SegmentRoleAssistant"
| "frameRole RoleSystem = SegmentRoleSystem"
| "frameRole RoleOther = SegmentRoleOther"

fun textFrameKind :: "Role \<Rightarrow> SegmentKind" where
  "textFrameKind RoleUser = SegmentKindChat"
| "textFrameKind RoleAssistant = SegmentKindChat"
| "textFrameKind RoleSystem = SegmentKindSystem"
| "textFrameKind RoleOther = SegmentKindOther"

fun frameKind :: "Role \<Rightarrow> InjectKind \<Rightarrow> SegmentKind" where
  "frameKind role KindText = textFrameKind role"
| "frameKind role KindThinking = SegmentKindThinking"
| "frameKind role KindToolUse = SegmentKindToolCall"
| "frameKind role KindToolResult = SegmentKindToolOutput"
| "frameKind role KindImage = SegmentKindOther"
| "frameKind role KindOther = SegmentKindOther"

definition frameSegment :: "Role \<Rightarrow> RequestSegment \<Rightarrow> bytes \<Rightarrow> Segment" where
  "frameSegment role segment t =
     \<lparr>Segment_Role = frameRole role, Segment_Kind = frameKind role (Request_Kind segment),
      Segment_Text = t\<rparr>"

definition tailRunes :: "bytes \<Rightarrow> nat \<Rightarrow> bytes" where
  "tailRunes t headRunes =
     (if headRunes = 0 then t
      else let runes = runes_of t in
        if headRunes \<ge> length runes then [] else string_of_runes (drop headRunes runes))"

section \<open>Planning the cut\<close>

text \<open>The binary search of \<open>headRunesThatFit\<close> over \<open>low\<close>, \<open>high\<close> and \<open>tail\<close>.\<close>

function tail_search :: "counter_fun \<Rightarrow> rune list \<Rightarrow> int \<Rightarrow> int \<Rightarrow> int \<Rightarrow> int \<Rightarrow> int" where
  "tail_search est runes budget low high tail =
     (if low \<le> high then
        let middle = (low + high) div 2 in
        if est (string_of_runes (drop (length runes - nat middle) runes)) < budget
        then tail_search est runes budget (middle + 1) high middle
        else tail_search est runes budget low (middle - 1) tail
      else tail)"
  by pat_completeness auto
termination
  by (relation "measure (\<lambda>(est, runes, budget, low, high, tail). nat (high - low + 1))") auto

declare tail_search.simps [simp del]

definition headRunesThatFit :: "bytes \<Rightarrow> int \<Rightarrow> counter_fun \<Rightarrow> nat" where
  "headRunesThatFit t budget est =
     (let runes = runes_of t
      in length runes - nat (tail_search est runes budget 0 (int (length runes)) 0))"

definition retained_piece :: "Cut \<Rightarrow> (InjectKind \<Rightarrow> bool) \<Rightarrow> position \<Rightarrow> Segment list" where
  "retained_piece cut' include = (\<lambda>(i, j, role, segment).
     if i = MessageIndex cut' \<and> j < SegmentIndex cut' then []
     else if \<not> include (Request_Kind segment) then []
     else let t = (if i = MessageIndex cut' \<and> j = SegmentIndex cut'
                   then tailRunes (Request_Text segment) (HeadRunes cut')
                   else Request_Text segment)
          in if trim_space t = [] then [] else [frameSegment role segment t])"

definition retainedSegments :: "ParsedRequest \<Rightarrow> Cut \<Rightarrow> (InjectKind \<Rightarrow> bool) \<Rightarrow> Segment list" where
  "retainedSegments request cut' include =
     concat (map (retained_piece cut' include) (counted_segments request (MessageIndex cut')))"

definition retainedText :: "ParsedRequest \<Rightarrow> Cut \<Rightarrow> (InjectKind \<Rightarrow> bool) \<Rightarrow> bytes" where
  "retainedText request cut' include = EncodeTranscript (retainedSegments request cut' include)"

definition finishPlan :: "ParsedRequest \<Rightarrow> Cut \<Rightarrow> (InjectKind \<Rightarrow> bool) \<Rightarrow> plan option" where
  "finishPlan request cut' include =
     (let retained = retainedText request cut' include in
      if retained = [] then None
      else Some \<lparr>Plan_Cut = cut', Retained = retained, RetainedTokens = 0\<rparr>)"

datatype scan = Boundary Cut | Exhausted "Cut option"

fun plan_scan :: "counter_fun \<Rightarrow> (InjectKind \<Rightarrow> bool) \<Rightarrow> int \<Rightarrow> position list \<Rightarrow> int \<Rightarrow> Cut option \<Rightarrow> scan" where
  "plan_scan est include budget [] used cut' = Exhausted cut'"
| "plan_scan est include budget ((i, j, role, segment) # rest) used cut' =
     (if \<not> include (Request_Kind segment) then plan_scan est include budget rest used cut'
      else let count = est (EncodeSegment (frameSegment role segment (Request_Text segment))) in
        if used + count < budget
        then plan_scan est include budget rest (used + count)
               (Some \<lparr>MessageIndex = i, SegmentIndex = j, HeadRunes = 0\<rparr>)
        else let head = (if Atomic segment then length (runes_of (Request_Text segment))
                         else let overhead = est (EncodeSegment (frameSegment role segment []))
                              in headRunesThatFit (Request_Text segment) (budget - used - overhead) est)
             in Boundary \<lparr>MessageIndex = i, SegmentIndex = j, HeadRunes = head\<rparr>)"

definition planOnce :: "ParsedRequest \<Rightarrow> int \<Rightarrow> counter_fun \<Rightarrow> (InjectKind \<Rightarrow> bool) \<Rightarrow> plan option" where
  "planOnce request budget est include =
     (let start = nat (RetainStart request);
          used = est (TranscriptFormatMarker @ [newline])
      in case plan_scan est include budget (rev (counted_segments request start)) used None of
           Boundary cut' \<Rightarrow> finishPlan request cut' include
         | Exhausted None \<Rightarrow> None
         | Exhausted (Some cut') \<Rightarrow>
             if MessageIndex cut' = start \<and> HeadRunes cut' = 0
             then if InstructionStart request \<le> RetainStart request + 1 then None
                  else finishPlan request
                         \<lparr>MessageIndex = start + 1, SegmentIndex = 0, HeadRunes = 0\<rparr> include
             else finishPlan request cut' include)"

definition planAttempts :: nat where "planAttempts = 4"

fun plan_loop :: "nat \<Rightarrow> ParsedRequest \<Rightarrow> int \<Rightarrow> int \<Rightarrow> counter_fun \<Rightarrow> (InjectKind \<Rightarrow> bool) \<Rightarrow> int \<Rightarrow> plan option" where
  "plan_loop 0 request budget maxBytes est include planningBudget = None"
| "plan_loop (Suc attempts) request budget maxBytes est include planningBudget =
     (case planOnce request planningBudget est include of
        None \<Rightarrow> None
      | Some candidate \<Rightarrow>
          let tokens = est (Retained candidate);
              bytes = int (length (Retained candidate))
          in if tokens < budget \<and> (maxBytes \<le> 0 \<or> bytes \<le> maxBytes)
             then Some (candidate\<lparr>RetainedTokens := tokens\<rparr>)
             else let overage = tokens - budget + 1;
                      byteOverage = tokens - trunc_quot (tokens * maxBytes) bytes + 1;
                      overage' = (if maxBytes > 0 \<and> bytes > maxBytes
                                  then max overage byteOverage else overage);
                      planningBudget' = planningBudget - overage'
                  in if planningBudget' \<le> 0 then None
                     else plan_loop attempts request budget maxBytes est include planningBudget')"

text \<open>
  The scan starts at the message before \<open>InstructionStart\<close>, so a request whose
  \<open>InstructionStart\<close> lies past the end of \<open>Messages\<close> makes it panic.
\<close>

definition planCut :: "ParsedRequest \<Rightarrow> int \<Rightarrow> int \<Rightarrow> counter_fun \<Rightarrow> (InjectKind \<Rightarrow> bool) \<Rightarrow> plan option outcome" where
  "planCut request budget maxBytes est include =
     (if budget \<le> 0 \<or> RetainStart request < 0 \<or> InstructionStart request \<le> RetainStart request
      then Returns None
      else if InstructionStart request > int (length (Messages request)) then Panic
      else Returns (plan_loop planAttempts request budget maxBytes est include budget))"

section \<open>The splitter\<close>

fun include_kind :: "ContentKindSet \<Rightarrow> InjectKind \<Rightarrow> bool" where
  "include_kind selected KindText = Has selected ContentKindChat"
| "include_kind selected KindOther = Has selected ContentKindChat"
| "include_kind selected KindThinking = Has selected ContentKindThinking"
| "include_kind selected KindToolUse =
     (Has selected ContentKindToolCalls \<or> Has selected ContentKindToolSummaries \<or>
      Has selected ContentKindToolOutputs)"
| "include_kind selected KindToolResult = Has selected ContentKindToolOutputs"
| "include_kind selected KindImage = False"

definition includeFor :: "ContentKindSet \<Rightarrow> InjectKind \<Rightarrow> bool" where
  "includeFor selected = (if Empty selected then (\<lambda>_. True) else include_kind selected)"

text \<open>
  The settings, with the outcome of reading the instructions file in place of its path:
  \<open>None\<close> when no file is configured or it cannot be read. A provider is the pair of its
  decoder and its truncation; both are wire code of the provider packages.
\<close>

record SplitSettings =
  DefaultBudget :: int
  DefaultContent :: ContentKindSet
  MaxRetainedBytes :: int
  InstructionsContent :: "bytes option"

record Provider =
  ParseCompaction :: "bytes \<Rightarrow> ParsedRequest option"
  Truncate :: "bytes \<Rightarrow> Cut \<Rightarrow> int \<Rightarrow> bytes option"

record Result =
  Forwarded :: bytes
  Injection :: bytes

definition DefaultMaxTokens :: int where "DefaultMaxTokens = 500000"

definition NewSplitter :: "SplitSettings \<Rightarrow> SplitSettings" where
  "NewSplitter settings =
     (if DefaultBudget settings \<le> 0 then settings\<lparr>DefaultBudget := DefaultMaxTokens\<rparr> else settings)"

definition instructions_text :: "SplitSettings \<Rightarrow> bytes" where
  "instructions_text settings =
     (case InstructionsContent settings of None \<Rightarrow> [] | Some content \<Rightarrow> trim_space content)"

text \<open>
  \<open>parse_args\<close> stands for \<open>exportargs.Parse\<close> (a command-line flag set), giving the typed
  token count and content kinds, and \<open>human_count\<close> for \<open>util.ParseHumanCount\<close>.
\<close>

definition options ::
    "(bytes list \<Rightarrow> (bytes \<times> ContentKindSet) option) \<Rightarrow> (bytes \<Rightarrow> int option) \<Rightarrow> SplitSettings \<Rightarrow>
     bytes list \<Rightarrow> int \<times> (InjectKind \<Rightarrow> bool)" where
  "options parse_args human_count settings args =
     (let budget = DefaultBudget settings; selected = DefaultContent settings in
      if args = [] then (budget, includeFor selected)
      else case parse_args args of
             None \<Rightarrow> (budget, includeFor selected)
           | Some (maxTokens, content) \<Rightarrow>
               (if maxTokens = [] then budget
                else case human_count maxTokens of
                       None \<Rightarrow> budget
                     | Some parsed \<Rightarrow> if parsed > 0 then parsed else budget,
                includeFor (if \<not> Empty content then content else selected)))"

definition Splitter_Plan ::
    "(bytes list \<Rightarrow> (bytes \<times> ContentKindSet) option) \<Rightarrow> (bytes \<Rightarrow> int option) \<Rightarrow> Provider \<Rightarrow>
     SplitSettings \<Rightarrow> counter_fun \<Rightarrow> bytes \<Rightarrow> Result option outcome" where
  "Splitter_Plan parse_args human_count provider settings est body =
     (case ParseCompaction provider body of
        None \<Rightarrow> Returns None
      | Some parsed \<Rightarrow>
          let (budget, include) = options parse_args human_count settings (Arguments parsed);
              instructions = instructions_text settings;
              maxBytes = (if MaxRetainedBytes settings > 0
                          then MaxRetainedBytes settings - int (length (WrapInjection [] instructions))
                          else MaxRetainedBytes settings)
          in case planCut parsed budget maxBytes est include of
               Panic \<Rightarrow> Panic
             | Returns None \<Rightarrow> Returns None
             | Returns (Some p) \<Rightarrow>
                 (case Truncate provider body (Plan_Cut p) (InstructionStart parsed) of
                    None \<Rightarrow> Returns None
                  | Some forwarded \<Rightarrow>
                      Returns (Some \<lparr>Forwarded = forwarded,
                                     Injection = WrapInjection (Retained p) instructions\<rparr>)))"

section \<open>Unframed transcripts\<close>

definition unframedHeadingPrefix :: bytes where "unframedHeadingPrefix = ''### ''"

definition unframedSeparator :: bytes where "unframedSeparator = [newline, newline]"

fun unframedHeading :: "Role \<Rightarrow> bytes" where
  "unframedHeading RoleUser = ''User''"
| "unframedHeading RoleAssistant = ''Assistant''"
| "unframedHeading RoleSystem = ''System''"
| "unframedHeading RoleOther = ''Other''"

text \<open>
  \<open>renderUnframed\<close>: the segments of one message from \<open>first\<close> on, with the count of
  segments written so far, and then the messages after it.
\<close>

fun render_segments :: "Role \<Rightarrow> nat \<Rightarrow> RequestSegment list \<Rightarrow> bytes" where
  "render_segments role written [] = []"
| "render_segments role written (segment # segments) =
     (if trim_space (Request_Text segment) = [] then render_segments role written segments
      else (if written = 0
            then unframedSeparator @ unframedHeadingPrefix @ unframedHeading role else [])
           @ unframedSeparator @ Request_Text segment
           @ render_segments role (written + 1) segments)"

definition renderUnframed :: "ParsedRequest \<Rightarrow> nat \<Rightarrow> nat \<Rightarrow> bool \<Rightarrow> bytes" where
  "renderUnframed request message segment headingWritten =
     trim_right_set
       (concat (map (\<lambda>i. let m = Messages request ! i in
          render_segments (Message_Role m) (if i = message \<and> headingWritten then 1 else 0)
            (drop (if i = message then segment else 0) (Message_Segments m)))
          [message..<nat (InstructionStart request)]))
       [CHR '' '', CHR 0x09, creturn, newline]"

definition unframedTails :: "ParsedRequest \<Rightarrow> nat \<Rightarrow> nat \<Rightarrow> RequestSegment \<Rightarrow> bytes \<Rightarrow> bytes list" where
  "unframedTails request messageIndex segmentIndex segment t =
     (let heading = unframedHeadingPrefix @
            unframedHeading (Message_Role (Messages request ! messageIndex)) @ unframedSeparator;
          (body, hasHeading) = cut_prefix t heading
      in if \<not> hasHeading then []
         else let following = renderUnframed request messageIndex (segmentIndex + 1) True in
           if \<not> has_suffix body following then []
           else let tail = trim_suffix body following in
             if trim_space tail = [] \<or> \<not> has_suffix (Request_Text segment) tail then []
             else if Atomic segment \<and> trim_space tail \<noteq> trim_space (Request_Text segment) then []
             else [tail])"

definition unframed_piece :: "nat \<Rightarrow> nat \<Rightarrow> bytes \<Rightarrow> position \<Rightarrow> Segment list" where
  "unframed_piece message segment t = (\<lambda>(i, j, role, seg).
     if i = message \<and> j < segment then []
     else let txt = (if i = message \<and> j = segment then t else Request_Text seg)
          in if trim_space txt = [] then [] else [frameSegment role seg txt])"

definition unframedSegments :: "ParsedRequest \<Rightarrow> nat \<Rightarrow> nat \<Rightarrow> bytes \<Rightarrow> Segment list" where
  "unframedSegments request message segment t =
     concat (map (unframed_piece message segment t) (counted_segments request message))"

text \<open>The loop of \<open>ReconstructUnframedTranscript\<close> over all candidates, in order.\<close>

definition unframed_candidates :: "ParsedRequest \<Rightarrow> bytes \<Rightarrow> Segment list list" where
  "unframed_candidates request t =
     concat (map (\<lambda>(i, j, role, segment).
         map (unframedSegments request i j) (unframedTails request i j segment t))
       (counted_segments request (nat (RetainStart request))))"

fun match_candidates :: "Segment list list \<Rightarrow> Segment list \<Rightarrow> nat \<Rightarrow> Segment list \<times> nat" where
  "match_candidates [] found matchCount = (found, matchCount)"
| "match_candidates (segments # rest) found matchCount =
     (if matchCount > 0 \<and> found = segments then match_candidates rest found matchCount
      else match_candidates rest segments (matchCount + 1))"

text \<open>
  A negative \<open>RetainStart\<close> below \<open>InstructionStart\<close>, or an \<open>InstructionStart\<close> past the
  end of the messages, makes the loop read \<open>Messages\<close> out of range.
\<close>

definition ReconstructUnframedTranscript :: "ParsedRequest \<Rightarrow> bytes \<Rightarrow> Segment list option outcome" where
  "ReconstructUnframedTranscript request t =
     (if RetainStart request < InstructionStart request \<and>
         (RetainStart request < 0 \<or> InstructionStart request > int (length (Messages request)))
      then Panic
      else let (found, matchCount) = match_candidates (unframed_candidates request t) [] 0
           in Returns (if matchCount \<noteq> 1 then None else Some found))"

section \<open>What a plan retains\<close>

lemma set_counted_segments:
  "(i, j, role, segment) \<in> set (counted_segments request start) \<longleftrightarrow>
   start \<le> i \<and> i < nat (InstructionStart request) \<and>
   j < length (Message_Segments (Messages request ! i)) \<and>
   segment = Message_Segments (Messages request ! i) ! j \<and> role = Message_Role (Messages request ! i)"
  by (auto simp: counted_segments_def message_positions_def in_set_enumerate_eq image_iff
           intro!: bexI [of _ i] bexI [of _ "(j, segment)"])

text \<open>
  A cut is in range when it names a segment before the instructions and at most all of its
  runes, or the start of a message.
\<close>

definition cut_in_range :: "ParsedRequest \<Rightarrow> Cut \<Rightarrow> bool" where
  "cut_in_range request c \<longleftrightarrow>
     RetainStart request \<le> int (MessageIndex c) \<and> int (MessageIndex c) < InstructionStart request \<and>
     (SegmentIndex c = 0 \<and> HeadRunes c = 0 \<or>
      SegmentIndex c < length (Message_Segments (Messages request ! MessageIndex c)) \<and>
      HeadRunes c \<le> length (runes_of (Request_Text
        (Message_Segments (Messages request ! MessageIndex c) ! SegmentIndex c))))"

lemma headRunesThatFit_le: "headRunesThatFit t budget est \<le> length (runes_of t)"
  by (simp add: headRunesThatFit_def Let_def)

lemma plan_scan_Boundary:
  "plan_scan est include budget items used cut' = Boundary c \<Longrightarrow>
   \<exists>role segment. (MessageIndex c, SegmentIndex c, role, segment) \<in> set items \<and>
     include (Request_Kind segment) \<and> HeadRunes c \<le> length (runes_of (Request_Text segment))"
  by (induction est "include" budget items used cut' rule: plan_scan.induct)
     (auto simp: Let_def split: if_splits, (metis headRunesThatFit_le order_refl)+)

lemma plan_scan_Exhausted:
  "plan_scan est include budget items used cut' = Exhausted (Some c) \<Longrightarrow>
   cut' = Some c \<or>
   (\<exists>role segment. (MessageIndex c, SegmentIndex c, role, segment) \<in> set items \<and> HeadRunes c = 0)"
  by (induction est "include" budget items used cut' rule: plan_scan.induct)
     (auto simp: Let_def split: if_splits, blast?)

lemma finishPlan_Some:
  "finishPlan request c include = Some p \<longleftrightarrow>
   retainedSegments request c include \<noteq> [] \<and>
   p = \<lparr>Plan_Cut = c, Retained = EncodeTranscript (retainedSegments request c include), RetainedTokens = 0\<rparr>"
  by (cases "retainedSegments request c include")
     (auto simp: finishPlan_def retainedText_def TranscriptFormatMarker_def Let_def)

lemma planOnce_cut:
  assumes "planOnce request budget est include = Some p" "0 \<le> RetainStart request"
  shows "finishPlan request (Plan_Cut p) include = Some p \<and> cut_in_range request (Plan_Cut p)"
proof -
  let ?start = "nat (RetainStart request)"
  let ?scan = "plan_scan est include budget (rev (counted_segments request ?start))
      (est (TranscriptFormatMarker @ [newline])) None"
  have cut_of: "Plan_Cut p = c" if "finishPlan request c include = Some p" for c
    using that by (auto simp: finishPlan_Some)
  show ?thesis
  proof (cases ?scan)
    case (Boundary c)
    with assms have f: "finishPlan request c include = Some p" by (simp add: planOnce_def Let_def)
    from plan_scan_Boundary [OF Boundary] assms(2) have "cut_in_range request c"
      by (auto simp: set_counted_segments cut_in_range_def)
    with f cut_of [OF f] show ?thesis by simp
  next
    case (Exhausted oc)
    with assms(1) obtain c where c: "oc = Some c"
      by (cases oc) (auto simp: planOnce_def Let_def)
    have r: "cut_in_range request c"
      using plan_scan_Exhausted [of est "include" budget _ _ None c] Exhausted c assms(2)
      by (fastforce simp: set_counted_segments cut_in_range_def)
    show ?thesis
    proof (cases "MessageIndex c = ?start \<and> HeadRunes c = 0")
      case True
      define c' where "c' = \<lparr>MessageIndex = ?start + 1, SegmentIndex = 0, HeadRunes = 0\<rparr>"
      from True assms Exhausted c have f: "finishPlan request c' include = Some p"
        and "RetainStart request + 1 < InstructionStart request"
        by (auto simp: planOnce_def Let_def c'_def split: if_splits)
      with cut_of [OF f] assms(2) show ?thesis by (auto simp: cut_in_range_def c'_def)
    next
      case False
      with assms Exhausted c have f: "finishPlan request c include = Some p"
        by (simp add: planOnce_def Let_def)
      with r cut_of [OF f] show ?thesis by simp
    qed
  qed
qed

lemma plan_loop_Some:
  "plan_loop attempts request budget maxBytes est include planningBudget = Some p \<Longrightarrow>
   \<exists>b candidate. planOnce request b est include = Some candidate \<and>
     p = candidate\<lparr>RetainedTokens := est (Retained candidate)\<rparr> \<and>
     est (Retained candidate) < budget \<and>
     (0 < maxBytes \<longrightarrow> int (length (Retained candidate)) \<le> maxBytes)"
proof (induction attempts arbitrary: planningBudget)
  case 0
  then show ?case by simp
next
  case (Suc attempts)
  then obtain candidate where c: "planOnce request planningBudget est include = Some candidate"
    by (auto split: option.splits)
  show ?case
  proof (cases "est (Retained candidate) < budget \<and>
      (maxBytes \<le> 0 \<or> int (length (Retained candidate)) \<le> maxBytes)")
    case True
    with Suc.prems c show ?thesis by (intro exI [of _ planningBudget] exI [of _ candidate]) auto
  next
    case False
    with Suc.prems c Suc.IH show ?thesis
      by (simp only: plan_loop.simps option.case if_False Let_def split: if_splits) blast+
  qed
qed

lemma planCut_Some:
  assumes "planCut request budget maxBytes est include = Returns (Some p)"
  shows "RetainedTokens p = est (Retained p)" "RetainedTokens p < budget"
    "0 < maxBytes \<Longrightarrow> int (length (Retained p)) \<le> maxBytes"
    "Retained p = EncodeTranscript (retainedSegments request (Plan_Cut p) include)"
    "retainedSegments request (Plan_Cut p) include \<noteq> []"
    "cut_in_range request (Plan_Cut p)"
proof -
  have loop: "plan_loop planAttempts request budget maxBytes est include budget = Some p"
    and start: "0 \<le> RetainStart request"
    using assms by (auto simp: planCut_def split: if_splits)
  from plan_loop_Some [OF loop] obtain b candidate where
    c: "planOnce request b est include = Some candidate"
      "p = candidate\<lparr>RetainedTokens := est (Retained candidate)\<rparr>"
      "est (Retained candidate) < budget"
      "0 < maxBytes \<longrightarrow> int (length (Retained candidate)) \<le> maxBytes" by blast
  note o = planOnce_cut [OF c(1) start]
  show "RetainedTokens p = est (Retained p)" "RetainedTokens p < budget"
    "0 < maxBytes \<Longrightarrow> int (length (Retained p)) \<le> maxBytes" using c by simp_all
  show "Retained p = EncodeTranscript (retainedSegments request (Plan_Cut p) include)"
    "retainedSegments request (Plan_Cut p) include \<noteq> []"
    "cut_in_range request (Plan_Cut p)"
    using c(2) o by (auto simp: finishPlan_Some) (metis plan.select_convs(2))+
qed

text \<open>
  C9. A plan keeps its limits: when \<open>planCut\<close> returns a plan, its token count is the
  counter's measure of the retained text and strictly below the budget, a positive byte cap
  holds, the cut lies between \<open>RetainStart\<close> and \<open>InstructionStart\<close> and inside a segment of
  the request, and the retained text encodes the non-empty list of included segments from
  the cut on.
\<close>

theorem planCut_within_limits:
  assumes "planCut request budget maxBytes est include = Returns (Some p)"
  shows "RetainedTokens p = est (Retained p) \<and> RetainedTokens p < budget \<and>
    (0 < maxBytes \<longrightarrow> int (length (Retained p)) \<le> maxBytes) \<and>
    cut_in_range request (Plan_Cut p) \<and>
    retainedSegments request (Plan_Cut p) include \<noteq> [] \<and>
    Retained p = EncodeTranscript (retainedSegments request (Plan_Cut p) include)"
  using planCut_Some [OF assms] by blast

section \<open>What the splitter injects\<close>

lemma Splitter_Plan_Some:
  assumes "ParseCompaction provider body = Some parsed"
    "Splitter_Plan parse_args human_count provider settings est body = Returns (Some r)"
  defines "instructions \<equiv> instructions_text settings"
  defines "maxBytes \<equiv> (if MaxRetainedBytes settings > 0
      then MaxRetainedBytes settings - int (length (WrapInjection [] instructions))
      else MaxRetainedBytes settings)"
  obtains budget "include" p where
    "options parse_args human_count settings (Arguments parsed) = (budget, include)"
    "planCut parsed budget maxBytes est include = Returns (Some p)"
    "Truncate provider body (Plan_Cut p) (InstructionStart parsed) = Some (Forwarded r)"
    "Injection r = WrapInjection (Retained p) instructions"
proof -
  obtain budget "include" where o:
    "options parse_args human_count settings (Arguments parsed) = (budget, include)" by fastforce
  from assms(2) show thesis
    unfolding Splitter_Plan_def Let_def assms(1) option.case o prod.case
      instructions_def [symmetric] maxBytes_def [symmetric]
    by (auto split: outcome.splits option.splits intro: that [OF o])
qed

lemma length_WrapInjection:
  "length (WrapInjection t instructions) = length (WrapInjection [] instructions) + length t"
  by (simp add: WrapInjection_def Let_def)

text \<open>
  C8. What the splitter injects is what it cut off: the injection, read by
  \<open>ParseTranscriptSpans\<close>, holds one transcript whose segments are exactly the included
  segments of the request from the cut on, for the same cut at which the provider truncated
  the forwarded request; whatever tags the segment texts contain, and provided the operator's
  instructions do not themselves start a framed transcript.
\<close>

theorem Splitter_Plan_injection_reads_back:
  assumes "ParseCompaction provider body = Some parsed"
    and "Splitter_Plan parse_args human_count provider settings est body = Returns (Some r)"
    and "int (length (Injection r)) \<le> max_int"
    and "\<not> contains (instructions_text settings @ [newline]) transcript_header"
  shows "\<exists>c. cut_in_range parsed c \<and>
    Truncate provider body c (InstructionStart parsed) = Some (Forwarded r) \<and>
    map Span_Segments (ParseTranscriptSpans (Injection r)) =
      [retainedSegments parsed c (snd (options parse_args human_count settings (Arguments parsed)))]"
proof (rule Splitter_Plan_Some [OF assms(1,2)])
  fix budget "include" and p :: plan
  let ?segs = "retainedSegments parsed (Plan_Cut p) include"
  assume o: "options parse_args human_count settings (Arguments parsed) = (budget, include)"
    and p: "planCut parsed budget (if MaxRetainedBytes settings > 0
      then MaxRetainedBytes settings - int (length (WrapInjection [] (instructions_text settings)))
      else MaxRetainedBytes settings) est include = Returns (Some p)"
    and t: "Truncate provider body (Plan_Cut p) (InstructionStart parsed) = Some (Forwarded r)"
    and i: "Injection r = WrapInjection (Retained p) (instructions_text settings)"
  note plan = planCut_Some [OF p]
  have "int (length (EncodeTranscript ?segs)) \<le> max_int"
    using assms(3) by (simp add: i plan(4) length_WrapInjection [of "EncodeTranscript ?segs"])
  then have "fits_int ?segs"
    unfolding list_all_iff using length_EncodeTranscript [of _ ?segs] by fastforce
  from parse_wrap_injection [OF plan(5) this assms(4)] show ?thesis
    using o t plan(6) i plan(4) by auto
qed

text \<open>
  C29. When \<open>MaxRetainedBytes\<close> is positive, the injection respects it exactly when the cap
  leaves room for the wrapper tags and the operator's instructions: a cap at or below that
  overhead is subtracted to zero or less, which \<open>planCut\<close> reads as no cap, so every
  injection then exceeds the configured cap.
\<close>

theorem Splitter_Plan_byte_cap:
  assumes "ParseCompaction provider body = Some parsed"
    and "Splitter_Plan parse_args human_count provider settings est body = Returns (Some r)"
    and "0 < MaxRetainedBytes settings"
  shows "int (length (Injection r)) \<le> MaxRetainedBytes settings \<longleftrightarrow>
    int (length (WrapInjection [] (instructions_text settings))) < MaxRetainedBytes settings"
proof (rule Splitter_Plan_Some [OF assms(1,2)])
  fix budget "include" and p :: plan
  assume p: "planCut parsed budget (if MaxRetainedBytes settings > 0
      then MaxRetainedBytes settings - int (length (WrapInjection [] (instructions_text settings)))
      else MaxRetainedBytes settings) est include = Returns (Some p)"
    and i: "Injection r = WrapInjection (Retained p) (instructions_text settings)"
  have "1 \<le> int (length (Retained p))"
    using planCut_Some(4,5) [OF p]
    by (cases "retainedSegments parsed (Plan_Cut p) include") (auto simp: TranscriptFormatMarker_def)
  moreover have "length (Injection r) =
      length (WrapInjection [] (instructions_text settings)) + length (Retained p)"
    unfolding i by (rule length_WrapInjection)
  ultimately show ?thesis using planCut_Some(3) [OF p] unfolding if_P [OF assms(3)] by linarith
qed

section \<open>Concrete requests\<close>

text \<open>A conversation of one assistant message before the compaction prompt.\<close>

definition one_message :: "bytes \<Rightarrow> ParsedRequest" where
  "one_message t =
     \<lparr>SessionID = ''s'',
      Messages = [\<lparr>Message_Role = RoleAssistant,
        Message_Segments = [\<lparr>Request_Kind = KindText, Request_Text = t, Atomic = False\<rparr>]\<rparr>],
      RetainStart = 0, InstructionStart = 1, Arguments = []\<rparr>"

definition two_bytes_per_token :: counter_fun where
  "two_bytes_per_token = Estimate (\<lambda>_. None) (HeuristicCounter 2)"

definition fixed_provider :: "ParsedRequest \<Rightarrow> Provider" where
  "fixed_provider request =
     \<lparr>ParseCompaction = (\<lambda>_. Some request), Truncate = (\<lambda>body _ _. Some body)\<rparr>"

definition small_settings :: "int \<Rightarrow> SplitSettings" where
  "small_settings cap =
     \<lparr>DefaultBudget = 56, DefaultContent = {}, MaxRetainedBytes = cap, InstructionsContent = None\<rparr>"

definition one_message_result :: Result where
  "one_message_result = \<lparr>Forwarded = [], Injection = WrapInjection
     (EncodeTranscript [\<lparr>Segment_Role = SegmentRoleAssistant,
         Segment_Kind = SegmentKindChat, Segment_Text = ''abcdefghij''\<rparr>]) []\<rparr>"

lemma one_message_plan:
  "planCut (one_message ''abcdefghij'') 56 maxBytes two_bytes_per_token (\<lambda>_. True) =
     Returns (Some \<lparr>Plan_Cut = \<lparr>MessageIndex = 0, SegmentIndex = 0, HeadRunes = 0\<rparr>,
       Retained = EncodeTranscript [\<lparr>Segment_Role = SegmentRoleAssistant,
         Segment_Kind = SegmentKindChat, Segment_Text = ''abcdefghij''\<rparr>],
       RetainedTokens = 55\<rparr>)"
  if "maxBytes \<le> 0"
proof -
  have "planOnce (one_message ''abcdefghij'') 56 two_bytes_per_token (\<lambda>_. True) =
      Some \<lparr>Plan_Cut = \<lparr>MessageIndex = 0, SegmentIndex = 0, HeadRunes = 0\<rparr>,
       Retained = EncodeTranscript [\<lparr>Segment_Role = SegmentRoleAssistant,
         Segment_Kind = SegmentKindChat, Segment_Text = ''abcdefghij''\<rparr>],
       RetainedTokens = 0\<rparr>" by code_simp
  moreover have "two_bytes_per_token (EncodeTranscript [\<lparr>Segment_Role = SegmentRoleAssistant,
         Segment_Kind = SegmentKindChat, Segment_Text = ''abcdefghij''\<rparr>]) = 55" by code_simp
  ultimately have "plan_loop (Suc n) (one_message ''abcdefghij'') 56 maxBytes two_bytes_per_token (\<lambda>_. True) 56 =
      Some \<lparr>Plan_Cut = \<lparr>MessageIndex = 0, SegmentIndex = 0, HeadRunes = 0\<rparr>,
       Retained = EncodeTranscript [\<lparr>Segment_Role = SegmentRoleAssistant,
         Segment_Kind = SegmentKindChat, Segment_Text = ''abcdefghij''\<rparr>],
       RetainedTokens = 55\<rparr>" for n
    using that by (simp del: EncodeTranscript.simps)
  from this [of 3] have "plan_loop planAttempts (one_message ''abcdefghij'') 56 maxBytes
      two_bytes_per_token (\<lambda>_. True) 56 =
      Some \<lparr>Plan_Cut = \<lparr>MessageIndex = 0, SegmentIndex = 0, HeadRunes = 0\<rparr>,
       Retained = EncodeTranscript [\<lparr>Segment_Role = SegmentRoleAssistant,
         Segment_Kind = SegmentKindChat, Segment_Text = ''abcdefghij''\<rparr>],
       RetainedTokens = 55\<rparr>"
    by (simp add: planAttempts_def del: plan_loop.simps EncodeTranscript.simps)
  moreover have "RetainStart (one_message t) = 0" "InstructionStart (one_message t) = 1"
    "length (Messages (one_message t)) = 1" for t by (simp_all add: one_message_def)
  ultimately show ?thesis by (simp add: planCut_def del: EncodeTranscript.simps)
qed

lemma one_message_split:
  assumes "cap \<le> int (length (WrapInjection [] []))"
  shows "Splitter_Plan parse_args human_count (fixed_provider (one_message ''abcdefghij''))
     (small_settings cap) two_bytes_per_token [] = Returns (Some one_message_result)"
proof -
  have "(if cap > 0 then cap - int (length (WrapInjection [] [])) else cap) \<le> 0"
    using assms by simp
  note plan = one_message_plan [OF this]
  have o: "options parse_args human_count (small_settings cap) (Arguments (one_message ''abcdefghij''))
      = (56, \<lambda>_. True)"
    by (simp add: options_def small_settings_def one_message_def includeFor_def Empty_def Let_def)
  have i: "instructions_text (small_settings cap) = []" "MaxRetainedBytes (small_settings cap) = cap"
    by (simp_all add: instructions_text_def small_settings_def)
  show ?thesis
    unfolding Splitter_Plan_def fixed_provider_def Let_def Provider.select_convs option.case o
      prod.case i plan
    by (simp add: one_message_result_def del: EncodeTranscript.simps)
qed


theorem planCut_within_limits_witness:
  "two_bytes_per_token (EncodeTranscript [\<lparr>Segment_Role = SegmentRoleAssistant,
     Segment_Kind = SegmentKindChat, Segment_Text = ''abcdefghij''\<rparr>]) < 56"
  using planCut_within_limits [OF one_message_plan [of 0], THEN conjunct1] unfolding plan.select_convs
  by simp

theorem Splitter_Plan_injection_reads_back_witness:
  "\<exists>c :: Cut. map Span_Segments (ParseTranscriptSpans (Injection one_message_result)) =
     [retainedSegments (one_message ''abcdefghij'') c (\<lambda>_. True)]"
proof -
  have cap: "0 \<le> int (length (WrapInjection [] []))" by simp
  have len: "int (length (Injection one_message_result)) \<le> max_int" by code_simp
  have h: "\<not> contains (instructions_text (small_settings 0) @ [newline]) transcript_header" by code_simp
  have p: "ParseCompaction (fixed_provider (one_message ''abcdefghij'')) [] = Some (one_message ''abcdefghij'')"
    by (simp add: fixed_provider_def)
  have o: "snd (options (\<lambda>_. None) (\<lambda>_. None) (small_settings 0) (Arguments (one_message ''abcdefghij'')))
      = (\<lambda>_. True)"
    by (simp add: options_def small_settings_def one_message_def includeFor_def Empty_def Let_def)
  show ?thesis
    using Splitter_Plan_injection_reads_back [OF p one_message_split [OF cap] len h,
        of "\<lambda>_. None" "\<lambda>_. None"] unfolding o by (elim exE conjE) (rule exI)
qed

theorem Splitter_Plan_byte_cap_witness:
  "\<not> int (length (Injection one_message_result)) \<le> 10"
proof -
  have cap: "10 \<le> int (length (WrapInjection [] []))" by code_simp
  have p: "ParseCompaction (fixed_provider (one_message ''abcdefghij'')) [] = Some (one_message ''abcdefghij'')"
    by (simp add: fixed_provider_def)
  have s: "0 < MaxRetainedBytes (small_settings 10)" "instructions_text (small_settings 10) = []"
    "MaxRetainedBytes (small_settings 10) = 10"
    by (simp_all add: small_settings_def instructions_text_def)
  show ?thesis
    using Splitter_Plan_byte_cap [OF p one_message_split [OF cap] s(1)] cap unfolding s by simp
qed

section \<open>The boundary tail\<close>

lemma tail_search_step:
  assumes "low \<le> high"
  defines "m \<equiv> (low + high) div 2"
  shows "tail_search est runes budget low high tail =
    (if est (string_of_runes (drop (length runes - nat m) runes)) < budget
     then tail_search est runes budget (m + 1) high m
     else tail_search est runes budget low (m - 1) tail)"
  using assms(1) by (simp add: tail_search.simps [of est runes budget low high tail] Let_def m_def)

lemma tail_search_done: "high < low \<Longrightarrow> tail_search est runes budget low high tail = tail"
  by (simp add: tail_search.simps)

context mono_token_counter
begin

lemma rune_tail_mono:
  assumes "k \<le> l"
  shows "est (string_of_runes (drop (length runes - nat k) runes))
    \<le> est (string_of_runes (drop (length runes - nat l) runes))"
proof -
  define a where "a = length runes - nat l"
  define b where "b = length runes - nat k"
  have "a \<le> b" using assms by (simp add: a_def b_def)
  then have "drop a runes = take (b - a) (drop a runes) @ drop b runes"
    by (metis append_take_drop_id drop_drop le_add_diff_inverse2)
  then have "string_of_runes (drop a runes) =
      string_of_runes (take (b - a) (drop a runes)) @ string_of_runes (drop b runes)"
    by (metis string_of_runes_simps(3))
  then show ?thesis using est_mono unfolding a_def b_def by metis
qed

lemma tail_search_longest:
  assumes "0 \<le> low" "high \<le> int (length runes)" "0 \<le> tail" "low - 1 \<le> tail"
    "tail \<le> int (length runes)"
    "tail = 0 \<or> est (string_of_runes (drop (length runes - nat tail) runes)) < budget"
    "\<forall>k > high. k \<le> int (length runes) \<longrightarrow>
       budget \<le> est (string_of_runes (drop (length runes - nat k) runes))"
  defines "r \<equiv> tail_search est runes budget low high tail"
  shows "0 \<le> r \<and> r \<le> int (length runes) \<and>
    (r = 0 \<or> est (string_of_runes (drop (length runes - nat r) runes)) < budget) \<and>
    (\<forall>k > r. k \<le> int (length runes) \<longrightarrow>
       budget \<le> est (string_of_runes (drop (length runes - nat k) runes)))"
  using assms(1-7) unfolding r_def
proof (induction "nat (high - low + 1)" arbitrary: low high tail rule: less_induct)
  case less
  show ?case
  proof (cases "low \<le> high")
    case False
    with less.prems show ?thesis by (auto simp: tail_search_done)
  next
    case True
    define m where "m = (low + high) div 2"
    have m: "low \<le> m" "m \<le> high" using True by (simp_all add: m_def)
    note step = tail_search_step [OF True, folded m_def]
    show ?thesis
    proof (cases "est (string_of_runes (drop (length runes - nat m) runes)) < budget")
      case fits: True
      with less.hyps [of high "m + 1" m] m less.prems show ?thesis by (simp add: step)
    next
      case False
      have "budget \<le> est (string_of_runes (drop (length runes - nat k) runes))" if "m - 1 < k" for k
        using rune_tail_mono [of m k runes] False that by simp
      with less.hyps [of "m - 1" low tail] m less.prems False show ?thesis by (simp add: step)
    qed
  qed
qed

lemma headRunesThatFit_longest_tail:
  "headRunesThatFit t budget est \<le> length (runes_of t) \<and>
   (headRunesThatFit t budget est < length (runes_of t) \<longrightarrow>
      est (string_of_runes (drop (headRunesThatFit t budget est) (runes_of t))) < budget) \<and>
   (\<forall>h < headRunesThatFit t budget est. budget \<le> est (string_of_runes (drop h (runes_of t))))"
proof -
  define n where "n = length (runes_of t)"
  define r where "r = tail_search est (runes_of t) budget 0 (int n) 0"
  have h: "headRunesThatFit t budget est = n - nat r"
    by (simp add: headRunesThatFit_def Let_def r_def n_def)
  have best: "0 \<le> r" "r \<le> int n"
    "r = 0 \<or> est (string_of_runes (drop (n - nat r) (runes_of t))) < budget"
    "\<And>k. r < k \<Longrightarrow> k \<le> int n \<Longrightarrow> budget \<le> est (string_of_runes (drop (n - nat k) (runes_of t)))"
    using tail_search_longest [of 0 "int n" "runes_of t" 0 budget] by (simp_all add: r_def n_def)
  have "budget \<le> est (string_of_runes (drop j (runes_of t)))" if "j < n - nat r" for j
  proof -
    have "r < int (n - j)" "int (n - j) \<le> int n" using that best(1,2) by linarith+
    moreover have "n - nat (int (n - j)) = j" using that by linarith
    ultimately show ?thesis using best(4) [of "int (n - j)"] by metis
  qed
  with best h show ?thesis by (auto simp flip: n_def)
qed

end

text \<open>
  The boundary segment is divided exactly and as late as the budget allows. The head of
  \<open>headRunesThatFit\<close> runes and the retained tail \<open>tailRunes\<close> together are the segment's
  text; a non-empty tail measures below the budget; and no shorter head leaves a tail below
  it. (The measure is the chars-per-token estimate, and the text is valid UTF-8.)
\<close>

lemma headRunesThatFit_exact_division:
  assumes "valid_utf8 t" and "est = Estimate codec (HeuristicCounter ratio)"
    and "headRunesThatFit t budget est = h"
  shows "string_of_runes (take h (runes_of t)) @ tailRunes t h = t \<and>
    (tailRunes t h = [] \<or> est (tailRunes t h) < budget) \<and>
    (\<forall>h' < h. budget \<le> est (tailRunes t h'))"
proof -
  have eq: "est = heuristic_estimate ratio" unfolding assms(2) by (rule ext) simp
  note best = heuristic_mono.headRunesThatFit_longest_tail [of t budget ratio, folded eq,
      unfolded assms(3)]
  have tail: "tailRunes t k = string_of_runes (drop k (runes_of t))" for k
    using assms(1) by (simp add: tailRunes_def Let_def)
  have "string_of_runes (take h (runes_of t)) @ string_of_runes (drop h (runes_of t)) = t"
    using string_of_runes_simps(3) [of "take h (runes_of t)" "drop h (runes_of t)"] assms(1) by simp
  then show ?thesis
    using best unfolding tail by (cases "h < length (runes_of t)") auto
qed

lemma headRunesThatFit_exact_division_witness:
  "string_of_runes (take 4 (runes_of ''abcdefghij'')) @ tailRunes ''abcdefghij'' 4 = ''abcdefghij''"
proof -
  have v: "valid_utf8 ''abcdefghij''" by code_simp
  have h: "headRunesThatFit ''abcdefghij'' 4 (Estimate (\<lambda>_. None) (HeuristicCounter 2)) = 4"
    by code_simp
  show ?thesis
    using headRunesThatFit_exact_division [OF v refl h] by blast
qed

section \<open>Recovering unframed transcripts\<close>

lemma match_candidates_found:
  "0 < n \<Longrightarrow> snd (match_candidates cs found n) = n \<longleftrightarrow> set cs \<subseteq> {found}"
  "0 < n \<Longrightarrow> n \<le> snd (match_candidates cs found n)"
  "0 < n \<Longrightarrow> snd (match_candidates cs found n) = n \<Longrightarrow> fst (match_candidates cs found n) = found"
proof (induction cs found n rule: match_candidates.induct)
  case (2 c rest found n)
  {
    case 1
    then show ?case using "2.IH"(1,4,5) by (cases "found = c") (auto dest: Suc_leD)
  next
    case 2
    then show ?case using "2.IH"(2,5) by (cases "found = c") (auto dest: Suc_leD)
  next
    case 3
    then show ?case using "2.IH"(3,5) by (cases "found = c") (auto dest: Suc_leD)
  }
qed simp_all

lemma match_candidates_singleton:
  "snd (match_candidates cs [] 0) = 1 \<and> fst (match_candidates cs [] 0) = c \<longleftrightarrow> set cs = {c}"
proof (cases cs)
  case (Cons d rest)
  have "snd (match_candidates rest d 1) = 1 \<and> fst (match_candidates rest d 1) = c
      \<longleftrightarrow> set rest \<subseteq> {d} \<and> d = c"
    using match_candidates_found(1,3) [of 1 rest d] by auto
  also have "\<dots> \<longleftrightarrow> insert d (set rest) = {c}" by auto
  finally show ?thesis using Cons by simp
qed simp

text \<open>
  A text is the rendering of the conversation from segment \<open>j\<close> of message \<open>i\<close> on, when it
  is the message's heading, a non-blank tail of that segment (the whole of an atomic one up
  to surrounding space) and the rendering of everything after it.
\<close>

definition is_rendering :: "ParsedRequest \<Rightarrow> bytes \<Rightarrow> nat \<Rightarrow> nat \<Rightarrow> bytes \<Rightarrow> bool" where
  "is_rendering request t i j tail \<longleftrightarrow>
     RetainStart request \<le> int i \<and> int i < InstructionStart request \<and>
     j < length (Message_Segments (Messages request ! i)) \<and>
     (let m = Messages request ! i; segment = Message_Segments m ! j in
      t = unframedHeadingPrefix @ unframedHeading (Message_Role m) @ unframedSeparator @ tail
            @ renderUnframed request i (j + 1) True \<and>
      trim_space tail \<noteq> [] \<and> suffix tail (Request_Text segment) \<and>
      (Atomic segment \<longrightarrow> trim_space tail = trim_space (Request_Text segment)))"

lemma unframedTails_iff:
  assumes "RetainStart request \<le> int i" "int i < InstructionStart request"
    "j < length (Message_Segments (Messages request ! i))"
  shows "tail \<in> set (unframedTails request i j (Message_Segments (Messages request ! i) ! j) t)
    \<longleftrightarrow> is_rendering request t i j tail"
proof -
  define heading where "heading = unframedHeadingPrefix @
      unframedHeading (Message_Role (Messages request ! i)) @ unframedSeparator"
  define following where "following = renderUnframed request i (j + 1) True"
  have t: "t = heading @ tail @ following \<longleftrightarrow>
      prefix heading t \<and> suffix following (drop (length heading) t) \<and>
      tail = take (length (drop (length heading) t) - length following) (drop (length heading) t)"
    by (auto simp: prefix_def suffix_def)
  have h: "unframedHeadingPrefix @ unframedHeading (Message_Role (Messages request ! i)) @
      unframedSeparator @ tail @ following = heading @ tail @ following" by (simp add: heading_def)
  show ?thesis
    using assms
    unfolding unframedTails_def is_rendering_def Let_def heading_def [symmetric]
      following_def [symmetric] h t
    by (auto simp: cut_prefix_def trim_suffix_def go_string)
qed

lemma set_unframed_candidates:
  assumes "0 \<le> RetainStart request"
  shows "set (unframed_candidates request t) =
    {unframedSegments request i j tail | i j tail. is_rendering request t i j tail}"
proof -
  have "segs \<in> set (unframed_candidates request t) \<longleftrightarrow>
      (\<exists>i j tail. is_rendering request t i j tail \<and> segs = unframedSegments request i j tail)" for segs
  proof
    assume "segs \<in> set (unframed_candidates request t)"
    then obtain i j role segment tail where
      p: "(i, j, role, segment) \<in> set (counted_segments request (nat (RetainStart request)))"
        "tail \<in> set (unframedTails request i j segment t)" "segs = unframedSegments request i j tail"
      by (auto simp: unframed_candidates_def)
    then have "RetainStart request \<le> int i" "int i < InstructionStart request"
      "j < length (Message_Segments (Messages request ! i))"
      "segment = Message_Segments (Messages request ! i) ! j"
      by (simp_all add: set_counted_segments) linarith+
    then have "is_rendering request t i j tail" using unframedTails_iff p(2) by blast
    with p(3) show "\<exists>i j tail. is_rendering request t i j tail \<and> segs = unframedSegments request i j tail"
      by blast
  next
    assume "\<exists>i j tail. is_rendering request t i j tail \<and> segs = unframedSegments request i j tail"
    then obtain i j tail where r: "is_rendering request t i j tail" "segs = unframedSegments request i j tail"
      by blast
    define segment where "segment = Message_Segments (Messages request ! i) ! j"
    have b: "RetainStart request \<le> int i" "int i < InstructionStart request"
      "j < length (Message_Segments (Messages request ! i))"
      using r(1) by (simp_all add: is_rendering_def)
    have "(i, j, Message_Role (Messages request ! i), segment)
        \<in> set (counted_segments request (nat (RetainStart request)))"
      using b by (simp add: set_counted_segments segment_def zless_nat_eq_int_zless nat_le_iff)
    moreover have "tail \<in> set (unframedTails request i j segment t)"
      unfolding segment_def using unframedTails_iff [OF b] r(1) by blast
    ultimately show "segs \<in> set (unframed_candidates request t)"
      unfolding unframed_candidates_def r(2) by force
  qed
  then show ?thesis by blast
qed

text \<open>
  C27. \<open>ReconstructUnframedTranscript\<close> gives typed segments exactly when the unframed text
  determines them: some segment of the counted region starts a rendering equal to the text,
  and all such starts give the same segments.
\<close>

theorem ReconstructUnframedTranscript_iff_unique:
  assumes "0 \<le> RetainStart request" and "InstructionStart request \<le> int (length (Messages request))"
  shows "ReconstructUnframedTranscript request t = Returns (Some segs) \<longleftrightarrow>
    {unframedSegments request i j tail | i j tail. is_rendering request t i j tail} = {segs}"
proof -
  let ?cs = "unframed_candidates request t"
  have "ReconstructUnframedTranscript request t = Returns (Some segs) \<longleftrightarrow>
      snd (match_candidates ?cs [] 0) = 1 \<and> fst (match_candidates ?cs [] 0) = segs"
    using assms by (simp add: ReconstructUnframedTranscript_def split_beta)
  also have "\<dots> \<longleftrightarrow> set ?cs = {segs}"
    by (rule match_candidates_singleton)
  finally show ?thesis by (simp add: set_unframed_candidates [OF assms(1)])
qed

theorem ReconstructUnframedTranscript_iff_unique_witness:
  "{unframedSegments (one_message ''hello'') i j tail | i j tail.
      is_rendering (one_message ''hello'') (''### Assistant'' @ [newline, newline] @ ''lo'') i j tail} =
   {[\<lparr>Segment_Role = SegmentRoleAssistant, Segment_Kind = SegmentKindChat, Segment_Text = ''lo''\<rparr>]}"
proof -
  have "0 \<le> RetainStart (one_message ''hello'')"
    "InstructionStart (one_message ''hello'') \<le> int (length (Messages (one_message ''hello'')))"
    by (simp_all add: one_message_def)
  note iff = ReconstructUnframedTranscript_iff_unique [OF this]
  have "ReconstructUnframedTranscript (one_message ''hello'') (''### Assistant'' @ [newline, newline] @ ''lo'')
     = Returns (Some [\<lparr>Segment_Role = SegmentRoleAssistant, Segment_Kind = SegmentKindChat,
         Segment_Text = ''lo''\<rparr>])" by code_simp
  then show ?thesis unfolding iff .
qed

end
