(* ===== verification/Livetrack_Registry.thy ===== *)
theory Livetrack_Registry
  imports Go_Prelude "HOL-Library.AList" "HOL-Library.Multiset" "HOL-Library.Monad_Syntax"
begin

text \<open>
  Package \<open>internal/livetrack\<close>: the session registry (\<open>registry.go\<close>), the parent index
  (\<open>parent.go\<close>), the closer fan-out (\<open>closer.go\<close>) and the drain pipeline (\<open>drain.go\<close>).
  A Go map is an association list with distinct keys, in the order an iteration visits it;
  nothing below depends on that order. Times are nanoseconds. Log records are left out.

  A closer is given by what its \<open>Close\<close> does when called: return, return an error, panic,
  or never return. What owners do while a drain waits is an explicit list of events.
\<close>

section \<open>Sessions and registries\<close>

datatype State = StateOpen | StateDraining | StateForcing | StateClosed

datatype close_outcome = CloseReturns | CloseFails bytes | ClosePanics | CloseHangs

record 'm session =
  ID :: bytes
  ParentID :: bytes
  Kind :: bytes
  OpenedAt :: int
  Meta :: 'm
  LastActivity :: int
  Closer :: "close_outcome option"

text \<open>
  The \<open>released\<close> flag lives in a session's own state and outlives its entry in the map, so
  the registry model keeps the set of released session IDs.
\<close>

record 'm registry =
  state :: State
  closerGrace :: int
  pollEvery :: int
  sessions :: "(bytes \<times> 'm session) list"
  parents :: "(bytes \<times> bytes list) list"
  released :: "bytes set"

definition defaultPollEvery :: int where "defaultPollEvery = 50 * 1000000"
definition defaultCloserGrace :: int where "defaultCloserGrace = 2 * 1000000000"

definition newRegistry :: "int \<Rightarrow> int \<Rightarrow> 'm registry" where
  "newRegistry poll grace =
     \<lparr>state = StateOpen,
      closerGrace = (if grace \<le> 0 then defaultCloserGrace else grace),
      pollEvery = (if poll \<le> 0 then defaultPollEvery else poll),
      sessions = [], parents = [], released = {}\<rparr>"

definition Touch :: "int \<Rightarrow> 'm session \<Rightarrow> 'm session" where
  "Touch now s = s\<lparr>LastActivity := now\<rparr>"

definition IdleSince :: "'m session \<Rightarrow> int \<Rightarrow> int" where
  "IdleSince s now = now - LastActivity s"

text \<open>Reading a missing key of a Go map of slices gives the nil slice.\<close>

definition index_get :: "(bytes \<times> bytes list) list \<Rightarrow> bytes \<Rightarrow> bytes list" where
  "index_get ps k = (case map_of ps k of None \<Rightarrow> [] | Some cs \<Rightarrow> cs)"

section \<open>Registering and releasing\<close>

text \<open>
  The identifier is an argument: the source draws sixteen random bytes. \<open>None\<close> is
  \<open>ErrRegistryClosed\<close>.
\<close>

definition Register ::
    "bytes \<Rightarrow> int \<Rightarrow> bytes \<Rightarrow> 'm \<Rightarrow> close_outcome option \<Rightarrow> bytes \<Rightarrow> 'm registry \<Rightarrow>
     ('m session \<times> 'm registry) option" where
  "Register new_id now kind meta closer parentID r =
     (if state r \<noteq> StateOpen then None
      else let sess = \<lparr>ID = new_id, ParentID = parentID, Kind = kind, OpenedAt = now, Meta = meta,
                       LastActivity = now, Closer = closer\<rparr>;
               siblings = index_get (parents r) parentID
           in Some (sess,
                r\<lparr>sessions := AList.update new_id sess (sessions r),
                  parents := (if parentID = [] then parents r
                              else AList.update parentID (siblings @ [new_id]) (parents r))\<rparr>))"

text \<open>The removal of one session from both maps, which the source repeats in four places.\<close>

definition unlink :: "'m session \<Rightarrow> 'm registry \<Rightarrow> 'm registry" where
  "unlink s r =
     (let filtered = filter (\<lambda>child. child \<noteq> ID s) (index_get (parents r) (ParentID s))
      in r\<lparr>sessions := AList.delete (ID s) (sessions r),
           parents := (if ParentID s = [] then parents r
                       else if filtered = [] then AList.delete (ParentID s) (parents r)
                       else AList.update (ParentID s) filtered (parents r))\<rparr>)"

definition Release :: "'m session \<Rightarrow> 'm registry \<Rightarrow> 'm registry" where
  "Release s r =
     (if ID s \<in> released r then r
      else unlink s (r\<lparr>released := insert (ID s) (released r)\<rparr>))"

section \<open>Reading\<close>

definition Snapshot :: "'m registry \<Rightarrow> 'm session list" where
  "Snapshot r = map (\<lambda>(k, s). s\<lparr>Closer := None\<rparr>) (sessions r)"

definition Count :: "'m registry \<Rightarrow> nat" where
  "Count r = length (sessions r)"

definition ActiveCount :: "int \<Rightarrow> int \<Rightarrow> 'm registry \<Rightarrow> nat" where
  "ActiveCount now grace r =
     length (filter (\<lambda>(k, s). grace \<le> 0 \<or> IdleSince s now \<le> grace) (sessions r))"

definition CountByPredicate :: "('m session \<Rightarrow> bool) \<Rightarrow> 'm registry \<Rightarrow> nat" where
  "CountByPredicate p r = length (filter (\<lambda>(k, s). p (s\<lparr>Closer := None\<rparr>)) (sessions r))"

definition ChildrenOf :: "bytes \<Rightarrow> 'm registry \<Rightarrow> bytes list" where
  "ChildrenOf parentID r =
     (if parentID = [] then [] else index_get (parents r) parentID)"

text \<open>
  The breadth-first walk of \<open>DescendantsOf\<close>: the inner loop over the children of one
  session, and the loop over the queue. A child enters the queue only when it is marked as
  visited for the first time, so the measure counts the unvisited children of the index.
\<close>

fun visit_children :: "bytes list \<Rightarrow> bytes list \<Rightarrow> bytes set \<Rightarrow> bytes list \<Rightarrow> bytes list \<times> bytes set \<times> bytes list" where
  "visit_children [] queue visited out = (queue, visited, out)"
| "visit_children (child # children) queue visited out =
     (if child \<in> visited then visit_children children queue visited out
      else visit_children children (queue @ [child]) (insert child visited) (out @ [child]))"

definition all_children :: "(bytes \<times> bytes list) list \<Rightarrow> bytes set" where
  "all_children ps = (\<Union>(k, cs) \<in> set ps. set cs)"

lemma visit_children_spec:
  "visit_children cs queue visited out = (queue', visited', out') \<Longrightarrow>
   \<exists>new. queue' = queue @ new \<and> out' = out @ new \<and> visited' = visited \<union> set new \<and>
     distinct new \<and> set new = set cs - visited"
proof (induction cs arbitrary: queue visited out)
  case Nil
  then show ?case by simp
next
  case (Cons child cs)
  show ?case
  proof (cases "child \<in> visited")
    case True
    with Cons.prems Cons.IH [of queue visited out] show ?thesis by auto
  next
    case False
    with Cons.prems Cons.IH [of "queue @ [child]" "insert child visited" "out @ [child]"]
    obtain new where "queue' = (queue @ [child]) @ new" "out' = (out @ [child]) @ new"
      "visited' = insert child visited \<union> set new" "distinct new"
      "set new = set cs - insert child visited" by auto
    with False show ?thesis by (intro exI [of _ "child # new"]) auto
  qed
qed

lemma finite_all_children [simp]: "finite (all_children ps)"
  by (auto simp: all_children_def)

lemma children_subset: "set (index_get ps k) \<subseteq> all_children ps"
  by (cases "map_of ps k") (auto simp: all_children_def index_get_def dest!: map_of_SomeD)

function walk :: "(bytes \<times> bytes list) list \<Rightarrow> bytes list \<Rightarrow> bytes set \<Rightarrow> bytes list \<Rightarrow> bytes list" where
  "walk ps queue visited out =
     (case queue of
        [] \<Rightarrow> out
      | current # rest \<Rightarrow>
          (case visit_children (index_get ps current) rest visited out of
             (queue', visited', out') \<Rightarrow> walk ps queue' visited' out'))"
  by pat_completeness auto
termination
proof (relation "measures [\<lambda>(ps, queue, visited, out). card (all_children ps - visited),
    \<lambda>(ps, queue, visited, out). length queue]", simp)
  fix ps :: "(bytes \<times> bytes list) list" and queue visited out current rest queue' y visited' out'
  let ?cs = "index_get ps current"
  assume q: "queue = current # rest" and "(queue', y) = visit_children ?cs rest visited out"
    "(visited', out') = y"
  then have "visit_children ?cs rest visited out = (queue', visited', out')" by simp
  from visit_children_spec [OF this] obtain new where new: "queue' = rest @ new"
    "visited' = visited \<union> set new" "set new = set ?cs - visited" by blast
  have sub: "set new \<subseteq> all_children ps"
    using new(3) children_subset [of ps current] by auto
  show "((ps, queue', visited', out'), ps, queue, visited, out)
    \<in> measures [\<lambda>(ps, queue, visited, out). card (all_children ps - visited),
        \<lambda>(ps, queue, visited, out). length queue]"
  proof (cases "new = []")
    case True
    with new q show ?thesis by simp
  next
    case False
    then obtain c where "c \<in> set new" by (cases new) auto
    with sub new(2,3) have "all_children ps - visited' \<subset> all_children ps - visited" by auto
    then have "card (all_children ps - visited') < card (all_children ps - visited)"
      by (intro psubset_card_mono) simp_all
    then show ?thesis by simp
  qed
qed

declare walk.simps [simp del]

definition DescendantsOf :: "bytes \<Rightarrow> 'm registry \<Rightarrow> bytes list" where
  "DescendantsOf parentID r =
     (if parentID = [] then [] else walk (parents r) [parentID] {} [])"

section \<open>Closing\<close>

datatype closer_error =
    CloserFailed bytes | CloserPanic bytes | CloserExceededGrace bytes int | CloserAborted bytes

text \<open>
  \<open>runCloserBounded\<close>: \<open>None\<close> is a call that never returns, which needs a hanging closer and
  no grace period; \<open>Some None\<close> is the nil error.
\<close>

fun close_result :: "int \<Rightarrow> bytes \<Rightarrow> close_outcome \<Rightarrow> closer_error option option" where
  "close_result grace sid CloseReturns = Some None"
| "close_result grace sid (CloseFails e) = Some (Some (CloserFailed e))"
| "close_result grace sid ClosePanics = Some (Some (CloserPanic sid))"
| "close_result grace sid CloseHangs =
     (if grace \<le> 0 then None else Some (Some (CloserExceededGrace sid grace)))"

definition runCloserBounded :: "int \<Rightarrow> 'm session \<Rightarrow> closer_error option option" where
  "runCloserBounded grace sess =
     (case Closer sess of None \<Rightarrow> Some None | Some c \<Rightarrow> close_result grace (ID sess) c)"

fun runCloserSequential :: "bool \<Rightarrow> int \<Rightarrow> 'm session list \<Rightarrow> closer_error list option" where
  "runCloserSequential expired grace [] = Some []"
| "runCloserSequential expired grace (entry # entries) =
     (if expired then map_option (\<lambda>errs. CloserAborted (ID entry) # errs)
                        (runCloserSequential expired grace entries)
      else case runCloserBounded grace entry of
             None \<Rightarrow> None
           | Some e \<Rightarrow> map_option (\<lambda>errs. (case e of None \<Rightarrow> [] | Some err \<Rightarrow> [err]) @ errs)
                         (runCloserSequential expired grace entries))"

text \<open>
  The workers of \<open>runCloserParallel\<close> take every entry from one channel and send the errors
  to another; \<open>schedule\<close> is the order in which the entries are finished.
\<close>

definition closerFanOut ::
    "('m session list \<Rightarrow> 'm session list) option \<Rightarrow> bool \<Rightarrow> int \<Rightarrow> 'm session list \<Rightarrow> closer_error list option" where
  "closerFanOut par expired grace entries =
     (if entries = [] then Some []
      else case par of
             None \<Rightarrow> runCloserSequential expired grace entries
           | Some schedule \<Rightarrow> runCloserSequential expired grace (schedule entries))"

definition unlink_all :: "'m session list \<Rightarrow> 'm registry \<Rightarrow> 'm registry" where
  "unlink_all ss r = fold unlink ss r"

definition mark_released :: "'m session list \<Rightarrow> 'm registry \<Rightarrow> 'm registry" where
  "mark_released ss r = r\<lparr>released := released r \<union> set (map ID ss)\<rparr>"

fun close_each :: "int \<Rightarrow> 'm session list \<Rightarrow> 'm registry \<Rightarrow> 'm registry option" where
  "close_each grace [] r = Some r"
| "close_each grace (s # ss) r =
     (case runCloserBounded grace s of
        None \<Rightarrow> None
      | Some _ \<Rightarrow> close_each grace ss (mark_released [s] r))"

definition ForceCloseMatching :: "('m session \<Rightarrow> bool) \<Rightarrow> 'm registry \<Rightarrow> (nat \<times> 'm registry) option" where
  "ForceCloseMatching p r =
     (let matched = filter (\<lambda>s. p (s\<lparr>Closer := None\<rparr>)) (map snd (sessions r))
      in map_option (Pair (length matched))
           (close_each (closerGrace r) matched (unlink_all matched r)))"

section \<open>Draining\<close>

record DrainResult =
  Reason :: bytes
  Final :: State
  Remaining :: nat
  ForceClosed :: nat
  Errors :: "closer_error list"

definition snapshotIdleEntries :: "int \<Rightarrow> int \<Rightarrow> 'm registry \<Rightarrow> 'm session list \<times> 'm registry" where
  "snapshotIdleEntries now grace r =
     (let idle = filter (\<lambda>s. \<not> IdleSince s now \<le> grace) (map snd (sessions r))
      in (idle, unlink_all idle r))"

definition snapshotEntriesForForce :: "'m registry \<Rightarrow> 'm session list \<times> 'm registry" where
  "snapshotEntriesForForce r = (map snd (sessions r), r\<lparr>sessions := [], parents := []\<rparr>)"

definition runIdleGraceFastPath ::
    "('m session list \<Rightarrow> 'm session list) option \<Rightarrow> int \<Rightarrow> int \<Rightarrow> 'm registry \<Rightarrow>
     (nat \<times> closer_error list \<times> 'm registry) option" where
  "runIdleGraceFastPath par now idleGrace r =
     (if idleGrace \<le> 0 then Some (0, [], r)
      else let (idle, r') = snapshotIdleEntries now idleGrace r in
        if idle = [] then Some (0, [], r')
        else map_option (\<lambda>errs. (length idle, errs, mark_released idle r'))
               (closerFanOut par False (closerGrace r) idle))"

text \<open>
  What happens while \<open>waitForIdle\<close> waits: owners release sessions, then either the ticker or
  the deadline fires. \<open>None\<close> means the wait has not ended with these events.
\<close>

datatype 'm wait_event = Tick "'m session list" | Deadline "'m session list"

fun wait_loop :: "'m wait_event list \<Rightarrow> 'm registry \<Rightarrow> (nat \<times> 'm registry) option" where
  "wait_loop [] r = None"
| "wait_loop (Deadline ss # events) r = (let r' = fold Release ss r in Some (Count r', r'))"
| "wait_loop (Tick ss # events) r =
     (let r' = fold Release ss r in
      if Count r' = 0 then Some (0, r') else wait_loop events r')"

definition waitForIdle :: "'m wait_event list \<Rightarrow> 'm registry \<Rightarrow> (nat \<times> 'm registry) option" where
  "waitForIdle events r = (if Count r = 0 then Some (0, r) else wait_loop events r)"

definition drainWith ::
    "('m session list \<Rightarrow> 'm session list) option \<Rightarrow> int \<Rightarrow> int \<Rightarrow> 'm wait_event list \<Rightarrow> bytes \<Rightarrow>
     'm registry \<Rightarrow> (DrainResult \<times> 'm registry) option" where
  "drainWith par now idleGrace events reason r =
     (if state r \<noteq> StateOpen
      then Some (\<lparr>Reason = ''already_draining'', Final = state r, Remaining = Count r,
                  ForceClosed = 0, Errors = []\<rparr>, r)
      else do {
        (idleClosed, idleErrs, r1) \<leftarrow>
          runIdleGraceFastPath par now idleGrace (r\<lparr>state := StateDraining\<rparr>);
        (remaining, r2) \<leftarrow> waitForIdle events r1;
        if remaining = 0
        then Some (\<lparr>Reason = reason, Final = StateClosed, Remaining = 0,
                    ForceClosed = idleClosed, Errors = idleErrs\<rparr>, r2\<lparr>state := StateClosed\<rparr>)
        else do {
          let (entries, r3) = snapshotEntriesForForce (r2\<lparr>state := StateForcing\<rparr>);
          errs \<leftarrow> closerFanOut par False (closerGrace r) entries;
          Some (\<lparr>Reason = reason, Final = StateClosed, Remaining = length entries,
                 ForceClosed = idleClosed + length entries, Errors = idleErrs @ errs\<rparr>,
                (mark_released entries r3)\<lparr>state := StateClosed\<rparr>)
        }
      })"

section \<open>The invariant of the two maps\<close>

definition registry_ok :: "'m registry \<Rightarrow> bool" where
  "registry_ok r \<longleftrightarrow>
     distinct (map fst (sessions r)) \<and> distinct (map fst (parents r)) \<and>
     (\<forall>k s. map_of (sessions r) k = Some s \<longrightarrow> ID s = k) \<and>
     (\<forall>p cs. map_of (parents r) p = Some cs \<longrightarrow> p \<noteq> [] \<and> cs \<noteq> []) \<and>
     (\<forall>p. p \<noteq> [] \<longrightarrow> distinct (index_get (parents r) p) \<and>
        set (index_get (parents r) p) = {k. \<exists>s. map_of (sessions r) k = Some s \<and> ParentID s = p})"

text \<open>A handle agrees with the tracked session of its ID, if there still is one.\<close>

definition handle_ok :: "'m registry \<Rightarrow> 'm session \<Rightarrow> bool" where
  "handle_ok r s \<longleftrightarrow> (\<forall>t. map_of (sessions r) (ID s) = Some t \<longrightarrow> ParentID t = ParentID s)"

lemma index_get_update [simp]:
  "index_get (AList.update k cs ps) p = (if p = k then cs else index_get ps p)"
  by (simp add: index_get_def update_conv')

lemma index_get_delete [simp]:
  "index_get (AList.delete k ps) p = (if p = k then [] else index_get ps p)"
  by (simp add: index_get_def delete_conv')

lemma unlink_sessions [simp]:
  "map_of (sessions (unlink s r)) = (map_of (sessions r))(ID s := None)"
  by (simp add: unlink_def Let_def delete_conv')

lemma unlink_index [simp]:
  "index_get (parents (unlink s r)) p =
     (if p = ParentID s \<and> p \<noteq> [] then filter (\<lambda>c. c \<noteq> ID s) (index_get (parents r) p)
      else index_get (parents r) p)"
  by (auto simp: unlink_def Let_def)

lemma unlink_fields [simp]:
  "state (unlink s r) = state r" "released (unlink s r) = released r"
  "closerGrace (unlink s r) = closerGrace r"
  by (simp_all add: unlink_def Let_def)

lemma unlink_keys:
  "distinct (map fst (sessions r)) \<Longrightarrow> distinct (map fst (sessions (unlink s r)))"
  "distinct (map fst (parents r)) \<Longrightarrow> distinct (map fst (parents (unlink s r)))"
  by (auto simp: unlink_def Let_def distinct_delete distinct_update)

lemma unlink_parents_Some:
  assumes "\<forall>p cs. map_of (parents r) p = Some cs \<longrightarrow> p \<noteq> [] \<and> cs \<noteq> []"
    "map_of (parents (unlink s r)) p = Some cs"
  shows "p \<noteq> [] \<and> cs \<noteq> []"
  using assms by (auto simp: unlink_def Let_def delete_conv' update_conv' split: if_splits)

lemma registry_okI:
  assumes "distinct (map fst (sessions r))" "distinct (map fst (parents r))"
    "\<And>k s. map_of (sessions r) k = Some s \<Longrightarrow> ID s = k"
    "\<And>p cs. map_of (parents r) p = Some cs \<Longrightarrow> p \<noteq> [] \<and> cs \<noteq> []"
    "\<And>p. p \<noteq> [] \<Longrightarrow> distinct (index_get (parents r) p)"
    "\<And>p. p \<noteq> [] \<Longrightarrow>
       set (index_get (parents r) p) = {k. \<exists>s. map_of (sessions r) k = Some s \<and> ParentID s = p}"
  shows "registry_ok r"
  using assms unfolding registry_ok_def by simp

lemma registry_okD:
  assumes "registry_ok r"
  shows "distinct (map fst (sessions r))" "distinct (map fst (parents r))"
    "map_of (sessions r) k = Some s \<Longrightarrow> ID s = k"
    "map_of (parents r) p = Some cs \<Longrightarrow> p \<noteq> [] \<and> cs \<noteq> []"
    "p \<noteq> [] \<Longrightarrow> distinct (index_get (parents r) p)"
    "p \<noteq> [] \<Longrightarrow>
       set (index_get (parents r) p) = {k. \<exists>s. map_of (sessions r) k = Some s \<and> ParentID s = p}"
  using assms unfolding registry_ok_def by simp_all

lemma unlink_ok:
  assumes "registry_ok r" "handle_ok r s"
  shows "registry_ok (unlink s r)"
proof (rule registry_okI)
  fix p :: bytes assume p: "p \<noteq> []"
  show "distinct (index_get (parents (unlink s r)) p)"
    using registry_okD(5) [OF assms(1) p] by auto
  show "set (index_get (parents (unlink s r)) p) =
      {k. \<exists>t. map_of (sessions (unlink s r)) k = Some t \<and> ParentID t = p}"
    using registry_okD(6) [OF assms(1) p] assms(2) p by (auto simp: handle_ok_def)
next
  fix k t assume "map_of (sessions (unlink s r)) k = Some t"
  then show "ID t = k" using registry_okD(3) [OF assms(1)] by (simp split: if_splits)
next
  fix p cs assume "map_of (parents (unlink s r)) p = Some cs"
  with unlink_parents_Some registry_okD(4) [OF assms(1)] show "p \<noteq> [] \<and> cs \<noteq> []" by blast
qed (use unlink_keys registry_okD [OF assms(1)] in auto)

lemma register_ok:
  assumes "registry_ok r" "map_of (sessions r) new_id = None"
    "Register new_id now kind meta c parentID r = Some (s, r')"
  shows "registry_ok r'"
proof -
  have s: "ID s = new_id" "ParentID s = parentID"
    and tracked: "map_of (sessions r') = (map_of (sessions r))(new_id \<mapsto> s)"
    and r': "sessions r' = AList.update new_id s (sessions r)"
      "parents r' = (if parentID = [] then parents r
         else AList.update parentID (index_get (parents r) parentID @ [new_id]) (parents r))"
    using assms(3) by (auto simp: Register_def Let_def update_conv' split: if_splits)
  have fresh: "new_id \<notin> set (index_get (parents r) p)" if "p \<noteq> []" for p
    using registry_okD(6) [OF assms(1) that] assms(2) by auto
  show ?thesis
  proof (rule registry_okI)
    fix p :: bytes assume p: "p \<noteq> []"
    show "distinct (index_get (parents r') p)"
      using registry_okD(5) [OF assms(1) p] fresh [OF p] by (auto simp: r')
    show "set (index_get (parents r') p) =
        {k. \<exists>t. map_of (sessions r') k = Some t \<and> ParentID t = p}"
      using registry_okD(6) [OF assms(1) p] p assms(2) s(2) unfolding tracked by (auto simp: r')
  next
    fix k t assume "map_of (sessions r') k = Some t"
    then show "ID t = k" using registry_okD(3) [OF assms(1)] s(1)
      unfolding tracked by (auto split: if_splits)
  next
    fix p cs assume "map_of (parents r') p = Some cs"
    then show "p \<noteq> [] \<and> cs \<noteq> []"
      using registry_okD(4) [OF assms(1)] by (auto simp: r' update_conv' split: if_splits)
  qed (use registry_okD [OF assms(1)] in \<open>auto simp: r' distinct_update\<close>)
qed

section \<open>Removing many sessions\<close>

text \<open>
  What the drain and the owners rely on: one removal takes one key out of the tracked
  sessions, keeps the invariant, and keeps every handle in agreement.
\<close>

locale session_inventory =
  fixes tracked :: "'r \<Rightarrow> 'k \<rightharpoonup> 's" and remove :: "'s \<Rightarrow> 'r \<Rightarrow> 'r" and key :: "'s \<Rightarrow> 'k"
    and ok :: "'r \<Rightarrow> bool" and agrees :: "'r \<Rightarrow> 's \<Rightarrow> bool"
  assumes tracked_remove: "ok r \<Longrightarrow> tracked (remove s r) = (tracked r)(key s := None)"
    and ok_remove: "ok r \<Longrightarrow> agrees r s \<Longrightarrow> ok (remove s r)"
    and agrees_remove: "ok r \<Longrightarrow> agrees r t \<Longrightarrow> agrees (remove s r) t"
begin

lemma remove_all:
  "ok r \<Longrightarrow> (\<And>s. s \<in> set ss \<Longrightarrow> agrees r s) \<Longrightarrow>
   ok (fold remove ss r) \<and> tracked (fold remove ss r) = tracked r |` (- key ` set ss)"
proof (induction ss arbitrary: r)
  case Nil
  then show ?case by (simp add: restrict_map_def)
next
  case (Cons s ss)
  have "ok (remove s r)" using Cons.prems ok_remove by simp
  moreover have "agrees (remove s r) t" if "t \<in> set ss" for t
    using Cons.prems that agrees_remove by simp
  ultimately show ?case
    using Cons.IH [of "remove s r"] tracked_remove [OF Cons.prems(1), of s]
    by (auto simp: restrict_map_def fun_eq_iff)
qed

lemma agrees_remove_all:
  "ok r \<Longrightarrow> (\<And>s. s \<in> set ss \<Longrightarrow> agrees r s) \<Longrightarrow> agrees r t \<Longrightarrow> agrees (fold remove ss r) t"
  by (induction ss arbitrary: r) (simp_all add: ok_remove agrees_remove)

lemma remove_everything:
  assumes "ok r" "\<And>s. s \<in> set ss \<Longrightarrow> agrees r s" "dom (tracked r) \<subseteq> key ` set ss"
  shows "tracked (fold remove ss r) = Map.empty"
proof -
  have t: "tracked (fold remove ss r) = tracked r |` (- key ` set ss)"
    using remove_all [of r ss] assms(1,2) by simp
  have "(tracked r |` (- key ` set ss)) k = None" for k
    using domI [of "tracked r" k] subsetD [OF assms(3), of k]
    by (cases "tracked r k") (auto simp: restrict_map_def)
  then show ?thesis unfolding t by (simp add: fun_eq_iff)
qed

end

definition registry_inv :: "'m registry \<Rightarrow> bool" where
  "registry_inv r \<longleftrightarrow> registry_ok r \<and> (\<forall>k \<in> released r. map_of (sessions r) k = None)"

interpretation unlinking: session_inventory "\<lambda>r. map_of (sessions r)" unlink ID registry_inv handle_ok
  by unfold_locales (auto simp: registry_inv_def handle_ok_def unlink_ok)

lemma Release_sessions:
  "registry_inv r \<Longrightarrow> map_of (sessions (Release s r)) = (map_of (sessions r))(ID s := None)"
  by (auto simp: registry_inv_def Release_def fun_eq_iff)

lemma released_ok [simp]:
  "registry_ok (r\<lparr>released := x\<rparr>) = registry_ok r" "registry_ok (r\<lparr>state := y\<rparr>) = registry_ok r"
  by (simp_all add: registry_ok_def)

lemma Release_inv: "registry_inv r \<Longrightarrow> handle_ok r s \<Longrightarrow> registry_inv (Release s r)"
  using unlink_ok [of "r\<lparr>released := insert (ID s) (released r)\<rparr>" s]
  by (auto simp: registry_inv_def Release_def handle_ok_def)

interpretation releasing: session_inventory "\<lambda>r. map_of (sessions r)" Release ID registry_inv handle_ok
  by unfold_locales (auto simp: Release_sessions Release_inv handle_ok_def)

section \<open>Taking sessions out\<close>

text \<open>
  The common effect of releasing, force-closing and draining: the sessions with the given
  keys are no longer tracked and are marked as released.
\<close>

definition takes_out :: "bytes set \<Rightarrow> 'm registry \<Rightarrow> 'm registry \<Rightarrow> bool" where
  "takes_out K r r' \<longleftrightarrow>
     registry_inv r' \<and> map_of (sessions r') = map_of (sessions r) |` (- K) \<and>
     released r' = released r \<union> K \<and> closerGrace r' = closerGrace r"

lemma takes_out_refl: "registry_inv r \<Longrightarrow> takes_out {} r r"
  by (simp add: takes_out_def restrict_map_def)

lemma takes_out_trans: "takes_out K r r' \<Longrightarrow> takes_out L r' r'' \<Longrightarrow> takes_out (K \<union> L) r r''"
  by (auto simp: takes_out_def restrict_map_def fun_eq_iff)

lemma takes_out_state:
  "takes_out K (r\<lparr>state := x\<rparr>) r' = takes_out K r r'"
  "takes_out K r (r'\<lparr>state := x\<rparr>) = takes_out K r r'"
  by (simp_all add: takes_out_def registry_inv_def)

lemma takes_out_handle: "takes_out K r r' \<Longrightarrow> handle_ok r s \<Longrightarrow> handle_ok r' s"
  by (auto simp: takes_out_def handle_ok_def restrict_map_def split: if_splits)

lemma tracked_session:
  "registry_ok r \<Longrightarrow> s \<in> snd ` set (sessions r) \<Longrightarrow> map_of (sessions r) (ID s) = Some s"
  using map_of_is_SomeI registry_okD(1,3) by fastforce

lemma fold_unlink_fields [simp]:
  "state (fold unlink ss r) = state r" "released (fold unlink ss r) = released r"
  "closerGrace (fold unlink ss r) = closerGrace r"
  by (induction ss arbitrary: r) simp_all

lemma mark_released_fields [simp]:
  "state (mark_released ss r) = state r" "sessions (mark_released ss r) = sessions r"
  "parents (mark_released ss r) = parents r" "closerGrace (mark_released ss r) = closerGrace r"
  "released (mark_released ss r) = released r \<union> ID ` set ss"
  by (simp_all add: mark_released_def)

lemma registry_inv_mark:
  "registry_inv (mark_released ss r) \<longleftrightarrow>
     registry_inv r \<and> (\<forall>s \<in> set ss. map_of (sessions r) (ID s) = None)"
  unfolding registry_inv_def mark_released_fields ball_Un
  by (simp add: mark_released_def)

lemma unlink_all_takes_out:
  assumes "registry_inv r" "set ss \<subseteq> snd ` set (sessions r)"
  shows "takes_out (ID ` set ss) r (mark_released ss (unlink_all ss r))"
proof -
  have h: "handle_ok r s" if "s \<in> set ss" for s
    using tracked_session [of r s] subsetD [OF assms(2) that] assms(1)
    by (simp add: registry_inv_def handle_ok_def)
  have "registry_inv (fold unlink ss r)"
    "map_of (sessions (fold unlink ss r)) = map_of (sessions r) |` (- ID ` set ss)"
    using unlinking.remove_all [OF assms(1), of ss] h by blast+
  then show ?thesis
    by (simp add: takes_out_def unlink_all_def registry_inv_mark restrict_map_def)
qed

lemma Release_fields [simp]:
  "state (Release s r) = state r" "closerGrace (Release s r) = closerGrace r"
  "released (Release s r) = insert (ID s) (released r)"
  by (auto simp: Release_def)

lemma fold_Release_fields [simp]:
  "state (fold Release ss r) = state r" "closerGrace (fold Release ss r) = closerGrace r"
  "released (fold Release ss r) = released r \<union> ID ` set ss"
  by (induction ss arbitrary: r) simp_all

lemma fold_Release_takes_out:
  assumes "registry_inv r" "\<And>s. s \<in> set ss \<Longrightarrow> handle_ok r s"
  shows "takes_out (ID ` set ss) r (fold Release ss r)"
  using releasing.remove_all [OF assms(1), of ss] assms(2) by (simp add: takes_out_def)

section \<open>Closers do not stop each other\<close>

definition closer_errors :: "int \<Rightarrow> 'm session list \<Rightarrow> closer_error list" where
  "closer_errors grace ss =
     concat (map (\<lambda>s. case runCloserBounded grace s of Some (Some e) \<Rightarrow> [e] | _ \<Rightarrow> []) ss)"

lemma runCloserBounded_returns: "0 < grace \<Longrightarrow> \<exists>e. runCloserBounded grace s = Some e"
  by (cases "Closer s"; cases "the (Closer s)") (auto simp: runCloserBounded_def)

lemma runCloserSequential_returns:
  "0 < grace \<Longrightarrow> runCloserSequential False grace ss = Some (closer_errors grace ss)"
proof (induction ss)
  case (Cons s ss)
  obtain e where "runCloserBounded grace s = Some e" using runCloserBounded_returns Cons.prems by blast
  with Cons show ?case by (cases e) (simp_all add: closer_errors_def)
qed (simp add: closer_errors_def)

lemma close_each_returns: "0 < grace \<Longrightarrow> close_each grace ss r = Some (mark_released ss r)"
proof (induction ss arbitrary: r)
  case (Cons s ss)
  obtain e where "runCloserBounded grace s = Some e" using runCloserBounded_returns Cons.prems by blast
  with Cons show ?case by (simp add: mark_released_def insert_commute)
qed (simp add: mark_released_def)

definition permutes_entries :: "('m session list \<Rightarrow> 'm session list) option \<Rightarrow> bool" where
  "permutes_entries par \<longleftrightarrow> (\<forall>schedule ss. par = Some schedule \<longrightarrow> mset (schedule ss) = mset ss)"

lemma closerFanOut_returns:
  assumes "0 < grace"
  shows "\<exists>errs. closerFanOut par False grace entries = Some errs"
  using runCloserSequential_returns [OF assms] by (auto simp: closerFanOut_def split: option.splits)

lemma mset_closer_errors:
  "mset ss = mset ts \<Longrightarrow> mset (closer_errors grace ss) = mset (closer_errors grace ts)"
  by (simp add: closer_errors_def mset_concat multiset.map_comp flip: sum_mset_sum_list)

text \<open>
  Every closer runs and every error is collected, in sequence or in parallel: with a
  positive grace period the fan-out returns, and its errors are, up to order, the errors of
  the single closers, so a closer that fails, panics or hangs does not keep another from
  running.
\<close>

lemma closerFanOut_collects_every_error:
  assumes "0 < grace" and "permutes_entries par"
  shows "\<exists>errs. closerFanOut par False grace entries = Some errs \<and>
    mset errs = (\<Sum>s \<in># mset entries. case runCloserBounded grace s of
       Some (Some e) \<Rightarrow> {#e#} | _ \<Rightarrow> {#})"
proof -
  have eq: "mset (closer_errors grace ss) = (\<Sum>s \<in># mset ss. case runCloserBounded grace s of
       Some (Some e) \<Rightarrow> {#e#} | _ \<Rightarrow> {#})" for ss
    by (induction ss) (auto simp: closer_errors_def split: option.splits)
  note seq = runCloserSequential_returns [OF assms(1)]
  show ?thesis
  proof (cases par)
    case None
    then have "closerFanOut par False grace entries = Some (closer_errors grace entries)"
      by (simp add: closerFanOut_def seq closer_errors_def)
    then show ?thesis unfolding eq [symmetric] by simp
  next
    case (Some schedule)
    with assms(2) have p: "mset (schedule entries) = mset entries" by (simp add: permutes_entries_def)
    then have "closerFanOut par False grace entries = Some (closer_errors grace (schedule entries))"
      using Some by (cases "entries = []") (auto simp: closerFanOut_def seq closer_errors_def)
    then show ?thesis
      unfolding eq [symmetric] using mset_closer_errors [OF p, of grace] by simp
  qed
qed

lemma closerFanOut_collects_every_error_witness:
  "\<exists>errs. closerFanOut (Some rev) False 5
     [\<lparr>ID = ''a'', ParentID = [], Kind = ''k'', OpenedAt = 0, Meta = (), LastActivity = 0,
       Closer = Some ClosePanics\<rparr>,
      \<lparr>ID = ''b'', ParentID = [], Kind = ''k'', OpenedAt = 0, Meta = (), LastActivity = 0,
       Closer = Some CloseHangs\<rparr>] = Some errs \<and>
     mset errs = {#CloserExceededGrace ''b'' 5, CloserPanic ''a''#}"
proof -
  have "permutes_entries (Some rev)" by (simp add: permutes_entries_def)
  from closerFanOut_collects_every_error [OF _ this, of 5
     "[\<lparr>ID = ''a'', ParentID = [], Kind = ''k'', OpenedAt = 0, Meta = (), LastActivity = 0,
       Closer = Some ClosePanics\<rparr>,
      \<lparr>ID = ''b'', ParentID = [], Kind = ''k'', OpenedAt = 0, Meta = (), LastActivity = 0,
       Closer = Some CloseHangs\<rparr>]"]
  show ?thesis by (simp add: runCloserBounded_def)
qed

section \<open>The life of a registry\<close>

text \<open>
  The registries that sequences of operations produce, together with the handles that
  \<open>Register\<close> has returned. Identifiers are fresh: the source draws sixteen random bytes.
\<close>

fun event_sessions :: "'m wait_event \<Rightarrow> 'm session list" where
  "event_sessions (Tick ss) = ss"
| "event_sessions (Deadline ss) = ss"

inductive lifetime :: "'m registry \<Rightarrow> 'm session set \<Rightarrow> bool" where
  life_new: "lifetime (newRegistry poll grace) {}"
| life_register:
    "lifetime r H \<Longrightarrow> new_id \<notin> ID ` H \<Longrightarrow>
     Register new_id now kind meta c parentID r = Some (s, r') \<Longrightarrow> lifetime r' (insert s H)"
| life_touch:
    "lifetime r H \<Longrightarrow> map_of (sessions r) k = Some s \<Longrightarrow>
     lifetime (r\<lparr>sessions := AList.update k (Touch now s) (sessions r)\<rparr>) H"
| life_release: "lifetime r H \<Longrightarrow> s \<in> H \<Longrightarrow> lifetime (Release s r) H"
| life_force: "lifetime r H \<Longrightarrow> ForceCloseMatching p r = Some (n, r') \<Longrightarrow> lifetime r' H"
| life_drain:
    "lifetime r H \<Longrightarrow> (\<And>e. e \<in> set events \<Longrightarrow> set (event_sessions e) \<subseteq> H) \<Longrightarrow>
     drainWith par now idleGrace events reason r = Some (result, r') \<Longrightarrow> lifetime r' H"

text \<open>What holds of every such registry, apart from its state.\<close>

definition life_inv :: "'m registry \<Rightarrow> 'm session set \<Rightarrow> bool" where
  "life_inv r H \<longleftrightarrow>
     registry_inv r \<and> (\<forall>s \<in> H. handle_ok r s) \<and>
     dom (map_of (sessions r)) = ID ` H - released r \<and> released r \<subseteq> ID ` H \<and> 0 < closerGrace r"

lemma life_inv_takes_out:
  assumes "life_inv r H" "takes_out K r r'" "K \<subseteq> ID ` H"
  shows "life_inv r' H"
proof -
  have "dom (map_of (sessions r')) = dom (map_of (sessions r)) - K"
    using assms(2) by (auto simp: takes_out_def restrict_map_def split: if_splits)
  then show ?thesis
    using assms takes_out_handle [OF assms(2)] by (auto simp: life_inv_def takes_out_def)
qed

lemma life_inv_state [simp]: "life_inv (r\<lparr>state := x\<rparr>) H = life_inv r H"
  by (simp add: life_inv_def registry_inv_def handle_ok_def)

lemma ids_of_tracked:
  assumes "life_inv r H" "set ss \<subseteq> snd ` set (sessions r)"
  shows "ID ` set ss \<subseteq> ID ` H"
proof -
  have "ID s \<in> dom (map_of (sessions r))" if "s \<in> set ss" for s
    using tracked_session [of r s] subsetD [OF assms(2) that] assms(1)
    by (auto simp: life_inv_def registry_inv_def)
  then show ?thesis using assms(1) by (auto simp: life_inv_def)
qed

lemma ForceCloseMatching_takes_out:
  assumes "life_inv r H" "ForceCloseMatching p r = Some (n, r')"
  shows "\<exists>K. K \<subseteq> ID ` H \<and> takes_out K r r' \<and> state r' = state r"
proof -
  define matched where "matched = filter (\<lambda>s. p (s\<lparr>Closer := None\<rparr>)) (map snd (sessions r))"
  have sub: "set matched \<subseteq> snd ` set (sessions r)" by (auto simp: matched_def)
  have "r' = mark_released matched (unlink_all matched r)"
    using assms close_each_returns [of "closerGrace r" matched "unlink_all matched r"]
    by (simp add: ForceCloseMatching_def Let_def life_inv_def flip: matched_def)
  with unlink_all_takes_out [OF _ sub] assms(1) ids_of_tracked [OF assms(1) sub] show ?thesis
    by (auto simp: life_inv_def unlink_all_def)
qed

lemma idle_takes_out:
  assumes "life_inv r H" "runIdleGraceFastPath par now idleGrace r = Some (n, errs, r')"
  shows "\<exists>K. K \<subseteq> ID ` H \<and> takes_out K r r' \<and> state r' = state r \<and> n \<le> Count r"
proof -
  define idle where "idle = filter (\<lambda>s. \<not> IdleSince s now \<le> idleGrace) (map snd (sessions r))"
  have sub: "set idle \<subseteq> snd ` set (sessions r)" by (auto simp: idle_def)
  have inv: "registry_inv r" using assms(1) by (simp add: life_inv_def)
  have len: "length idle \<le> Count r"
    using length_filter_le [of _ "map snd (sessions r)"] by (simp add: idle_def Count_def)
  consider "r' = r" "n = 0" | "r' = mark_released idle (unlink_all idle r)" "n = length idle"
    using assms(2)
    by (auto simp: runIdleGraceFastPath_def snapshotIdleEntries_def Let_def unlink_all_def
             simp flip: idle_def split: if_splits)
  then show ?thesis
  proof cases
    case 1
    with takes_out_refl [OF inv] show ?thesis by auto
  next
    case 2
    with unlink_all_takes_out [OF inv sub] ids_of_tracked [OF assms(1) sub] len show ?thesis
      by (auto simp: unlink_all_def)
  qed
qed

lemma wait_takes_out:
  assumes "life_inv r H" "wait_loop events r = Some (n, r')"
    "\<And>e. e \<in> set events \<Longrightarrow> set (event_sessions e) \<subseteq> H"
  shows "\<exists>K. K \<subseteq> ID ` H \<and> takes_out K r r' \<and> state r' = state r \<and> n = Count r'"
  using assms
proof (induction events r rule: wait_loop.induct)
  case (1 r)
  then show ?case by simp
next
  case (2 ss events r)
  have sub: "set ss \<subseteq> H" using "2.prems"(3) [of "Deadline ss"] by simp
  have "takes_out (ID ` set ss) r (fold Release ss r)"
    using "2.prems"(1) sub by (intro fold_Release_takes_out) (auto simp: life_inv_def)
  with "2.prems"(2) sub show ?case by (auto simp: Let_def intro!: exI [of _ "ID ` set ss"])
next
  case (3 ss events r)
  have sub: "set ss \<subseteq> H" using "3.prems"(3) [of "Tick ss"] by simp
  have t: "takes_out (ID ` set ss) r (fold Release ss r)"
    using "3.prems"(1) sub by (intro fold_Release_takes_out) (auto simp: life_inv_def)
  have inv: "life_inv (fold Release ss r) H"
    using life_inv_takes_out [OF "3.prems"(1) t] sub by blast
  show ?case
  proof (cases "Count (fold Release ss r) = 0")
    case True
    with "3.prems"(2) t sub show ?thesis by (auto simp: Let_def intro!: exI [of _ "ID ` set ss"])
  next
    case False
    with "3.IH" [OF refl False inv] "3.prems" obtain K where
      "K \<subseteq> ID ` H" "takes_out K (fold Release ss r) r'" "state r' = state r" "n = Count r'"
      by (auto simp: Let_def)
    with takes_out_trans [OF t] sub show ?thesis
      by (auto intro!: exI [of _ "ID ` set ss \<union> K"])
  qed
qed

lemma Count_0_iff: "Count r = 0 \<longleftrightarrow> map_of (sessions r) = Map.empty"
  by (cases "sessions r") (auto simp: Count_def)

lemma session_keys:
  assumes "registry_ok r"
  shows "ID ` snd ` set (sessions r) = dom (map_of (sessions r))"
proof -
  have "ID s = k" if "(k, s) \<in> set (sessions r)" for k s
    using registry_okD(1,3) [OF assms] that by (simp add: map_of_eq_Some_iff)
  then show ?thesis by (force simp: dom_map_of_conv_image_fst image_iff)
qed

lemma force_takes_out:
  assumes "life_inv r H" "snapshotEntriesForForce r = (entries, r')"
  shows "takes_out (dom (map_of (sessions r))) r (mark_released entries r')"
    "length entries = Count r" "state r' = state r" "sessions r' = []"
proof -
  have e: "entries = map snd (sessions r)" "r' = r\<lparr>sessions := [], parents := []\<rparr>"
    using assms(2) by (simp_all add: snapshotEntriesForForce_def)
  have inv: "registry_inv r" using assms(1) by (simp add: life_inv_def)
  have "ID ` set entries = dom (map_of (sessions r))"
    using session_keys [of r] inv by (simp add: e registry_inv_def)
  moreover have "registry_inv (mark_released entries r')"
    by (simp add: registry_inv_def e registry_ok_def index_get_def)
  ultimately show "takes_out (dom (map_of (sessions r))) r (mark_released entries r')"
    by (auto simp: takes_out_def e restrict_map_def fun_eq_iff)
  show "length entries = Count r" "state r' = state r" "sessions r' = []"
    by (simp_all add: e Count_def)
qed

lemma Count_takes_out:
  assumes "registry_inv r" "takes_out K r r'"
  shows "Count r' \<le> Count r"
proof -
  have c: "Count x = card (dom (map_of (sessions x)))" if "registry_inv x" for x :: "'a registry"
    using that registry_okD(1) [of x]
    by (simp add: Count_def registry_inv_def dom_map_of_conv_image_fst distinct_card flip: set_map)
  have "dom (map_of (sessions r')) \<subseteq> dom (map_of (sessions r))"
    using assms(2) by (auto simp: takes_out_def restrict_map_def split: if_splits)
  with assms show ?thesis by (simp add: c takes_out_def card_mono finite_dom_map_of)
qed

text \<open>
  One complete drain of an open registry, from the state its first compare-and-swap finds.
\<close>

lemma drain_complete:
  assumes "life_inv r H" "state r = StateOpen"
    "\<And>e. e \<in> set events \<Longrightarrow> set (event_sessions e) \<subseteq> H"
    "drainWith par now idleGrace events reason r = Some (result, r')"
  shows "\<exists>K. K \<subseteq> ID ` H \<and> takes_out K r r'" "state r' = StateClosed" "Count r' = 0"
    "Final result = StateClosed" "Remaining result \<le> ForceClosed result"
proof -
  let ?r0 = "r\<lparr>state := StateDraining\<rparr>"
  obtain n errs r1 where 1: "runIdleGraceFastPath par now idleGrace ?r0 = Some (n, errs, r1)"
    using assms(2,4) by (auto simp: drainWith_def bind_eq_Some_conv)
  obtain K1 where K1: "K1 \<subseteq> ID ` H" "takes_out K1 r r1"
    using idle_takes_out [OF _ 1, of H] assms(1) by (auto simp: takes_out_state)
  have i1: "life_inv r1 H" using life_inv_takes_out [OF assms(1) K1(2,1)] .
  obtain rem r2 where 2: "waitForIdle events r1 = Some (rem, r2)"
    using assms(2,4) 1 by (auto simp: drainWith_def bind_eq_Some_conv)
  obtain K2 where K2: "K2 \<subseteq> ID ` H" "takes_out K2 r1 r2" "rem = Count r2"
  proof (cases "Count r1 = 0")
    case True
    with 2 that [of "{}"] takes_out_refl [of r1] i1 show ?thesis
      by (auto simp: waitForIdle_def life_inv_def)
  next
    case False
    with 2 wait_takes_out [OF i1 _ assms(3)] that show ?thesis by (auto simp: waitForIdle_def)
  qed
  have i2: "life_inv r2 H" using life_inv_takes_out [OF i1 K2(2,1)] .
  have t12: "takes_out (K1 \<union> K2) r r2" using takes_out_trans K1(2) K2(2) .
  have "(\<exists>K. K \<subseteq> ID ` H \<and> takes_out K r r') \<and> state r' = StateClosed \<and> Count r' = 0 \<and>
    Final result = StateClosed \<and> Remaining result \<le> ForceClosed result"
  proof (cases "rem = 0")
    case True
    with assms(2,4) 1 2 have "r' = r2\<lparr>state := StateClosed\<rparr>"
      "Final result = StateClosed" "Remaining result = 0"
      by (auto simp: drainWith_def)
    with t12 K1(1) K2(1,3) True show ?thesis
      by (auto simp: takes_out_state Count_def intro!: exI [of _ "K1 \<union> K2"])
  next
    case False
    obtain entries r3 where 3: "snapshotEntriesForForce (r2\<lparr>state := StateForcing\<rparr>) = (entries, r3)"
      by fastforce
    from assms(2,4) 1 2 3 False have res: "r' = (mark_released entries r3)\<lparr>state := StateClosed\<rparr>"
      "Final result = StateClosed" "Remaining result \<le> ForceClosed result"
      by (auto simp: drainWith_def bind_eq_Some_conv)
    note f = force_takes_out [OF _ 3, of H, simplified takes_out_state life_inv_state, OF i2]
    have "dom (map_of (sessions r2)) \<subseteq> ID ` H" using i2 by (auto simp: life_inv_def)
    with res f takes_out_trans [OF t12] K1(1) K2(1) show ?thesis
      by (auto simp: takes_out_state Count_def
               intro!: exI [of _ "K1 \<union> K2 \<union> dom (map_of (sessions r2))"])
  qed
  then show "\<exists>K. K \<subseteq> ID ` H \<and> takes_out K r r'" "state r' = StateClosed" "Count r' = 0"
    "Final result = StateClosed" "Remaining result \<le> ForceClosed result" by simp_all
qed

lemma wait_loop_returns: "Deadline ss \<in> set events \<Longrightarrow> \<exists>x. wait_loop events r = Some x"
  by (induction events r rule: wait_loop.induct) (auto simp: Let_def)

lemma runIdleGraceFastPath_returns:
  assumes "0 < closerGrace r"
  shows "\<exists>n errs r'. runIdleGraceFastPath par now idleGrace r = Some (n, errs, r')"
proof -
  obtain idle r1 where i: "snapshotIdleEntries now idleGrace r = (idle, r1)" by fastforce
  obtain errs where "closerFanOut par False (closerGrace r) idle = Some errs"
    using closerFanOut_returns [OF assms] by blast
  with i show ?thesis by (simp add: runIdleGraceFastPath_def)
qed

lemma drain_returns:
  assumes "0 < closerGrace r" "Deadline ss \<in> set events"
  shows "\<exists>x. drainWith par now idleGrace events reason r = Some x"
proof (cases "state r = StateOpen")
  case True
  let ?r0 = "r\<lparr>state := StateDraining\<rparr>"
  note fan = closerFanOut_returns [OF assms(1)]
  obtain n errs r1 where 1: "runIdleGraceFastPath par now idleGrace ?r0 = Some (n, errs, r1)"
    using runIdleGraceFastPath_returns [of ?r0 par now idleGrace] assms(1) by auto
  obtain rem r2 where 2: "waitForIdle events r1 = Some (rem, r2)"
    using wait_loop_returns [OF assms(2), of r1] by (cases "Count r1 = 0") (auto simp: waitForIdle_def)
  obtain entries r3 where 3: "snapshotEntriesForForce (r2\<lparr>state := StateForcing\<rparr>) = (entries, r3)"
    by fastforce
  from True 1 2 3 fan [of par entries] show ?thesis by (auto simp: drainWith_def)
qed (simp add: drainWith_def)

lemma life_step:
  assumes "life_inv r H \<and> (state r = StateOpen \<or> state r = StateClosed \<and> sessions r = [])"
    "takes_out K r r'" "K \<subseteq> ID ` H" "state r' = state r"
  shows "life_inv r' H \<and> (state r' = StateOpen \<or> state r' = StateClosed \<and> sessions r' = [])"
proof -
  have "sessions r' = []" if "sessions r = []"
  proof -
    have "map_of (sessions r') = Map.empty"
      using assms(2) that by (simp add: takes_out_def restrict_map_def)
    then show ?thesis using Count_0_iff [of r'] by (simp add: Count_def)
  qed
  with assms life_inv_takes_out [of r H K r'] show ?thesis by auto
qed

lemma life_inv_lifetime:
  "lifetime r H \<Longrightarrow>
   life_inv r H \<and> (state r = StateOpen \<or> state r = StateClosed \<and> sessions r = [])"
proof (induction rule: lifetime.induct)
  case (life_new poll grace)
  show ?case
    by (auto simp: life_inv_def newRegistry_def registry_inv_def registry_ok_def index_get_def
        defaultCloserGrace_def)
next
  case (life_register r H new_id now kind meta c parentID s r')
  then have inv: "life_inv r H" by blast
  have fresh: "map_of (sessions r) new_id = None" "new_id \<notin> released r"
    using inv life_register.hyps(2) by (auto simp: life_inv_def domIff)
  have s: "ID s = new_id" "ParentID s = parentID" "state r' = StateOpen"
    "released r' = released r" "closerGrace r' = closerGrace r"
    and t: "map_of (sessions r') = (map_of (sessions r))(new_id \<mapsto> s)"
    using life_register.hyps(3) by (auto simp: Register_def Let_def update_conv' split: if_splits)
  have "registry_ok r'"
    using register_ok [OF _ fresh(1) life_register.hyps(3)] inv by (simp add: life_inv_def registry_inv_def)
  moreover have "map_of (sessions r') k = None" if "k \<in> released r'" for k
  proof -
    have "k \<noteq> new_id" using that fresh(2) by (auto simp: s)
    then show ?thesis using inv that by (simp add: s t life_inv_def registry_inv_def)
  qed
  ultimately have "registry_inv r'" by (simp add: registry_inv_def)
  moreover have "handle_ok r' h" if "h \<in> insert s H" for h
  proof (cases "h = s")
    case True
    then show ?thesis by (simp add: handle_ok_def t s(1))
  next
    case False
    with that have "ID h \<noteq> new_id" "handle_ok r h"
      using life_register.hyps(2) inv by (auto simp: life_inv_def)
    then show ?thesis by (simp add: handle_ok_def t)
  qed
  moreover have "dom (map_of (sessions r')) = ID ` insert s H - released r'"
    using inv fresh(2) by (auto simp: t s life_inv_def)
  moreover have "released r' \<subseteq> ID ` insert s H" "0 < closerGrace r'"
    using inv by (auto simp: s life_inv_def)
  ultimately show ?case unfolding life_inv_def using s(3) by blast
next
  case (life_touch r H k s now)
  let ?r = "r\<lparr>sessions := AList.update k (Touch now s) (sessions r)\<rparr>"
  have inv: "life_inv r H" and ok: "registry_ok r"
    using life_touch by (auto simp: life_inv_def registry_inv_def)
  have t: "map_of (sessions ?r) = (map_of (sessions r))(k \<mapsto> Touch now s)" by (simp add: update_conv')
  have same: "(\<exists>u. map_of (sessions ?r) j = Some u \<and> ParentID u = p)
      \<longleftrightarrow> (\<exists>u. map_of (sessions r) j = Some u \<and> ParentID u = p)" for j p
    using life_touch.hyps(2) by (auto simp: update_conv' Touch_def)
  have "registry_ok ?r"
  proof (rule registry_okI)
    fix j u assume "map_of (sessions ?r) j = Some u"
    then show "ID u = j"
      using registry_okD(3) [OF ok] life_touch.hyps(2) unfolding t by (auto simp: Touch_def split: if_splits)
  next
    fix p :: bytes assume "p \<noteq> []"
    then show "set (index_get (parents ?r) p) = {j. \<exists>u. map_of (sessions ?r) j = Some u \<and> ParentID u = p}"
      unfolding same using registry_okD(6) [OF ok] by simp
  qed (use registry_okD [OF ok] in \<open>simp_all add: distinct_update\<close>)
  moreover have "dom (map_of (sessions ?r)) = dom (map_of (sessions r))"
    using life_touch.hyps(2) by (auto simp: update_conv')
  moreover have "map_of (sessions ?r) j = None" if "j \<in> released ?r" for j
  proof -
    have "map_of (sessions r) j = None" using inv that by (simp add: life_inv_def registry_inv_def)
    then show ?thesis using life_touch.hyps(2) by (cases "j = k") (simp_all add: update_conv')
  qed
  moreover have "handle_ok ?r h" if "h \<in> H" for h
  proof -
    have "handle_ok r h" using that inv by (simp add: life_inv_def)
    then show ?thesis using life_touch.hyps(2) by (simp add: handle_ok_def update_conv' Touch_def)
  qed
  ultimately have "life_inv ?r H" using inv unfolding life_inv_def registry_inv_def by simp
  then show ?case using life_touch.IH life_touch.hyps(2) by auto
next
  case (life_release r H s)
  then have t: "takes_out {ID s} r (Release s r)"
    using fold_Release_takes_out [of r "[s]"] by (simp add: life_inv_def)
  have "{ID s} \<subseteq> ID ` H" using life_release.hyps(2) by blast
  from life_step [OF life_release.IH t this Release_fields(1)] show ?case .
next
  case (life_force r H p n r')
  from life_force.IH have "life_inv r H" ..
  from ForceCloseMatching_takes_out [OF this life_force.hyps(2)] obtain K where
    K: "K \<subseteq> ID ` H" "takes_out K r r'" "state r' = state r" by (elim exE conjE)
  from life_step [OF life_force.IH K(2,1,3)] show ?case .
next
  case (life_drain r H events par now idleGrace reason result r')
  show ?case
  proof (cases "state r = StateOpen")
    case True
    from life_drain.IH have inv: "life_inv r H" by blast
    note d = drain_complete [OF inv True life_drain.hyps(2,3)]
    from d(1) inv life_inv_takes_out d(2,3) show ?thesis by (auto simp: Count_def)
  next
    case False
    with life_drain show ?thesis by (auto simp: drainWith_def)
  qed
qed


text \<open>
  C31. A drain always ends, and ends with everything closed: for a registry in use, whatever
  its sessions' closers do and whenever owners release, once the deadline fires the first
  drain returns with the registry closed and empty, every registered session released, and no
  later registration accepted.
\<close>

theorem drainWith_closes_everything:
  assumes "lifetime r H" and "state r = StateOpen"
    and "\<And>e. e \<in> set events \<Longrightarrow> set (event_sessions e) \<subseteq> H"
    and "Deadline ss \<in> set events"
  shows "\<exists>result r'. drainWith par now idleGrace events reason r = Some (result, r') \<and>
    Final result = StateClosed \<and> Remaining result \<le> ForceClosed result \<and>
    state r' = StateClosed \<and> Count r' = 0 \<and> (\<forall>s \<in> H. ID s \<in> released r') \<and>
    Register new_id now' kind meta c parentID r' = None"
proof -
  have inv: "life_inv r H" using life_inv_lifetime [OF assms(1)] by blast
  obtain result r' where d: "drainWith par now idleGrace events reason r = Some (result, r')"
    using drain_returns [OF _ assms(4), of r] inv by (fastforce simp: life_inv_def)
  note c = drain_complete [OF inv assms(2,3) d]
  from c(1) have "life_inv r' H" using life_inv_takes_out [OF inv] by blast
  with c(3) have "\<forall>s \<in> H. ID s \<in> released r'"
    by (auto simp: life_inv_def Count_0_iff)
  with d c show ?thesis by (auto simp: Register_def)
qed

section \<open>Descendants\<close>

definition parent_edges :: "(bytes \<times> bytes list) list \<Rightarrow> (bytes \<times> bytes) set" where
  "parent_edges ps = {(p, c). c \<in> set (index_get ps p)}"

lemma walk_Nil: "walk ps [] visited out = out"
  by (simp add: walk.simps)

lemma walk_Cons:
  "visit_children (index_get ps q) rest visited out = (queue', visited', out') \<Longrightarrow>
   walk ps (q # rest) visited out = walk ps queue' visited' out'"
  by (simp add: walk.simps [of ps "q # rest"])

lemma walk_reaches:
  assumes "set out = visited" "distinct out" "set queue \<subseteq> insert p visited"
    "\<forall>q \<in> insert p visited - set queue. set (index_get ps q) \<subseteq> visited"
    "visited \<subseteq> (parent_edges ps)\<^sup>+ `` {p}"
  shows "distinct (walk ps queue visited out) \<and>
    set (walk ps queue visited out) = (parent_edges ps)\<^sup>+ `` {p}"
  using assms
proof (induction ps queue visited out rule: walk.induct)
  case (1 ps queue visited out)
  show ?case
  proof (cases queue)
    case Nil
    have closed: "c \<in> visited" if "(q, c) \<in> parent_edges ps" "q \<in> insert p visited" for q c
      using "1.prems"(4) Nil that by (auto simp: parent_edges_def)
    have "d \<in> visited" if "(p, d) \<in> (parent_edges ps)\<^sup>+" for d
      using that closed by (induction rule: trancl_induct) blast+
    with Nil "1.prems" show ?thesis by (auto simp: walk_Nil)
  next
    case (Cons q rest)
    obtain queue' visited' out' where
      v: "visit_children (index_get ps q) rest visited out = (queue', visited', out')"
      using prod_cases3 by blast
    from visit_children_spec [OF v] obtain new where
      new: "queue' = rest @ new" "out' = out @ new" "visited' = visited \<union> set new"
        "distinct new" "set new = set (index_get ps q) - visited" by blast
    have q: "q = p \<or> (p, q) \<in> (parent_edges ps)\<^sup>+" using "1.prems"(3,5) Cons by auto
    have "(p, c) \<in> (parent_edges ps)\<^sup>+" if "c \<in> set new" for c
    proof -
      have "(q, c) \<in> parent_edges ps" using that new(5) by (auto simp: parent_edges_def)
      with q show ?thesis by (metis r_into_trancl' trancl.trancl_into_trancl)
    qed
    then have "visited' \<subseteq> (parent_edges ps)\<^sup>+ `` {p}" using "1.prems"(5) new(3) by auto
    moreover have "\<forall>x \<in> insert p visited' - set queue'. set (index_get ps x) \<subseteq> visited'"
      using "1.prems"(4) Cons new(1,3,5) by auto
    moreover have "set queue' \<subseteq> insert p visited'" using "1.prems"(3) Cons new(1,3) by auto
    moreover have "distinct out'" using "1.prems"(1,2) new(2,4,5) by auto
    ultimately show ?thesis
      using "1.IH" [OF Cons v [symmetric] refl] "1.prems"(1) new(2,3) Cons v
      by (simp add: walk_Cons)
  qed
qed

text \<open>
  C35. \<open>DescendantsOf\<close> returns every transitive descendant exactly once: the sessions reached
  from the given one by following the parent links of the tracked sessions.
\<close>

theorem DescendantsOf_transitive_closure:
  assumes "lifetime r H" and "p \<noteq> []"
  shows "distinct (DescendantsOf p r) \<and>
    set (DescendantsOf p r) =
      {d. (p, d) \<in> {(ParentID s, k) | k s. map_of (sessions r) k = Some s \<and> ParentID s \<noteq> []}\<^sup>+}"
proof -
  have ok: "registry_ok r" using life_inv_lifetime [OF assms(1)] by (simp add: life_inv_def registry_inv_def)
  have nil: "index_get (parents r) [] = []"
    using registry_okD(4) [OF ok, of "[]"] by (cases "map_of (parents r) []") (auto simp: index_get_def)
  have child: "k \<in> set (index_get (parents r) q) \<longleftrightarrow>
      q \<noteq> [] \<and> (\<exists>s. map_of (sessions r) k = Some s \<and> ParentID s = q)" for k q
    using registry_okD(6) [OF ok, of q] nil by (cases "q = []") simp_all
  have "parent_edges (parents r) =
      {(ParentID s, k) | k s. map_of (sessions r) k = Some s \<and> ParentID s \<noteq> []}"
    unfolding parent_edges_def child by auto
  moreover have "distinct (walk (parents r) [p] {} []) \<and>
      set (walk (parents r) [p] {} []) = (parent_edges (parents r))\<^sup>+ `` {p}"
    by (rule walk_reaches) simp_all
  ultimately show ?thesis using assms(2) by (auto simp: DescendantsOf_def)
qed

section \<open>A concrete registry\<close>

text \<open>A session, its child and its grandchild; the closers hang, panic and return.\<close>

definition demo_session :: "bytes \<Rightarrow> bytes \<Rightarrow> close_outcome \<Rightarrow> unit session" where
  "demo_session sid parentID c =
     \<lparr>ID = sid, ParentID = parentID, Kind = ''k'', OpenedAt = 0, Meta = (), LastActivity = 0,
      Closer = Some c\<rparr>"

abbreviation demo_handles :: "unit session set" where
  "demo_handles \<equiv> {demo_session ''c'' ''b'' CloseReturns, demo_session ''b'' ''a'' ClosePanics,
     demo_session ''a'' [] CloseHangs}"

definition demo_registry :: "unit registry" where
  "demo_registry = \<lparr>state = StateOpen, closerGrace = 5, pollEvery = 1,
     sessions = [(''a'', demo_session ''a'' [] CloseHangs), (''b'', demo_session ''b'' ''a'' ClosePanics),
       (''c'', demo_session ''c'' ''b'' CloseReturns)],
     parents = [(''a'', [''b'']), (''b'', [''c''])], released = {}\<rparr>"

lemma lifetime_demo: "lifetime demo_registry demo_handles"
proof -
  define r1 where "r1 = (newRegistry 1 5 :: unit registry)\<lparr>
    sessions := [(''a'', demo_session ''a'' [] CloseHangs)]\<rparr>"
  define r2 where "r2 = r1\<lparr>sessions := [(''a'', demo_session ''a'' [] CloseHangs),
    (''b'', demo_session ''b'' ''a'' ClosePanics)], parents := [(''a'', [''b''])]\<rparr>"
  have 1: "lifetime r1 {demo_session ''a'' [] CloseHangs}"
    by (rule life_register [OF life_new [of 1 5], of "''a''" 0 "''k''" "()" "Some CloseHangs" "[]"])
       (simp_all add: Register_def newRegistry_def demo_session_def r1_def Let_def)
  have 2: "lifetime r2 {demo_session ''b'' ''a'' ClosePanics, demo_session ''a'' [] CloseHangs}"
    by (rule life_register [OF 1, of "''b''" 0 "''k''" "()" "Some ClosePanics" "''a''"])
       (simp_all add: Register_def newRegistry_def demo_session_def r1_def r2_def index_get_def Let_def)
  show ?thesis
    by (rule life_register [OF 2, of "''c''" 0 "''k''" "()" "Some CloseReturns" "''b''"])
       (simp_all add: Register_def newRegistry_def demo_session_def r1_def r2_def demo_registry_def
          index_get_def Let_def)
qed


theorem drainWith_closes_everything_witness:
  "\<exists>result r'. drainWith None 100 10 [Tick [demo_session ''a'' [] CloseHangs], Deadline []] ''reload''
      demo_registry = Some (result, r') \<and> Count r' = 0"
proof -
  let ?events = "[Tick [demo_session ''a'' [] CloseHangs], Deadline []]"
  have o: "state demo_registry = StateOpen" by (simp add: demo_registry_def)
  have e: "set (event_sessions e) \<subseteq> demo_handles" if "e \<in> set ?events" for e
    using that by auto
  have d: "Deadline [] \<in> set ?events" by simp
  show ?thesis
    using drainWith_closes_everything [OF lifetime_demo o e d, of None 100 10 "''reload''"] by blast
qed

theorem DescendantsOf_transitive_closure_witness:
  "set (DescendantsOf ''a'' demo_registry) =
     {d. (''a'', d) \<in> {(ParentID s, k) | k s. map_of (sessions demo_registry) k = Some s \<and> ParentID s \<noteq> []}\<^sup>+}
   \<and> DescendantsOf ''a'' demo_registry = [''b'', ''c'']"
proof -
  have "DescendantsOf ''a'' demo_registry = [''b'', ''c'']" by code_simp
  then show ?thesis using DescendantsOf_transitive_closure [OF lifetime_demo, of "''a''"] by simp
qed

end
