(* ===== verification/Livetrack_Interleaving.thy ===== *)
theory Livetrack_Interleaving
  imports Livetrack_Registry
begin

text \<open>
  \<open>Register\<close>, \<open>Release\<close> and \<open>drainWith\<close> of \<open>internal/livetrack\<close> as concurrent programs.
  The registry's state is an atomic word that is read and written without the lock; its maps
  are guarded by the lock. Each step below is one atomic action of one goroutine: a load or a
  store of the state, taking or giving back the write lock, one access to the maps, or one
  critical section whose only accesses are to the maps. Any number of goroutines register,
  each a session named by the goroutine, and one drains; a further drain fails its
  compare-and-swap and reads only.

  The point is the gap in \<open>drainWith\<close>: it leaves \<open>StateOpen\<close> without the lock, while a
  \<open>Register\<close> that has already read \<open>StateOpen\<close> under the lock still inserts its session.
\<close>

section \<open>Programs and steps\<close>

text \<open>
  Where a goroutine is in \<open>Register\<close>: before the first check, after it, holding the lock,
  holding it having read \<open>StateOpen\<close>, holding it after the insertion, and returned.
\<close>

datatype register_pc = RegStart | RegChecked | RegLocked | RegSeenOpen | RegInserted | RegDone | RegRejected

text \<open>Where the draining goroutine is in \<open>drainWith\<close>.\<close>

datatype drain_pc = DrainStart | DrainEntered | DrainWaiting | DrainIdle | DrainDeadline
  | DrainForcing | DrainClosing | DrainDone

record system =
  sys_state :: State
  lock :: "nat option"
  tracked :: "nat set"
  gone :: "nat set"
  registering :: "nat \<Rightarrow> register_pc"
  draining :: drain_pc

definition initial :: system where
  "initial = \<lparr>sys_state = StateOpen, lock = None, tracked = {}, gone = {},
     registering = (\<lambda>_. RegStart), draining = DrainStart\<rparr>"

abbreviation goto :: "nat \<Rightarrow> register_pc \<Rightarrow> system \<Rightarrow> system" where
  "goto t pc \<sigma> \<equiv> \<sigma>\<lparr>registering := (registering \<sigma>)(t := pc)\<rparr>"

inductive register_step :: "nat \<Rightarrow> system \<Rightarrow> system \<Rightarrow> bool" for t where
  reg_check: "registering \<sigma> t = RegStart \<Longrightarrow>
    register_step t \<sigma> (goto t (if sys_state \<sigma> = StateOpen then RegChecked else RegRejected) \<sigma>)"
| reg_lock: "registering \<sigma> t = RegChecked \<Longrightarrow> lock \<sigma> = None \<Longrightarrow>
    register_step t \<sigma> (goto t RegLocked (\<sigma>\<lparr>lock := Some t\<rparr>))"
| reg_recheck_open: "registering \<sigma> t = RegLocked \<Longrightarrow> sys_state \<sigma> = StateOpen \<Longrightarrow>
    register_step t \<sigma> (goto t RegSeenOpen \<sigma>)"
| reg_recheck_closed: "registering \<sigma> t = RegLocked \<Longrightarrow> sys_state \<sigma> \<noteq> StateOpen \<Longrightarrow>
    register_step t \<sigma> (goto t RegRejected (\<sigma>\<lparr>lock := None\<rparr>))"
| reg_insert: "registering \<sigma> t = RegSeenOpen \<Longrightarrow>
    register_step t \<sigma> (goto t RegInserted (\<sigma>\<lparr>tracked := insert t (tracked \<sigma>)\<rparr>))"
| reg_unlock: "registering \<sigma> t = RegInserted \<Longrightarrow>
    register_step t \<sigma> (goto t RegDone (\<sigma>\<lparr>lock := None\<rparr>))"

text \<open>The owner of a registered session releases it: one critical section.\<close>

inductive release_step :: "nat \<Rightarrow> system \<Rightarrow> system \<Rightarrow> bool" for t where
  rel_remove: "registering \<sigma> t = RegDone \<Longrightarrow> lock \<sigma> = None \<Longrightarrow>
    release_step t \<sigma> (\<sigma>\<lparr>tracked := tracked \<sigma> - {t}, gone := insert t (gone \<sigma>)\<rparr>)"

text \<open>
  The drain. The idle-grace fast path takes out some sessions \<open>S\<close> under the lock; a look at
  the count needs the read lock, so no writer holds the lock then.
\<close>

inductive drain_step :: "system \<Rightarrow> system \<Rightarrow> bool" where
  drain_cas: "draining \<sigma> = DrainStart \<Longrightarrow> sys_state \<sigma> = StateOpen \<Longrightarrow>
    drain_step \<sigma> (\<sigma>\<lparr>sys_state := StateDraining, draining := DrainEntered\<rparr>)"
| drain_no_grace: "draining \<sigma> = DrainEntered \<Longrightarrow> drain_step \<sigma> (\<sigma>\<lparr>draining := DrainWaiting\<rparr>)"
| drain_idle_grace: "draining \<sigma> = DrainEntered \<Longrightarrow> lock \<sigma> = None \<Longrightarrow> S \<subseteq> tracked \<sigma> \<Longrightarrow>
    drain_step \<sigma> (\<sigma>\<lparr>tracked := tracked \<sigma> - S, gone := gone \<sigma> \<union> S, draining := DrainWaiting\<rparr>)"
| drain_count_zero: "draining \<sigma> = DrainWaiting \<Longrightarrow> lock \<sigma> = None \<Longrightarrow> tracked \<sigma> = {} \<Longrightarrow>
    drain_step \<sigma> (\<sigma>\<lparr>draining := DrainIdle\<rparr>)"
| drain_deadline: "draining \<sigma> = DrainWaiting \<Longrightarrow> lock \<sigma> = None \<Longrightarrow> tracked \<sigma> \<noteq> {} \<Longrightarrow>
    drain_step \<sigma> (\<sigma>\<lparr>draining := DrainDeadline\<rparr>)"
| drain_close_idle: "draining \<sigma> = DrainIdle \<Longrightarrow>
    drain_step \<sigma> (\<sigma>\<lparr>sys_state := StateClosed, draining := DrainDone\<rparr>)"
| drain_force: "draining \<sigma> = DrainDeadline \<Longrightarrow>
    drain_step \<sigma> (\<sigma>\<lparr>sys_state := StateForcing, draining := DrainForcing\<rparr>)"
| drain_snapshot: "draining \<sigma> = DrainForcing \<Longrightarrow> lock \<sigma> = None \<Longrightarrow>
    drain_step \<sigma> (\<sigma>\<lparr>tracked := {}, gone := gone \<sigma> \<union> tracked \<sigma>, draining := DrainClosing\<rparr>)"
| drain_close_forced: "draining \<sigma> = DrainClosing \<Longrightarrow>
    drain_step \<sigma> (\<sigma>\<lparr>sys_state := StateClosed, draining := DrainDone\<rparr>)"

inductive reachable :: "system \<Rightarrow> bool" where
  reach_initial: "reachable initial"
| reach_register: "reachable \<sigma> \<Longrightarrow> register_step t \<sigma> \<sigma>' \<Longrightarrow> reachable \<sigma>'"
| reach_release: "reachable \<sigma> \<Longrightarrow> release_step t \<sigma> \<sigma>' \<Longrightarrow> reachable \<sigma>'"
| reach_drain: "reachable \<sigma> \<Longrightarrow> drain_step \<sigma> \<sigma>' \<Longrightarrow> reachable \<sigma>'"

inductive_cases register_stepE: "register_step t \<sigma> \<sigma>'"
inductive_cases release_stepE: "release_step t \<sigma> \<sigma>'"
inductive_cases drain_stepE: "drain_step \<sigma> \<sigma>'"

section \<open>The invariant\<close>

fun drain_state :: "drain_pc \<Rightarrow> State" where
  "drain_state DrainStart = StateOpen"
| "drain_state DrainEntered = StateDraining"
| "drain_state DrainWaiting = StateDraining"
| "drain_state DrainIdle = StateDraining"
| "drain_state DrainDeadline = StateDraining"
| "drain_state DrainForcing = StateForcing"
| "drain_state DrainClosing = StateForcing"
| "drain_state DrainDone = StateClosed"

text \<open>The drain has looked at the maps since it left \<open>StateOpen\<close> and found the end of the wait.\<close>

definition flushed :: "drain_pc \<Rightarrow> bool" where
  "flushed pc \<longleftrightarrow> pc \<notin> {DrainStart, DrainEntered, DrainWaiting}"

fun holds_lock :: "register_pc \<Rightarrow> bool" where
  "holds_lock RegLocked = True"
| "holds_lock RegSeenOpen = True"
| "holds_lock RegInserted = True"
| "holds_lock _ = False"

fun has_inserted :: "register_pc \<Rightarrow> bool" where
  "has_inserted RegInserted = True"
| "has_inserted RegDone = True"
| "has_inserted _ = False"

definition state_inv :: "system \<Rightarrow> bool" where
  "state_inv \<sigma> \<longleftrightarrow> sys_state \<sigma> = drain_state (draining \<sigma>)"

definition lock_inv :: "system \<Rightarrow> bool" where
  "lock_inv \<sigma> \<longleftrightarrow> (\<forall>t. holds_lock (registering \<sigma> t) \<longrightarrow> lock \<sigma> = Some t)"

definition flush_inv :: "system \<Rightarrow> bool" where
  "flush_inv \<sigma> \<longleftrightarrow>
     (flushed (draining \<sigma>) \<longrightarrow> (\<forall>t. registering \<sigma> t \<noteq> RegSeenOpen)) \<and>
     (draining \<sigma> \<in> {DrainIdle, DrainClosing, DrainDone} \<longrightarrow> tracked \<sigma> = {})"

definition kept_inv :: "system \<Rightarrow> bool" where
  "kept_inv \<sigma> \<longleftrightarrow> (\<forall>t. has_inserted (registering \<sigma> t) \<longrightarrow> t \<in> tracked \<sigma> \<union> gone \<sigma>)"

lemmas system_invs = state_inv_def lock_inv_def flush_inv_def kept_inv_def

definition system_inv :: "system \<Rightarrow> bool" where
  "system_inv \<sigma> \<longleftrightarrow> state_inv \<sigma> \<and> lock_inv \<sigma> \<and> flush_inv \<sigma> \<and> kept_inv \<sigma>"

lemma system_inv_initial: "system_inv initial"
  by (simp add: system_inv_def system_invs initial_def flushed_def)

lemma drain_state_open [simp]:
  "drain_state pc = StateOpen \<longleftrightarrow> pc = DrainStart" "StateOpen = drain_state pc \<longleftrightarrow> pc = DrainStart"
  by (cases pc; simp)+

lemma not_flushed_start [simp]: "\<not> flushed DrainStart"
  by (simp add: flushed_def)

lemma register_state_inv: "state_inv \<sigma> \<Longrightarrow> register_step t \<sigma> \<sigma>' \<Longrightarrow> state_inv \<sigma>'"
  by (elim register_stepE) (simp_all add: state_inv_def)

lemma register_lock_inv: "lock_inv \<sigma> \<Longrightarrow> register_step t \<sigma> \<sigma>' \<Longrightarrow> lock_inv \<sigma>'"
  by (elim register_stepE)
     (auto simp: lock_inv_def, (metis holds_lock.simps(1,3) option.inject)+)

lemma register_flush_inv:
  "state_inv \<sigma> \<Longrightarrow> flush_inv \<sigma> \<Longrightarrow> register_step t \<sigma> \<sigma>' \<Longrightarrow> flush_inv \<sigma>'"
  by (elim register_stepE) (auto simp: flush_inv_def state_inv_def flushed_def)

lemma register_kept_inv: "kept_inv \<sigma> \<Longrightarrow> register_step t \<sigma> \<sigma>' \<Longrightarrow> kept_inv \<sigma>'"
  by (elim register_stepE) (auto simp: kept_inv_def)

lemma system_inv_register: "system_inv \<sigma> \<Longrightarrow> register_step t \<sigma> \<sigma>' \<Longrightarrow> system_inv \<sigma>'"
  unfolding system_inv_def
  using register_state_inv register_lock_inv register_flush_inv register_kept_inv by blast

lemma system_inv_release: "system_inv \<sigma> \<Longrightarrow> release_step t \<sigma> \<sigma>' \<Longrightarrow> system_inv \<sigma>'"
  by (elim release_stepE) (auto simp: system_inv_def system_invs)

lemma drain_state_inv: "state_inv \<sigma> \<Longrightarrow> drain_step \<sigma> \<sigma>' \<Longrightarrow> state_inv \<sigma>'"
  by (elim drain_stepE) (simp_all add: state_inv_def)

lemma drain_lock_inv: "lock_inv \<sigma> \<Longrightarrow> drain_step \<sigma> \<sigma>' \<Longrightarrow> lock_inv \<sigma>'"
  by (elim drain_stepE) (simp_all add: lock_inv_def)

lemma no_reader_when_free:
  assumes "lock_inv \<sigma>" "lock \<sigma> = None"
  shows "registering \<sigma> t \<noteq> RegSeenOpen"
  using assms by (metis holds_lock.simps(2) lock_inv_def option.distinct(1))

lemma drain_flush_inv:
  "lock_inv \<sigma> \<Longrightarrow> flush_inv \<sigma> \<Longrightarrow> drain_step \<sigma> \<sigma>' \<Longrightarrow> flush_inv \<sigma>'"
  by (elim drain_stepE) (simp_all add: flush_inv_def flushed_def no_reader_when_free)

lemma drain_kept_inv: "kept_inv \<sigma> \<Longrightarrow> drain_step \<sigma> \<sigma>' \<Longrightarrow> kept_inv \<sigma>'"
  by (elim drain_stepE) (auto simp: kept_inv_def)

lemma system_inv_drain: "system_inv \<sigma> \<Longrightarrow> drain_step \<sigma> \<sigma>' \<Longrightarrow> system_inv \<sigma>'"
  unfolding system_inv_def
  using drain_state_inv drain_lock_inv drain_flush_inv drain_kept_inv by blast

lemma system_inv_reachable: "reachable \<sigma> \<Longrightarrow> system_inv \<sigma>"
  by (induction rule: reachable.induct)
     (auto intro: system_inv_initial system_inv_register system_inv_release system_inv_drain)

text \<open>
  C15. No interleaving loses a session: in every reachable state a closed registry tracks
  nothing and no goroutine is about to insert into it, and every session whose
  \<open>Register\<close> returned successfully is tracked or was released or closed, although the drain
  leaves \<open>StateOpen\<close> without taking the lock.
\<close>

theorem registry_interleavings:
  assumes "reachable \<sigma>"
  shows "(sys_state \<sigma> = StateClosed \<longrightarrow> tracked \<sigma> = {} \<and> (\<forall>t. registering \<sigma> t \<noteq> RegSeenOpen)) \<and>
    (\<forall>t. registering \<sigma> t = RegDone \<longrightarrow> t \<in> tracked \<sigma> \<union> gone \<sigma>)"
proof -
  have closed: "drain_state pc = StateClosed \<longleftrightarrow> pc = DrainDone" for pc by (cases pc) simp_all
  show ?thesis
    using system_inv_reachable [OF assms]
    by (auto simp: system_inv_def system_invs closed flushed_def)
qed

text \<open>
  The interleaving in question: the drain enters between the check under the lock and the
  insertion, waits, and force-closes the late session.
\<close>

theorem registry_interleavings_witness:
  "\<exists>\<sigma>. reachable \<sigma> \<and> sys_state \<sigma> = StateClosed \<and> registering \<sigma> 0 = RegDone \<and>
     tracked \<sigma> = {} \<and> 0 \<in> tracked \<sigma> \<union> gone \<sigma>"
proof -
  note reg = reach_register [of _ 0] and init = initial_def
  let ?s = "\<lambda>st l tr g pc d. \<lparr>sys_state = st, lock = l, tracked = tr, gone = g,
      registering = (\<lambda>_. RegStart)(0 := pc), draining = d\<rparr>"
  have "reachable (?s StateOpen None {} {} RegChecked DrainStart)"
    using reg [OF reach_initial] reg_check [of initial 0] by (simp add: init)
  then have "reachable (?s StateOpen (Some 0) {} {} RegLocked DrainStart)"
    using reg reg_lock [of "?s StateOpen None {} {} RegChecked DrainStart" 0] by simp
  then have "reachable (?s StateOpen (Some 0) {} {} RegSeenOpen DrainStart)"
    using reg reg_recheck_open [of "?s StateOpen (Some 0) {} {} RegLocked DrainStart" 0] by simp
  then have "reachable (?s StateDraining (Some 0) {} {} RegSeenOpen DrainEntered)"
    using reach_drain drain_cas [of "?s StateOpen (Some 0) {} {} RegSeenOpen DrainStart"] by simp
  then have "reachable (?s StateDraining (Some 0) {0} {} RegInserted DrainEntered)"
    using reg reg_insert [of "?s StateDraining (Some 0) {} {} RegSeenOpen DrainEntered" 0] by simp
  then have "reachable (?s StateDraining None {0} {} RegDone DrainEntered)"
    using reg reg_unlock [of "?s StateDraining (Some 0) {0} {} RegInserted DrainEntered" 0] by simp
  then have "reachable (?s StateDraining None {0} {} RegDone DrainWaiting)"
    using reach_drain drain_no_grace [of "?s StateDraining None {0} {} RegDone DrainEntered"] by simp
  then have "reachable (?s StateDraining None {0} {} RegDone DrainDeadline)"
    using reach_drain drain_deadline [of "?s StateDraining None {0} {} RegDone DrainWaiting"] by simp
  then have "reachable (?s StateForcing None {0} {} RegDone DrainForcing)"
    using reach_drain drain_force [of "?s StateDraining None {0} {} RegDone DrainDeadline"] by simp
  then have "reachable (?s StateForcing None {} {0} RegDone DrainClosing)"
    using reach_drain drain_snapshot [of "?s StateForcing None {0} {} RegDone DrainForcing"] by simp
  then have r: "reachable (?s StateClosed None {} {0} RegDone DrainDone)"
    using reach_drain drain_close_forced [of "?s StateForcing None {} {0} RegDone DrainClosing"] by simp
  show ?thesis
    using registry_interleavings [OF r] r
    by (intro exI [of _ "?s StateClosed None {} {0} RegDone DrainDone"]) simp
qed

end
