(* ===== verification/Livetrack_Group.thy ===== *)
theory Livetrack_Group
  imports Livetrack_Registry
begin

text \<open>
  The lifecycle group of \<open>internal/livetrack\<close> (\<open>group.go\<close>, \<open>group_member.go\<close>): registries
  and named hooks attached to phases, drained in phase order by \<open>Quiesce\<close>, and the quiet
  check \<open>AwaitQuiet\<close>. The member drains of one phase run concurrently on registries of their
  own and are all waited for, so their order is not observable; a hook's effect is left to
  the hook, and the trace records each run together with the registries as they are then.
  The \<open>wait_events\<close> of a member are what happens to its sessions while its drain waits.
\<close>

section \<open>Groups\<close>

datatype Phase = PhaseIngress | PhaseEgress | PhaseWorkers | PhaseStorage

definition orderedPhases :: "Phase list" where
  "orderedPhases = [PhaseIngress, PhaseEgress, PhaseWorkers, PhaseStorage]"

record MemberSpec =
  Member_Phase :: Phase
  QuietRelevant :: bool
  CancelNoWait :: bool

datatype hookTiming = hookBefore | hookAfter

datatype hook_outcome = HookReturns | HookFails bytes | HookPanics

record hook =
  hook_name :: bytes
  timing :: hookTiming
  outcome :: hook_outcome

record 'm member =
  reg :: "'m registry"
  memSpec :: MemberSpec
  wait_events :: "'m wait_event list"

record 'm group =
  members :: "'m member list"
  hooks :: "Phase \<Rightarrow> hook list"

definition NewGroup :: "'m group" where
  "NewGroup = \<lparr>members = [], hooks = (\<lambda>_. [])\<rparr>"

definition MemberCount :: "'m group \<Rightarrow> nat" where
  "MemberCount g = length (members g)"

definition Attach :: "MemberSpec \<Rightarrow> int \<Rightarrow> int \<Rightarrow> 'm wait_event list \<Rightarrow> 'm group \<Rightarrow> 'm group" where
  "Attach ms poll grace events g =
     g\<lparr>members := members g @ [\<lparr>reg = newRegistry poll grace, memSpec = ms, wait_events = events\<rparr>]\<rparr>"

definition addHook :: "Phase \<Rightarrow> hookTiming \<Rightarrow> bytes \<Rightarrow> hook_outcome \<Rightarrow> 'm group \<Rightarrow> 'm group" where
  "addHook phase tm name fn g =
     g\<lparr>hooks := (hooks g)(phase := hooks g phase @ [\<lparr>hook_name = name, timing = tm, outcome = fn\<rparr>])\<rparr>"

definition AddHook :: "Phase \<Rightarrow> bytes \<Rightarrow> hook_outcome \<Rightarrow> 'm group \<Rightarrow> 'm group" where
  "AddHook phase name fn g = addHook phase hookAfter name fn g"

definition AddHookBefore :: "Phase \<Rightarrow> bytes \<Rightarrow> hook_outcome \<Rightarrow> 'm group \<Rightarrow> 'm group" where
  "AddHookBefore phase name fn g = addHook phase hookBefore name fn g"

section \<open>Quiescing\<close>

text \<open>
  \<open>runHook\<close> logs an error and recovers a panic: whatever the hook does, the phase goes on.
\<close>

datatype 'm event = HookRan Phase hook "'m member list"

definition runHook :: "Phase \<Rightarrow> 'm member list \<Rightarrow> hook \<Rightarrow> 'm event" where
  "runHook phase ms h = HookRan phase h ms"

definition forceCloseNow :: "'m registry \<Rightarrow> (nat \<times> 'm registry) option" where
  "forceCloseNow r = ForceCloseMatching (\<lambda>_. True) r"

definition drain_member :: "int \<Rightarrow> int \<Rightarrow> bytes \<Rightarrow> Phase \<Rightarrow> 'm member \<Rightarrow> 'm member option" where
  "drain_member now idleGrace reason phase m =
     (if Member_Phase (memSpec m) \<noteq> phase then Some m
      else if CancelNoWait (memSpec m)
      then map_option (\<lambda>(n, r). m\<lparr>reg := r\<rparr>) (forceCloseNow (reg m))
      else map_option (\<lambda>(result, r). m\<lparr>reg := r\<rparr>)
             (drainWith None now idleGrace (wait_events m) reason (reg m)))"

definition quiescePhase ::
    "int \<Rightarrow> int \<Rightarrow> bytes \<Rightarrow> Phase \<Rightarrow> 'm group \<times> 'm event list \<Rightarrow> ('m group \<times> 'm event list) option" where
  "quiescePhase now idleGrace reason phase = (\<lambda>(g, trace). do {
     let before = map (runHook phase (members g)) (filter (\<lambda>h. timing h = hookBefore) (hooks g phase));
     ms \<leftarrow> those (map (drain_member now idleGrace reason phase) (members g));
     let after = map (runHook phase ms) (filter (\<lambda>h. timing h = hookAfter) (hooks g phase));
     Some (g\<lparr>members := ms\<rparr>, trace @ before @ after)
   })"

fun quiesce_phases ::
    "int \<Rightarrow> int \<Rightarrow> bytes \<Rightarrow> Phase list \<Rightarrow> 'm group \<times> 'm event list \<Rightarrow> ('m group \<times> 'm event list) option" where
  "quiesce_phases now idleGrace reason [] s = Some s"
| "quiesce_phases now idleGrace reason (phase # phases) s =
     (case quiescePhase now idleGrace reason phase s of
        None \<Rightarrow> None
      | Some s' \<Rightarrow> quiesce_phases now idleGrace reason phases s')"

definition Quiesce :: "int \<Rightarrow> int \<Rightarrow> bytes \<Rightarrow> 'm group \<Rightarrow> ('m group \<times> 'm event list) option" where
  "Quiesce now idleGrace reason g = quiesce_phases now idleGrace reason orderedPhases (g, [])"

section \<open>Waiting for quiet\<close>

definition quietActiveCount :: "int \<Rightarrow> int \<Rightarrow> 'm group \<Rightarrow> nat" where
  "quietActiveCount now grace g =
     sum_list (map (\<lambda>m. ActiveCount now grace (reg m)) (filter (\<lambda>m. QuietRelevant (memSpec m)) (members g)))"

text \<open>What the ticker and the context let \<open>AwaitQuiet\<close> see: the time and the group at each.\<close>

datatype 'm quiet_event = QuietTick int "'m group" | QuietDone int "'m group"

fun quiet_loop :: "int \<Rightarrow> 'm quiet_event list \<Rightarrow> bool option" where
  "quiet_loop grace [] = None"
| "quiet_loop grace (QuietDone now g # events) = Some (quietActiveCount now grace g = 0)"
| "quiet_loop grace (QuietTick now g # events) =
     (if quietActiveCount now grace g = 0 then Some True else quiet_loop grace events)"

definition AwaitQuiet :: "int \<Rightarrow> int \<Rightarrow> 'm group \<Rightarrow> 'm quiet_event list \<Rightarrow> bool option" where
  "AwaitQuiet now grace g events =
     (if quietActiveCount now grace g = 0 then Some True else quiet_loop grace events)"

section \<open>Draining one phase\<close>

text \<open>
  A member that can be drained: its registry is in use and open, owners release sessions
  they hold, and the deadline of the budget fires eventually.
\<close>

definition member_ready :: "'m member \<Rightarrow> bool" where
  "member_ready m \<longleftrightarrow>
     (\<exists>H. lifetime (reg m) H \<and> (\<forall>e \<in> set (wait_events m). set (event_sessions e) \<subseteq> H)) \<and>
     (\<exists>ss. Deadline ss \<in> set (wait_events m))"

definition emptied :: "'m member \<Rightarrow> bool" where
  "emptied m \<longleftrightarrow> Count (reg m) = 0"

lemma forceCloseNow_empties:
  assumes "lifetime r H"
  shows "\<exists>n r'. forceCloseNow r = Some (n, r') \<and> Count r' = 0 \<and> lifetime r' H"
proof -
  have inv: "registry_inv r" and grace: "0 < closerGrace r"
    using life_inv_lifetime [OF assms] by (auto simp: life_inv_def)
  define ss where "ss = map snd (sessions r)"
  define r' where "r' = mark_released ss (unlink_all ss r)"
  have f: "forceCloseNow r = Some (length ss, r')"
    using close_each_returns [OF grace] by (simp add: forceCloseNow_def ForceCloseMatching_def ss_def r'_def Let_def)
  have "takes_out (ID ` set ss) r r'"
    unfolding r'_def by (rule unlink_all_takes_out [OF inv]) (auto simp: ss_def)
  moreover have "dom (map_of (sessions r)) \<subseteq> ID ` set ss"
    using session_keys [of r] inv by (simp add: ss_def registry_inv_def)
  ultimately have "map_of (sessions r') = Map.empty"
    by (auto simp: takes_out_def restrict_map_def fun_eq_iff)
  with f life_force [OF assms] show ?thesis by (auto simp: forceCloseNow_def Count_0_iff)
qed

lemma drain_member_empties:
  assumes "member_ready m"
  obtains m' where "drain_member now idleGrace reason phase m = Some m'" "memSpec m' = memSpec m"
    "member_ready m'" "emptied m \<longrightarrow> emptied m'" "Member_Phase (memSpec m) = phase \<longrightarrow> emptied m'"
proof -
  from assms obtain H ss where H: "lifetime (reg m) H"
    "\<And>e. e \<in> set (wait_events m) \<Longrightarrow> set (event_sessions e) \<subseteq> H" "Deadline ss \<in> set (wait_events m)"
    unfolding member_ready_def by blast
  have ready: "member_ready (m\<lparr>reg := r\<rparr>)" if "lifetime r H" for r
    using that H(2,3) by (auto simp: member_ready_def)
  consider "Member_Phase (memSpec m) \<noteq> phase"
    | "Member_Phase (memSpec m) = phase" "CancelNoWait (memSpec m)"
    | "Member_Phase (memSpec m) = phase" "\<not> CancelNoWait (memSpec m)" by blast
  then show thesis
  proof cases
    case 1
    with assms show thesis by (intro that [of m]) (simp_all add: drain_member_def)
  next
    case 2
    obtain n r' where "forceCloseNow (reg m) = Some (n, r')" "Count r' = 0" "lifetime r' H"
      using forceCloseNow_empties [OF H(1)] by blast
    with 2 ready show thesis
      by (intro that [of "m\<lparr>reg := r'\<rparr>"]) (simp_all add: drain_member_def emptied_def)
  next
    case 3
    have inv: "life_inv (reg m) H"
      "state (reg m) = StateOpen \<or> state (reg m) = StateClosed \<and> sessions (reg m) = []"
      using life_inv_lifetime [OF H(1)] by blast+
    obtain result r' where d: "drainWith None now idleGrace (wait_events m) reason (reg m) = Some (result, r')"
      using drain_returns [OF _ H(3), of "reg m"] inv(1) by (fastforce simp: life_inv_def)
    have l: "lifetime r' H" using life_drain [OF H(1) H(2) d] .
    have "Count r' = 0"
    proof (cases "state (reg m) = StateOpen")
      case True
      show ?thesis by (rule drain_complete(3) [OF inv(1) True H(2) d])
    next
      case False
      with inv(2) d show ?thesis by (auto simp: drainWith_def Count_def)
    qed
    with 3 d ready [OF l] show thesis
      by (intro that [of "m\<lparr>reg := r'\<rparr>"]) (simp_all add: drain_member_def emptied_def)
  qed
qed

text \<open>What draining a phase does to a member, as a relation between before and after.\<close>

definition drained :: "Phase \<Rightarrow> 'm member \<Rightarrow> 'm member \<Rightarrow> bool" where
  "drained phase m m' \<longleftrightarrow> memSpec m' = memSpec m \<and> member_ready m' \<and>
     (emptied m \<longrightarrow> emptied m') \<and> (Member_Phase (memSpec m) = phase \<longrightarrow> emptied m')"

lemma drain_members:
  "list_all member_ready ms \<Longrightarrow>
   \<exists>ms'. those (map (drain_member now idleGrace reason phase) ms) = Some ms' \<and> list_all2 (drained phase) ms ms'"
proof (induction ms)
  case (Cons m ms)
  then obtain ms' where "those (map (drain_member now idleGrace reason phase) ms) = Some ms'"
    "list_all2 (drained phase) ms ms'" by auto
  moreover obtain m' where "drain_member now idleGrace reason phase m = Some m'" "drained phase m m'"
    using drain_member_empties [of m now idleGrace reason phase] Cons.prems
    by (auto simp: drained_def)
  ultimately show ?case by simp
qed simp

section \<open>Draining in phase order\<close>

text \<open>
  A hook run is in order when the registries it could still depend on are empty: those of
  earlier phases, and for an after-hook those of its own phase.
\<close>

fun in_order :: "Phase set \<Rightarrow> Phase list \<Rightarrow> 'm event \<Rightarrow> bool" where
  "in_order D phases (HookRan p h ms) \<longleftrightarrow>
     (\<forall>m \<in> set ms.
        Member_Phase (memSpec m) \<in> D \<union> set (takeWhile (\<lambda>q. q \<noteq> p) phases) \<or>
        Member_Phase (memSpec m) = p \<and> timing h = hookAfter \<longrightarrow> emptied m)"

fun hook_run :: "'m event \<Rightarrow> Phase \<times> hook" where
  "hook_run (HookRan p h ms) = (p, h)"

definition phase_hooks :: "'m group \<Rightarrow> Phase \<Rightarrow> (Phase \<times> hook) list" where
  "phase_hooks g p = map (Pair p)
     (filter (\<lambda>h. timing h = hookBefore) (hooks g p) @ filter (\<lambda>h. timing h = hookAfter) (hooks g p))"

definition phases_emptied :: "Phase set \<Rightarrow> 'm group \<Rightarrow> bool" where
  "phases_emptied D g \<longleftrightarrow> (\<forall>m \<in> set (members g). Member_Phase (memSpec m) \<in> D \<longrightarrow> emptied m)"

lemma drained_emptied:
  assumes "list_all2 (drained phase) ms ms'" "\<forall>m \<in> set ms. Member_Phase (memSpec m) \<in> D \<longrightarrow> emptied m"
    "m' \<in> set ms'" "Member_Phase (memSpec m') \<in> insert phase D"
  shows "emptied m'"
proof -
  from assms(1,3) obtain m where "m \<in> set ms" "drained phase m m'"
    by (metis in_set_conv_nth list_all2_conv_all_nth)
  with assms(2,4) show ?thesis by (auto simp: drained_def)
qed

lemma drained_ready: "list_all2 (drained phase) ms ms' \<Longrightarrow> list_all member_ready ms'"
  by (induction rule: list_all2_induct) (simp_all add: drained_def)

lemma quiescePhase_step:
  assumes "list_all member_ready (members g)" "phases_emptied D g" "phase \<notin> D"
  obtains g' new where "quiescePhase now idleGrace reason phase (g, trace) = Some (g', trace @ new)"
    "list_all member_ready (members g')" "phases_emptied (insert phase D) g'" "hooks g' = hooks g"
    "list_all (in_order D (phase # rest)) new" "map hook_run new = phase_hooks g phase"
proof -
  obtain ms where ms: "those (map (drain_member now idleGrace reason phase) (members g)) = Some ms"
    "list_all2 (drained phase) (members g) ms"
    using drain_members [OF assms(1)] by blast
  define before where "before = map (runHook phase (members g)) (filter (\<lambda>h. timing h = hookBefore) (hooks g phase))"
  define after where "after = map (runHook phase ms) (filter (\<lambda>h. timing h = hookAfter) (hooks g phase))"
  have e: "emptied m" if "m \<in> set ms" "Member_Phase (memSpec m) \<in> insert phase D" for m
    using drained_emptied [OF ms(2)] assms(2) that by (auto simp: phases_emptied_def)
  show thesis
  proof (rule that [of "g\<lparr>members := ms\<rparr>" "before @ after"])
    show "quiescePhase now idleGrace reason phase (g, trace) = Some (g\<lparr>members := ms\<rparr>, trace @ before @ after)"
      using ms(1) by (simp add: quiescePhase_def before_def after_def)
    show "list_all (in_order D (phase # rest)) (before @ after)"
      using assms(2) e
      by (auto simp: before_def after_def runHook_def list_all_iff phases_emptied_def)
    show "map hook_run (before @ after) = phase_hooks g phase"
      by (simp add: before_def after_def runHook_def phase_hooks_def comp_def)
  qed (use drained_ready [OF ms(2)] e in \<open>auto simp: phases_emptied_def\<close>)
qed

lemma in_order_later:
  "p \<notin> fst ` set (map hook_run trace) \<Longrightarrow>
   list_all (in_order (insert p D) rest) trace \<Longrightarrow> list_all (in_order D (p # rest)) trace"
proof (induction trace)
  case (Cons ev trace)
  obtain q h ms where "ev = HookRan q h ms" by (cases ev)
  with Cons show ?case by auto
qed simp

lemma phase_hooks_fst: "fst ` set (concat (map (phase_hooks g) phases)) \<subseteq> set phases"
  by (auto simp: phase_hooks_def)

lemma quiesce_phases_in_order:
  assumes "list_all member_ready (members g)" "phases_emptied D g" "distinct phases" "set phases \<inter> D = {}"
  shows "\<exists>g' new. quiesce_phases now idleGrace reason phases (g, trace) = Some (g', trace @ new) \<and>
    phases_emptied (D \<union> set phases) g' \<and> list_all (in_order D phases) new \<and>
    map hook_run new = concat (map (phase_hooks g) phases)"
  using assms
proof (induction phases arbitrary: g D trace)
  case (Cons p phases)
  have "p \<notin> D" using Cons.prems(4) by simp
  obtain g1 new1 where 1: "quiescePhase now idleGrace reason p (g, trace) = Some (g1, trace @ new1)"
    "list_all member_ready (members g1)" "phases_emptied (insert p D) g1" "hooks g1 = hooks g"
    "list_all (in_order D (p # phases)) new1" "map hook_run new1 = phase_hooks g p"
    by (rule quiescePhase_step [OF Cons.prems(1,2) \<open>p \<notin> D\<close>])
  have same: "phase_hooks g1 = phase_hooks g" using 1(4) by (simp add: phase_hooks_def fun_eq_iff)
  obtain g2 new2 where 2:
    "quiesce_phases now idleGrace reason phases (g1, trace @ new1) = Some (g2, (trace @ new1) @ new2)"
    "phases_emptied (insert p D \<union> set phases) g2" "list_all (in_order (insert p D) phases) new2"
    "map hook_run new2 = concat (map (phase_hooks g) phases)"
    using Cons.IH [OF 1(2,3), of "trace @ new1"] Cons.prems(3,4) same by auto
  have "p \<notin> fst ` set (map hook_run new2)"
    using phase_hooks_fst [of g phases] Cons.prems(3) unfolding 2(4) by auto
  from in_order_later [OF this 2(3)] 1 2 show ?case
    by (intro exI [of _ g2] exI [of _ "new1 @ new2"]) (simp add: insert_commute)
qed simp


text \<open>A group with one ingress surface in use and a store that closes after the drain.\<close>

definition demo_group :: "unit group" where
  "demo_group =
     \<lparr>members = [\<lparr>reg = demo_registry,
        memSpec = \<lparr>Member_Phase = PhaseIngress, QuietRelevant = True, CancelNoWait = False\<rparr>,
        wait_events = [Tick [demo_session ''b'' ''a'' ClosePanics], Deadline []]\<rparr>],
      hooks = (\<lambda>_. [])(PhaseStorage := [\<lparr>hook_name = ''store'', timing = hookAfter, outcome = HookPanics\<rparr>])\<rparr>"


end
