(* ===== verification/Transcript_Model.thy ===== *)
theory Transcript_Model
  imports Reorient_Tag
begin

text \<open>
  The data of package \<open>internal/transcript\<close>: attachments, tool calls and text parts of a message
  (\<open>transcript.go\<close>) and the items a compaction saved (\<open>compaction_items.go\<close>). A pointer is an
  option, a \<open>json.RawMessage\<close> is its bytes with \<open>nil\<close> as the empty list, and a string type with
  named values is a datatype with one more constructor for the other strings.
\<close>

section \<open>Attachments, tool calls and text parts\<close>

record Attachment =
  Att_Kind :: bytes
  Att_DisplayName :: bytes
  Att_Path :: bytes
  Att_URL :: bytes
  Att_MIMEType :: bytes
  Att_SizeBytes :: int
  Att_Description :: bytes
  Att_AssetReference :: bytes
  Att_OmittedReason :: bytes
  Att_Text :: bytes

text \<open>
  The input of a tool call is opaque JSON; \<open>Tool_InputDescription\<close> is its field \<open>description\<close>, empty
  when the input is empty, does not decode or has no such field.
\<close>

record ToolCall =
  Tool_ID :: bytes
  Tool_Name :: bytes
  Tool_Input :: bytes
  Tool_InputDescription :: bytes
  Tool_Display :: bytes
  Tool_Output :: bytes
  Tool_IsError :: bool
  Tool_Attachments :: "Attachment list"

record MessageTextPart =
  Part_Text :: bytes
  Part_InjectedTranscript :: bool
  Part_TranscriptSpans :: "TranscriptSpan list"

datatype MessageVisibility =
    MessageVisibilityVisible | MessageVisibilityTranscriptOnly | MessageVisibilityMetaOnly | UnknownVisibility bytes

section \<open>Compacted context items\<close>

datatype CompactedContextItemKind =
    ItemKindMessage | ItemKindReasoning | ItemKindLocalShellCall | ItemKindFunctionCall | ItemKindToolSearchCall
  | ItemKindFunctionCallOutput | ItemKindCustomToolCall | ItemKindCustomToolCallOutput | ItemKindToolSearchOutput
  | ItemKindWebSearchCall | ItemKindImageGenerationCall | ItemKindCompaction | ItemKindCompactionTrigger
  | ItemKindContextCompaction | ItemKindOther | UnknownItemKind bytes

datatype CompactedMessageClass =
    CompactedMessageClassOrdinary | CompactedMessageClassSummary | UnknownMessageClass bytes

record CompactedMessageContentItem =
  Content_Type :: bytes
  Content_Text :: bytes
  Content_ImageURL :: bytes
  Content_Detail :: bytes
  Content_Raw :: bytes
  Content_TranscriptSpans :: "TranscriptSpan list"
  Content_UnresolvedTranscript :: bool

record CompactedMessageItem =
  Message_Role :: bytes
  Message_Phase :: bytes
  Message_Content :: "CompactedMessageContentItem list"
  Message_ContentRaw :: bytes
  Message_Class :: CompactedMessageClass
  Message_Raw :: bytes

record CompactedReasoningSummary =
  Summary_Type :: bytes
  Summary_Text :: bytes
  Summary_Raw :: bytes

record CompactedReasoningItem =
  Reasoning_Summary :: "CompactedReasoningSummary list"
  Reasoning_SummaryRaw :: bytes
  Reasoning_ContentRaw :: bytes
  Reasoning_EncryptedContent :: bytes
  Reasoning_Raw :: bytes

record CompactedLocalShellCallItem =
  Shell_CallID :: bytes
  Shell_Status :: bytes
  Shell_ActionRaw :: bytes
  Shell_Raw :: bytes

record CompactedFunctionCallItem =
  Function_Name :: bytes
  Function_Namespace :: bytes
  Function_Arguments :: bytes
  Function_CallID :: bytes
  Function_Raw :: bytes

record CompactedToolSearchCallItem =
  ToolSearch_CallID :: bytes
  ToolSearch_Status :: bytes
  ToolSearch_Execution :: bytes
  ToolSearch_ArgumentsRaw :: bytes
  ToolSearch_Raw :: bytes

record CompactedFunctionCallOutputItem =
  FunctionOutput_CallID :: bytes
  FunctionOutput_OutputRaw :: bytes
  FunctionOutput_Raw :: bytes

record CompactedCustomToolCallItem =
  Custom_CallID :: bytes
  Custom_Name :: bytes
  Custom_Input :: bytes
  Custom_Status :: bytes
  Custom_Raw :: bytes

record CompactedCustomToolCallOutputItem =
  CustomOutput_CallID :: bytes
  CustomOutput_Name :: bytes
  CustomOutput_OutputRaw :: bytes
  CustomOutput_Raw :: bytes

record CompactedToolSearchOutputItem =
  SearchOutput_CallID :: bytes
  SearchOutput_Status :: bytes
  SearchOutput_Execution :: bytes
  SearchOutput_ToolsRaw :: "bytes list"
  SearchOutput_Raw :: bytes

record CompactedWebSearchCallItem =
  WebSearch_ID :: bytes
  WebSearch_Status :: bytes
  WebSearch_ActionRaw :: bytes
  WebSearch_Raw :: bytes

record CompactedImageGenerationCallItem =
  Image_ID :: bytes
  Image_Status :: bytes
  Image_RevisedPrompt :: bytes
  Image_Result :: bytes
  Image_Raw :: bytes

record CompactedCompactionItem =
  Compaction_EncryptedContent :: bytes
  Compaction_Raw :: bytes

record CompactedCompactionTriggerItem =
  CompactionTrigger_Raw :: bytes

record CompactedContextCompactionItem =
  ContextCompaction_EncryptedContent :: bytes
  ContextCompaction_Raw :: bytes

record CompactedOtherItem =
  Other_Type :: bytes
  Other_Raw :: bytes

record CompactedContextItem =
  Item_Kind :: CompactedContextItemKind
  Item_Message :: "CompactedMessageItem option"
  Item_Reasoning :: "CompactedReasoningItem option"
  Item_LocalShellCall :: "CompactedLocalShellCallItem option"
  Item_FunctionCall :: "CompactedFunctionCallItem option"
  Item_ToolSearchCall :: "CompactedToolSearchCallItem option"
  Item_FunctionCallOutput :: "CompactedFunctionCallOutputItem option"
  Item_CustomToolCall :: "CompactedCustomToolCallItem option"
  Item_CustomToolCallOutput :: "CompactedCustomToolCallOutputItem option"
  Item_ToolSearchOutput :: "CompactedToolSearchOutputItem option"
  Item_WebSearchCall :: "CompactedWebSearchCallItem option"
  Item_ImageGenerationCall :: "CompactedImageGenerationCallItem option"
  Item_Compaction :: "CompactedCompactionItem option"
  Item_CompactionTrigger :: "CompactedCompactionTriggerItem option"
  Item_ContextCompaction :: "CompactedContextCompactionItem option"
  Item_Other :: "CompactedOtherItem option"

end
