(* ===== verification/Compaction.thy ===== *)
theory Compaction
  imports Transcript_Model Go_Utf8 "HOL-Library.Multiset"
begin

text \<open>
  Compacted conversations in package \<open>internal/conversation\<close>: the checkpoints of a
  transcript (\<open>compaction.go\<close>), the segments between them and the selector that picks
  segments for an export (\<open>compaction_segments.go\<close>), and the normalization of the export
  options (\<open>compaction_export.go\<close>). Messages carry the fields the conversation code reads. Indices that may be \<open>-1\<close> are integers, and an index out of range is the
  outcome \<open>Panic\<close>.
\<close>

section \<open>Messages and checkpoints\<close>

datatype CompactionKind =
    CompactionKindSummary | CompactionKindBoundary | CompactionKindMicroboundary | OtherCompactionKind bytes

record CompactionMetadata =
  Meta_Kind :: CompactionKind
  Meta_Trigger :: bytes
  Meta_MessagesSummarized :: int
  Meta_ReplacementHistoryCount :: int
  Meta_HeadUUID :: bytes
  Meta_AnchorUUID :: bytes
  Meta_TailUUID :: bytes
  Meta_ContextItems :: "CompactedContextItem list"

record TranscriptMessage =
  UUID :: bytes
  ParentUUID :: bytes
  LogicalParentUUID :: bytes
  Message_role :: bytes
  Visibility :: MessageVisibility
  Compaction :: "CompactionMetadata option"
  Timestamp :: int
  Text :: bytes
  Thinking :: bytes
  HasTools :: bool
  Tools :: "ToolCall list"
  Attachments :: "Attachment list"
  TextParts :: "MessageTextPart list"

record CompactionCheckpoint =
  BoundaryIndex :: int
  BoundaryUUID :: bytes
  SummaryIndex :: int
  SummaryUUID :: bytes
  ContextItems :: "CompactedContextItem list"
  Trigger :: bytes
  HeadUUID :: bytes
  AnchorUUID :: bytes
  TailUUID :: bytes
  MessagesSummarized :: int
  ReplacementHistoryCount :: int

definition CompactionTriggerUnknown :: bytes where "CompactionTriggerUnknown = ''unknown''"

definition CompactionMessages :: "TranscriptMessage list \<Rightarrow> TranscriptMessage list" where
  "CompactionMessages messages = filter (\<lambda>m. Compaction m \<noteq> None) messages"

definition emptyCompactionCheckpoint :: "CompactionCheckpoint" where
  "emptyCompactionCheckpoint =
     \<lparr>BoundaryIndex = -1, BoundaryUUID = [], SummaryIndex = -1, SummaryUUID = [], ContextItems = [],
      Trigger = CompactionTriggerUnknown, HeadUUID = [], AnchorUUID = [], TailUUID = [],
      MessagesSummarized = 0, ReplacementHistoryCount = 0\<rparr>"

definition metadataCheckpoint ::
    "int \<Rightarrow> bytes \<Rightarrow> int \<Rightarrow> bytes \<Rightarrow> CompactionMetadata option \<Rightarrow> CompactionCheckpoint" where
  "metadataCheckpoint boundary boundaryUUID summary summaryUUID metadata =
     (case metadata of
        None \<Rightarrow> emptyCompactionCheckpoint\<lparr>BoundaryIndex := boundary, BoundaryUUID := boundaryUUID,
                  SummaryIndex := summary, SummaryUUID := summaryUUID\<rparr>
      | Some md \<Rightarrow>
          \<lparr>BoundaryIndex = boundary, BoundaryUUID = boundaryUUID,
           SummaryIndex = summary, SummaryUUID = summaryUUID,
           ContextItems = Meta_ContextItems md, Trigger = Meta_Trigger md,
           HeadUUID = Meta_HeadUUID md, AnchorUUID = Meta_AnchorUUID md, TailUUID = Meta_TailUUID md,
           MessagesSummarized = Meta_MessagesSummarized md,
           ReplacementHistoryCount = Meta_ReplacementHistoryCount md\<rparr>)"

definition boundaryCheckpoint :: "nat \<Rightarrow> TranscriptMessage \<Rightarrow> CompactionCheckpoint" where
  "boundaryCheckpoint index message = metadataCheckpoint (int index) (UUID message) (-1) [] (Compaction message)"

definition summaryOnlyCheckpoint :: "nat \<Rightarrow> TranscriptMessage \<Rightarrow> CompactionCheckpoint" where
  "summaryOnlyCheckpoint index message = metadataCheckpoint (-1) [] (int index) (UUID message) (Compaction message)"

definition firstNonZeroInt :: "int \<Rightarrow> int \<Rightarrow> int" where
  "firstNonZeroInt a b = (if a \<noteq> 0 then a else b)"

definition attachSummaryCheckpoint ::
    "CompactionCheckpoint \<Rightarrow> nat \<Rightarrow> TranscriptMessage \<Rightarrow> CompactionCheckpoint" where
  "attachSummaryCheckpoint checkpoint summaryIndex summary =
     (let c = checkpoint\<lparr>SummaryIndex := int summaryIndex, SummaryUUID := UUID summary\<rparr> in
      case Compaction summary of
        None \<Rightarrow> c
      | Some md \<Rightarrow>
          c\<lparr>ContextItems := ContextItems c @ Meta_ContextItems md,
            MessagesSummarized := firstNonZeroInt (MessagesSummarized c) (Meta_MessagesSummarized md),
            ReplacementHistoryCount :=
              firstNonZeroInt (ReplacementHistoryCount c) (Meta_ReplacementHistoryCount md)\<rparr>)"

definition isCompactionSummary :: "TranscriptMessage \<Rightarrow> bool" where
  "isCompactionSummary message =
     (case Compaction message of None \<Rightarrow> False | Some md \<Rightarrow> Meta_Kind md = CompactionKindSummary)"

definition summaryAttachesToBoundary :: "TranscriptMessage \<Rightarrow> TranscriptMessage \<Rightarrow> bool" where
  "summaryAttachesToBoundary boundary summary \<longleftrightarrow>
     ParentUUID summary = UUID boundary \<or> LogicalParentUUID summary = UUID boundary \<or>
     ParentUUID summary = [] \<and> LogicalParentUUID summary = []"

text \<open>The loop over the messages from \<open>index\<close> on, with the set of attached summaries.\<close>

fun checkpoints_from :: "nat \<Rightarrow> nat set \<Rightarrow> TranscriptMessage list \<Rightarrow> CompactionCheckpoint list" where
  "checkpoints_from index attached [] = []"
| "checkpoints_from index attached (message # rest) =
     (if index \<in> attached then checkpoints_from (index + 1) attached rest
      else case Compaction message of
        None \<Rightarrow> checkpoints_from (index + 1) attached rest
      | Some md \<Rightarrow>
          (case Meta_Kind md of
             CompactionKindBoundary \<Rightarrow>
               (case rest of
                  [] \<Rightarrow> boundaryCheckpoint index message # checkpoints_from (index + 1) attached rest
                | nextMessage # _ \<Rightarrow>
                    if isCompactionSummary nextMessage \<and> summaryAttachesToBoundary message nextMessage
                    then attachSummaryCheckpoint (boundaryCheckpoint index message) (index + 1) nextMessage
                         # checkpoints_from (index + 1) (insert (index + 1) attached) rest
                    else boundaryCheckpoint index message # checkpoints_from (index + 1) attached rest)
           | CompactionKindMicroboundary \<Rightarrow>
               boundaryCheckpoint index message # checkpoints_from (index + 1) attached rest
           | CompactionKindSummary \<Rightarrow>
               summaryOnlyCheckpoint index message # checkpoints_from (index + 1) attached rest
           | OtherCompactionKind _ \<Rightarrow> checkpoints_from (index + 1) attached rest))"

definition CompactionCheckpoints :: "TranscriptMessage list \<Rightarrow> CompactionCheckpoint list" where
  "CompactionCheckpoints messages =
     (if CompactionMessages messages = [] then [] else checkpoints_from 0 {} messages)"

definition HasUsableCompactedContext :: "CompactionCheckpoint \<Rightarrow> bool" where
  "HasUsableCompactedContext checkpoint \<longleftrightarrow> ContextItems checkpoint \<noteq> []"

section \<open>Segments\<close>

record CompactionSegment =
  Index :: nat
  StartMessageIndex :: nat
  EndMessageIndex :: nat
  HasStartingSummary :: bool
  SummaryMessageIndex :: int
  Segment_SummaryUUID :: bytes
  SummaryTimestamp :: "int option"
  VisibleMessageCount :: nat
  ToolCallCount :: nat
  Checkpoint :: "CompactionCheckpoint"

definition checkpointSegmentStart :: "CompactionCheckpoint \<Rightarrow> int" where
  "checkpointSegmentStart c = (if SummaryIndex c \<ge> 0 then SummaryIndex c else BoundaryIndex c)"

definition checkpointSegmentStarts :: "CompactionCheckpoint list \<Rightarrow> nat \<Rightarrow> nat list" where
  "checkpointSegmentStarts checkpoints messageCount =
     map nat (filter (\<lambda>start. \<not> (start < 0 \<or> start \<ge> int messageCount))
       (map checkpointSegmentStart checkpoints))"

definition compactionSegmentSummaryUUID :: "CompactionCheckpoint \<Rightarrow> bytes" where
  "compactionSegmentSummaryUUID c = (if SummaryUUID c \<noteq> [] then SummaryUUID c else BoundaryUUID c)"

text \<open>The zero time is \<open>None\<close>.\<close>

definition compactionSegmentSummaryTimestamp :: "TranscriptMessage list \<Rightarrow> int \<Rightarrow> int option" where
  "compactionSegmentSummaryTimestamp messages summaryIndex =
     (if summaryIndex < 0 \<or> summaryIndex \<ge> int (length messages) then None
      else Some (Timestamp (messages ! nat summaryIndex)))"

definition slice :: "'a list \<Rightarrow> nat \<Rightarrow> nat \<Rightarrow> 'a list" where
  "slice xs start end = drop start (take end xs)"

definition countVisibleMessages :: "TranscriptMessage list \<Rightarrow> nat \<Rightarrow> nat \<Rightarrow> nat" where
  "countVisibleMessages messages start end =
     length (filter (\<lambda>m. Compaction m = None \<and> Visibility m \<noteq> MessageVisibilityMetaOnly) (slice messages start end))"

definition countToolCalls :: "TranscriptMessage list \<Rightarrow> nat \<Rightarrow> nat \<Rightarrow> nat" where
  "countToolCalls messages start end = sum_list (map (\<lambda>m. length (Tools m)) (slice messages start end))"

definition plainSegment :: "TranscriptMessage list \<Rightarrow> nat \<Rightarrow> CompactionSegment" where
  "plainSegment messages end =
     \<lparr>Index = 0, StartMessageIndex = 0, EndMessageIndex = end, HasStartingSummary = False,
      SummaryMessageIndex = -1, Segment_SummaryUUID = [], SummaryTimestamp = None,
      VisibleMessageCount = countVisibleMessages messages 0 end,
      ToolCallCount = countToolCalls messages 0 end, Checkpoint = emptyCompactionCheckpoint\<rparr>"

definition checkpointSegment ::
    "TranscriptMessage list \<Rightarrow> nat \<Rightarrow> nat \<Rightarrow> CompactionCheckpoint \<Rightarrow> CompactionSegment" where
  "checkpointSegment messages start end c =
     (let summaryIndex = (if SummaryIndex c < 0 then BoundaryIndex c else SummaryIndex c) in
      \<lparr>Index = 0, StartMessageIndex = start, EndMessageIndex = end,
       HasStartingSummary = (summaryIndex \<ge> 0), SummaryMessageIndex = summaryIndex,
       Segment_SummaryUUID = compactionSegmentSummaryUUID c,
       SummaryTimestamp = compactionSegmentSummaryTimestamp messages summaryIndex,
       VisibleMessageCount = countVisibleMessages messages start end,
       ToolCallCount = countToolCalls messages start end, Checkpoint = c\<rparr>)"

text \<open>The loop over the checkpoints, which reads \<open>starts\<close> at the checkpoint's position.\<close>

fun segments_from ::
    "TranscriptMessage list \<Rightarrow> nat list \<Rightarrow> nat \<Rightarrow> CompactionCheckpoint list \<Rightarrow>
     CompactionSegment list outcome" where
  "segments_from messages starts i [] = Returns []"
| "segments_from messages starts i (c # cs) =
     (if i \<ge> length starts then Panic
      else let start = starts ! i;
               end' = (if i + 1 < length starts then starts ! (i + 1) else length messages)
           in case segments_from messages starts (i + 1) cs of
                Panic \<Rightarrow> Panic
              | Returns rest \<Rightarrow>
                  Returns (if start \<ge> end' then rest
                           else checkpointSegment messages start end' c # rest))"

definition number_segments :: "CompactionSegment list \<Rightarrow> CompactionSegment list" where
  "number_segments chronological =
     map (\<lambda>(i, s). s\<lparr>Index := length chronological - 1 - i\<rparr>) (enumerate 0 chronological)"

definition CompactionSegments :: "TranscriptMessage list \<Rightarrow> CompactionSegment list outcome" where
  "CompactionSegments messages =
     (let checkpoints = CompactionCheckpoints messages;
          starts = checkpointSegmentStarts checkpoints (length messages)
      in if starts = [] then Returns [plainSegment messages (length messages)]
         else case segments_from messages starts 0 checkpoints of
                Panic \<Rightarrow> Panic
              | Returns segs \<Rightarrow>
                  Returns (rev (number_segments
                    ((if starts ! 0 > 0 then [plainSegment messages (starts ! 0)] else []) @ segs))))"

section \<open>Segments tile the transcript\<close>

lemma metadataCheckpoint_indices [simp]:
  "BoundaryIndex (metadataCheckpoint b bu s su md) = b"
  "SummaryIndex (metadataCheckpoint b bu s su md) = s"
  by (simp_all add: metadataCheckpoint_def split: option.split)

lemma checkpointSegmentStart_simps [simp]:
  "checkpointSegmentStart (boundaryCheckpoint i m) = int i"
  "checkpointSegmentStart (summaryOnlyCheckpoint i m) = int i"
  "checkpointSegmentStart (attachSummaryCheckpoint c i m) = int i"
  by (simp_all add: checkpointSegmentStart_def boundaryCheckpoint_def summaryOnlyCheckpoint_def
      attachSummaryCheckpoint_def Let_def split: option.split)

lemma checkpoints_from_cases:
  assumes "i \<notin> attached" "Compaction m = Some md"
  obtains (attached) n ns where "rest = n # ns"
      "checkpoints_from i attached (m # rest) =
         attachSummaryCheckpoint (boundaryCheckpoint i m) (i + 1) n
           # checkpoints_from (i + 1) (insert (i + 1) attached) rest"
    | (skipped) "checkpoints_from i attached (m # rest) = checkpoints_from (i + 1) attached rest"
    | (own) c where "checkpoints_from i attached (m # rest) = c # checkpoints_from (i + 1) attached rest"
        "checkpointSegmentStart c = int i"
proof (cases "Meta_Kind md")
  case CompactionKindSummary
  with assms show thesis by (intro own [of "summaryOnlyCheckpoint i m"]) simp_all
next
  case CompactionKindMicroboundary
  with assms show thesis by (intro own [of "boundaryCheckpoint i m"]) simp_all
next
  case (OtherCompactionKind k)
  with assms show thesis by (intro skipped) simp
next
  case CompactionKindBoundary
  show thesis
  proof (cases "\<exists>n ns. rest = n # ns \<and> isCompactionSummary n \<and> summaryAttachesToBoundary m n")
    case True
    then obtain n ns where "rest = n # ns" "isCompactionSummary n \<and> summaryAttachesToBoundary m n" by blast
    with assms CompactionKindBoundary show thesis by (intro attached [of n ns]) simp_all
  next
    case False
    then have "checkpoints_from i attached (m # rest) =
        boundaryCheckpoint i m # checkpoints_from (i + 1) attached rest"
      using assms CompactionKindBoundary by (cases rest) auto
    then show thesis by (intro own [of "boundaryCheckpoint i m"]) simp_all
  qed
qed

lemma checkpoints_from_starts:
  "sorted_wrt (<) (map checkpointSegmentStart (checkpoints_from i attached ms)) \<and>
   (\<forall>x \<in> set (map checkpointSegmentStart (checkpoints_from i attached ms)).
      int i \<le> x \<and> (i \<in> attached \<longrightarrow> int i < x) \<and> x < int (i + length ms))"
proof (induction ms arbitrary: i attached)
  case (Cons m rest)
  note here = Cons.IH [of "i + 1" attached]
  note attach = Cons.IH [of "i + 1" "insert (i + 1) attached"]
  show ?case
  proof (cases "i \<in> attached \<or> Compaction m = None")
    case True
    with here show ?thesis by force
  next
    case False
    then obtain md where md: "i \<notin> attached" "Compaction m = Some md" by auto
    from md show ?thesis
    proof (cases rule: checkpoints_from_cases [where rest = rest])
      case attached
      with attach show ?thesis by force
    next
      case skipped
      with here show ?thesis by force
    next
      case own
      with here show ?thesis by force
    qed
  qed
qed simp

lemma CompactionCheckpoints_starts:
  assumes "cs = CompactionCheckpoints messages"
  defines "starts \<equiv> checkpointSegmentStarts cs (length messages)"
  shows "length starts = length cs" "sorted_wrt (<) starts" "\<forall>s \<in> set starts. s < length messages"
proof -
  let ?f = "map checkpointSegmentStart cs"
  have f: "sorted_wrt (<) ?f" "\<forall>x \<in> set ?f. 0 \<le> x \<and> x < int (length messages)"
    using checkpoints_from_starts [of 0 "{}" messages] assms(1)
    by (auto simp: CompactionCheckpoints_def)
  have "filter (\<lambda>start. \<not> (start < 0 \<or> start \<ge> int (length messages))) ?f = ?f"
    using f(2) by (intro filter_True) force
  then have eq: "starts = map nat ?f"
    unfolding starts_def checkpointSegmentStarts_def by (rule arg_cong)
  show "length starts = length cs" by (simp add: eq)
  have "sorted_wrt (\<lambda>x y. nat x < nat y) ?f"
    by (rule sorted_wrt_mono_rel [OF _ f(1)]) (use f(2) in force)
  then show "sorted_wrt (<) starts" by (simp add: eq sorted_wrt_map)
  show "\<forall>s \<in> set starts. s < length messages" using f(2) by (auto simp: eq nat_less_iff)
qed

fun tiles :: "nat \<Rightarrow> CompactionSegment list \<Rightarrow> nat \<Rightarrow> bool" where
  "tiles a [] b \<longleftrightarrow> a = b"
| "tiles a (s # ss) b \<longleftrightarrow>
     StartMessageIndex s = a \<and> a < EndMessageIndex s \<and> tiles (EndMessageIndex s) ss b"

lemma checkpointSegment_fields [simp]:
  "StartMessageIndex (checkpointSegment ms a b c) = a" "EndMessageIndex (checkpointSegment ms a b c) = b"
  "Checkpoint (checkpointSegment ms a b c) = c"
  by (simp_all add: checkpointSegment_def Let_def)

lemma segments_from_tile:
  assumes "sorted_wrt (<) starts" "\<forall>s \<in> set starts. s < length messages"
    "i + length cs = length starts" "cs \<noteq> []"
  shows "\<exists>segs. segments_from messages starts i cs = Returns segs \<and>
    tiles (starts ! i) segs (length messages) \<and> map Checkpoint segs = cs"
  using assms(3,4)
proof (induction cs arbitrary: i)
  case (Cons c cs)
  define e where "e = (if i + 1 < length starts then starts ! (i + 1) else length messages)"
  have e: "starts ! i < e"
    using sorted_wrt_nth_less [OF assms(1), of i "i + 1"] assms(2) Cons.prems(1)
    by (auto simp: e_def)
  obtain rest where "segments_from messages starts (i + 1) cs = Returns rest"
    "tiles e rest (length messages)" "map Checkpoint rest = cs"
  proof (cases "cs = []")
    case True
    with Cons.prems(1) that [of "[]"] show ?thesis by (simp add: e_def)
  next
    case False
    with Cons.prems(1) have "e = starts ! (i + 1)" by (cases cs) (simp_all add: e_def)
    with Cons.IH [of "i + 1"] Cons.prems(1) False that show ?thesis by force
  qed
  moreover have "i < length starts" using Cons.prems(1) by simp
  ultimately show ?case
    using e by (auto simp: Let_def e_def)
qed simp

lemma number_segments_fields:
  "map Index (number_segments xs) = rev [0..<length xs]"
  "length (number_segments xs) = length xs"
  by (auto simp: number_segments_def comp_def split_beta rev_nth intro!: nth_equalityI)
     (auto simp: nth_enumerate_eq)

lemma tiles_update: "tiles a (map (\<lambda>(i, s). s\<lparr>Index := f i\<rparr>) (enumerate n xs)) b = tiles a xs b"
  by (induction xs arbitrary: a n) auto

lemma CompactionSegments_form:
  assumes "messages \<noteq> []"
  obtains all where "CompactionSegments messages = Returns (rev (number_segments all))"
    "tiles 0 (number_segments all) (length messages)" "all \<noteq> []"
proof -
  define cs where "cs = CompactionCheckpoints messages"
  define starts where "starts = checkpointSegmentStarts cs (length messages)"
  note st = CompactionCheckpoints_starts [OF cs_def, folded starts_def]
  show ?thesis
  proof (cases "starts = []")
    case True
    with assms that [of "[plainSegment messages (length messages)]"] show ?thesis
      by (simp add: CompactionSegments_def plainSegment_def number_segments_def flip: cs_def starts_def)
  next
    case False
    with st(1) have "cs \<noteq> []" "0 + length cs = length starts" by auto
    with segments_from_tile [OF st(2,3)] obtain segs where s:
      "segments_from messages starts 0 cs = Returns segs" "tiles (starts ! 0) segs (length messages)"
      "map Checkpoint segs = cs" by blast
    define all where "all = (if starts ! 0 > 0 then [plainSegment messages (starts ! 0)] else []) @ segs"
    have "tiles 0 all (length messages)"
      using s(2) by (cases "starts ! 0 > 0") (simp_all add: all_def plainSegment_def)
    then have "tiles 0 (number_segments all) (length messages)"
      unfolding number_segments_def tiles_update .
    moreover have "CompactionSegments messages = Returns (rev (number_segments all))"
      using False s(1) by (simp add: CompactionSegments_def all_def flip: cs_def starts_def)
    moreover have "all \<noteq> []" using \<open>cs \<noteq> []\<close> s(3) by (auto simp: all_def)
    ultimately show ?thesis using that by blast
  qed
qed

lemma numbered_rev:
  "map Index (rev (number_segments xs)) = [0..<length (rev (number_segments xs))]"
  using number_segments_fields [of xs] by (simp flip: rev_map)

text \<open>
  C34. The segments of a compacted conversation cut it up completely: \<open>CompactionSegments\<close>
  never reads its start table out of range; its segments, numbered from zero for the newest,
  are non-empty, adjacent, and cover the transcript from its first to its last message.
\<close>

theorem CompactionSegments_tile:
  assumes "messages \<noteq> []"
  shows "\<exists>segs. CompactionSegments messages = Returns segs \<and> map Index segs = [0..<length segs] \<and>
    tiles 0 (rev segs) (length messages)"
  using assms numbered_rev by (cases rule: CompactionSegments_form) auto

definition demo_message :: "CompactionMetadata option \<Rightarrow> TranscriptMessage" where
  "demo_message c = \<lparr>UUID = ''m'', ParentUUID = [], LogicalParentUUID = [], Message_role = ''user'',
     Visibility = MessageVisibilityVisible, Compaction = c, Timestamp = 0, Text = [], Thinking = [], HasTools = False, Tools = [],
     Attachments = [], TextParts = []\<rparr>"

theorem CompactionSegments_tile_witness:
  "[demo_message None] \<noteq> [] \<and>
   (\<exists>segs. CompactionSegments [demo_message None] = Returns segs \<and> map Index segs = [0..<length segs] \<and>
     tiles 0 (rev segs) (length [demo_message None]))"
  using CompactionSegments_tile [of "[demo_message None]"] by simp

section \<open>Selecting segments\<close>

datatype selector_error = NoSegments | SegmentsUpTo nat | InvalidSelector bytes nat

record CompactionSegmentSelection =
  Selector :: bytes
  Segments :: "CompactionSegment list"

definition defaultCompactionSelector :: bytes where "defaultCompactionSelector = ''0''"

definition parseCompactionSelectorIndex :: "bytes \<Rightarrow> nat \<Rightarrow> selector_error + nat" where
  "parseCompactionSelectorIndex raw maxSegment =
     (case atoi (trim_space raw) of
        None \<Rightarrow> Inl (InvalidSelector raw maxSegment)
      | Some v \<Rightarrow> if v < 0 \<or> v > int maxSegment then Inl (SegmentsUpTo maxSegment) else Inr (nat v))"

definition parseCompactionSelectorRange :: "bytes \<Rightarrow> nat \<Rightarrow> nat set \<Rightarrow> selector_error + nat set" where
  "parseCompactionSelectorRange raw maxSegment selected =
     (case split_str raw ''..'' of
        [a, b] \<Rightarrow>
          if a = [] \<or> b = [] then Inl (InvalidSelector raw maxSegment)
          else (case parseCompactionSelectorIndex a maxSegment of
                  Inl e \<Rightarrow> Inl e
                | Inr start \<Rightarrow>
                    (case parseCompactionSelectorIndex b maxSegment of
                       Inl e \<Rightarrow> Inl e
                     | Inr end' \<Rightarrow>
                         if start > end' then Inl (InvalidSelector raw maxSegment)
                         else Inr (selected \<union> {start..end'})))
      | _ \<Rightarrow> Inl (InvalidSelector raw maxSegment))"

fun selector_parts :: "bytes \<Rightarrow> nat \<Rightarrow> bytes list \<Rightarrow> nat set \<Rightarrow> selector_error + nat set" where
  "selector_parts selector maxSegment [] selected = Inr selected"
| "selector_parts selector maxSegment (part # parts) selected =
     (let trimmed = trim_space part in
      if trimmed = [] then Inl (InvalidSelector selector maxSegment)
      else if contains trimmed ''..''
      then (case parseCompactionSelectorRange trimmed maxSegment selected of
              Inl e \<Rightarrow> Inl e
            | Inr selected' \<Rightarrow> selector_parts selector maxSegment parts selected')
      else (case parseCompactionSelectorIndex trimmed maxSegment of
              Inl e \<Rightarrow> Inl e
            | Inr v \<Rightarrow> selector_parts selector maxSegment parts (insert v selected)))"

definition parseCompactionSelector :: "bytes \<Rightarrow> nat \<Rightarrow> selector_error + nat set" where
  "parseCompactionSelector selector maxSegment =
     (if selector = ''all'' then Inr {0..maxSegment}
      else selector_parts selector maxSegment (split_byte selector CHR '','') {})"

definition maxCompactionSegmentIndex :: "CompactionSegment list \<Rightarrow> nat" where
  "maxCompactionSegmentIndex segs = fold (\<lambda>s m. if Index s > m then Index s else m) segs 0"

definition normalized_selector :: "bytes \<Rightarrow> bytes" where
  "normalized_selector selector =
     (let n = trim_space selector in if n = [] then defaultCompactionSelector else n)"

definition SelectCompactionSegments ::
    "CompactionSegment list \<Rightarrow> bytes \<Rightarrow> selector_error + CompactionSegmentSelection" where
  "SelectCompactionSegments segs selector =
     (let normalized = normalized_selector selector in
      if segs = [] then Inl NoSegments
      else let maxSegment = maxCompactionSegmentIndex segs in
        case parseCompactionSelector normalized maxSegment of
          Inl e \<Rightarrow> Inl e
        | Inr indexSet \<Rightarrow>
            let selected = filter (\<lambda>s. Index s \<in> indexSet) segs in
            if selected = [] then Inl (SegmentsUpTo maxSegment)
            else Inr \<lparr>Selector = normalized,
                      Segments = sort_key (\<lambda>s. - int (Index s)) selected\<rparr>)"

section \<open>What a selector selects\<close>

lemma parse_index_le: "parseCompactionSelectorIndex raw n = Inr v \<Longrightarrow> v \<le> n"
  by (auto simp: parseCompactionSelectorIndex_def split: option.splits if_splits)

lemma parse_range_subset:
  assumes "parseCompactionSelectorRange raw n sel = Inr sel'" "sel \<subseteq> {0..n}"
  shows "sel' \<subseteq> {0..n} \<and> sel' \<noteq> {}"
proof -
  obtain i j b where "\<not> j < i" "sel' = sel \<union> {i..j}" "parseCompactionSelectorIndex b n = Inr j"
    using assms(1)
    by (auto simp: parseCompactionSelectorRange_def split: list.splits if_splits sum.splits)
  with parse_index_le [of b n j] assms(2) show ?thesis by auto
qed

lemma selector_parts_subset:
  "selector_parts sel n parts s = Inr out \<Longrightarrow> s \<subseteq> {0..n} \<Longrightarrow>
   out \<subseteq> {0..n} \<and> (parts \<noteq> [] \<or> s \<noteq> {} \<longrightarrow> out \<noteq> {})"
proof (induction parts arbitrary: s)
  case (Cons part parts)
  show ?case
  proof (cases "contains (trim_space part) ''..''")
    case True
    with Cons.prems(1) obtain s' where s': "parseCompactionSelectorRange (trim_space part) n s = Inr s'"
      "selector_parts sel n parts s' = Inr out"
      by (auto simp: Let_def split: if_splits sum.splits)
    with parse_range_subset [OF s'(1) Cons.prems(2)] Cons.IH [of s'] show ?thesis by blast
  next
    case False
    with Cons.prems(1) obtain v where v: "parseCompactionSelectorIndex (trim_space part) n = Inr v"
      "selector_parts sel n parts (insert v s) = Inr out"
      by (auto simp: Let_def split: if_splits sum.splits)
    with parse_index_le [OF v(1)] Cons.prems(2) Cons.IH [of "insert v s"] show ?thesis by auto
  qed
qed simp

lemma parseCompactionSelector_subset:
  assumes "parseCompactionSelector sel n = Inr s"
  shows "s \<noteq> {}" "s \<subseteq> {0..n}"
  using assms selector_parts_subset [of sel n "split_byte sel CHR '',''" "{}" s]
  by (auto simp: parseCompactionSelector_def split: if_splits)

lemma max_index_numbered:
  assumes "map Index segs = [0..<length segs]"
  shows "maxCompactionSegmentIndex segs = length segs - 1"
proof -
  have "fold (\<lambda>s m. if Index s > m then Index s else m) segs a = fold max (map Index segs) a" for a
    by (induction segs arbitrary: a) (simp_all add: max_def)
  moreover have "fold max [0..<n] 0 = n - 1" for n :: nat
    by (induction n) simp_all
  ultimately show ?thesis unfolding maxCompactionSegmentIndex_def assms by simp
qed

lemma filter_same_key:
  "distinct (map f xs) \<Longrightarrow> k \<in> set xs \<Longrightarrow> filter (\<lambda>x. f k = f x) xs = [k]"
  by (induction xs) (auto simp: filter_empty_conv, metis image_eqI)

lemma sort_descending:
  assumes "sorted_wrt (<) (map (f :: 'a \<Rightarrow> nat) xs)"
  shows "sort_key (\<lambda>x. - int (f x)) xs = rev xs"
proof (rule properties_for_sort_key)
  show "mset (rev xs) = mset xs" by simp
  show "sorted (map (\<lambda>x. - int (f x)) (rev xs))"
    using assms by (simp add: sorted_wrt_map sorted_wrt_rev) (rule sorted_wrt_mono_rel, auto)
  have d: "distinct (map f xs)" using assms strict_sorted_iff by blast
  show "filter (\<lambda>x. - int (f k) = - int (f x)) (rev xs) = filter (\<lambda>x. - int (f k) = - int (f x)) xs"
    if "k \<in> set (rev xs)" for k
    using filter_same_key [OF d, of k] that by (simp flip: rev_filter)
qed

text \<open>
  Selecting from a numbered stack of segments is exact: the segments whose numbers the
  selector names, oldest first, or the selector's error; a selector that parses always names
  at least one existing segment, so the final check for an empty selection never fires.
\<close>

lemma SelectCompactionSegments_exact:
  assumes "segs \<noteq> []" and "map Index segs = [0..<length segs]"
  shows "SelectCompactionSegments segs selector =
    (case parseCompactionSelector (normalized_selector selector) (length segs - 1) of
       Inl e \<Rightarrow> Inl e
     | Inr S \<Rightarrow> Inr \<lparr>Selector = normalized_selector selector,
                     Segments = rev (filter (\<lambda>s. Index s \<in> S) segs)\<rparr>)"
proof (cases "parseCompactionSelector (normalized_selector selector) (length segs - 1)")
  case (Inl e)
  then show ?thesis
    using assms by (simp add: SelectCompactionSegments_def max_index_numbered)
next
  case (Inr S)
  note S = parseCompactionSelector_subset [OF Inr]
  from S(1) obtain i where i: "i \<in> S" by blast
  with S(2) have "i \<le> length segs - 1" by (simp add: subset_iff)
  with assms(1) have "i < length segs" by (cases segs) simp_all
  with i have "i \<in> S" "i < length segs" by simp_all
  then have "Index (segs ! i) \<in> S" using arg_cong [OF assms(2), of "\<lambda>l. l ! i"] by simp
  with \<open>i < length segs\<close> have ne: "filter (\<lambda>s. Index s \<in> S) segs \<noteq> []"
    by (auto simp: filter_empty_conv)
  have "sorted_wrt (<) (map Index segs)" unfolding assms(2) by simp
  then have "sorted_wrt (<) (map Index (filter (\<lambda>s. Index s \<in> S) segs))"
    unfolding sorted_wrt_map by (rule sorted_wrt_filter)
  from sort_descending [OF this] Inr ne assms show ?thesis
    by (simp add: SelectCompactionSegments_def max_index_numbered Let_def)
qed

definition demo_segments :: "CompactionSegment list" where
  "demo_segments = rev (number_segments
     [plainSegment [demo_message None, demo_message None] 1,
      checkpointSegment [demo_message None, demo_message None] 1 2 emptyCompactionCheckpoint])"

lemma SelectCompactionSegments_exact_witness:
  "demo_segments \<noteq> [] \<and> map Index demo_segments = [0..<length demo_segments] \<and>
   SelectCompactionSegments demo_segments ''0,1'' =
     (case parseCompactionSelector (normalized_selector ''0,1'') (length demo_segments - 1) of
        Inl e \<Rightarrow> Inl e
      | Inr S \<Rightarrow> Inr \<lparr>Selector = normalized_selector ''0,1'',
                      Segments = rev (filter (\<lambda>s. Index s \<in> S) demo_segments)\<rparr>)"
proof -
  have "demo_segments \<noteq> []" by (simp add: demo_segments_def number_segments_def)
  moreover have "map Index demo_segments = [0..<length demo_segments]"
    unfolding demo_segments_def by (rule numbered_rev)
  ultimately show ?thesis using SelectCompactionSegments_exact by blast
qed

section \<open>Written selectors\<close>

lemma digit_plain:
  assumes "list_all is_digit ds"
  shows "c \<in> set ds \<Longrightarrow> byte c < 128 \<and> \<not> is_space (byte c) \<and> c \<noteq> CHR ''.'' \<and> c \<noteq> CHR '','' \<and> c \<noteq> CHR ''a''"
  using assms by (auto simp: list_all_iff is_digit_def byte_def is_space_def)

lemma trim_space_digits: "list_all is_digit ds \<Longrightarrow> trim_space ds = ds"
  using digit_plain [of ds "hd ds"] digit_plain [of ds "last ds"]
  by (cases "ds = []") (auto intro: trim_space_plain)

lemma no_dots_digits: "list_all is_digit ds \<Longrightarrow> \<not> contains ds ''..''"
  using digit_plain [of ds "CHR ''.''"] by (auto simp: contains_iff)

lemma index_of_skip: "CHR ''.'' \<notin> set xs \<Longrightarrow> index_of (xs @ ''..'' @ ys) ''..'' = Some (length xs)"
  by (induction xs) (auto simp: has_prefix_def)

lemma parse_digits_index:
  "i \<le> n \<Longrightarrow> int n \<le> max_int \<Longrightarrow> parseCompactionSelectorIndex (nat_digits i) n = Inr i"
  by (simp add: parseCompactionSelectorIndex_def trim_space_digits nat_digits_are_digits)

text \<open>
  A written range reads back: for segment numbers \<open>i\<close> up to \<open>j\<close> within the stack, the
  selector \<open>i..j\<close> in decimal selects exactly the segments from \<open>i\<close> to \<open>j\<close>.
\<close>

lemma parseCompactionSelector_range:
  assumes "i \<le> j" and "j \<le> n" and "int n \<le> max_int"
  shows "parseCompactionSelector (itoa (int i) @ ''..'' @ itoa (int j)) n = Inr {i..j}"
proof -
  let ?a = "nat_digits i" and ?b = "nat_digits j"
  let ?s = "?a @ ''..'' @ ?b"
  note d = nat_digits_are_digits [of i] nat_digits_are_digits [of j]
  note ne = nat_digits_nonempty [of i] nat_digits_nonempty [of j]
  have commas: "CHR '','' \<notin> set ?s" using digit_plain [OF d(1)] digit_plain [OF d(2)] by auto
  have hd_s: "hd ?s = hd ?a" "last ?s = last ?b" using ne by simp_all
  have trim: "trim_space ?s = ?s"
    using digit_plain [OF d(1), of "hd ?a"] digit_plain [OF d(2), of "last ?b"] ne hd_s
    by (intro trim_space_plain) simp_all
  have not_all: "?s \<noteq> ''all''"
    using digit_plain [OF d(1), of "hd ?a"] ne hd_s(1) by (metis list.sel(1) hd_in_set)
  have "CHR ''.'' \<notin> set ?a" using digit_plain [OF d(1)] by auto
  note idx = index_of_skip [OF this, of ?b]
  have split: "split_str ?s ''..'' = [?a, ?b]"
    using split_str_found [OF idx] split_str_none [OF no_dots_digits [OF d(2)]] by simp
  have "parseCompactionSelectorRange ?s n {} = Inr {i..j}"
    using split ne assms by (simp add: parseCompactionSelectorRange_def parse_digits_index)
  moreover have "contains ?s ''..''" using idx by (simp add: contains_def)
  ultimately have "selector_parts ?s n [?s] {} = Inr {i..j}" using trim ne by (simp add: Let_def)
  then show ?thesis
    using not_all split_byte_none [OF commas] by (simp add: parseCompactionSelector_def itoa_def)
qed

section \<open>Export options\<close>

record CompactionExportOptions =
  IncludeSelector :: bytes
  FullHistory :: bool

datatype option_error = HistoryStartNegative | LastNNegative | FullHistoryConflict bytes | HistoryStartConflict

definition NormalizeCompactionExportOptions ::
    "CompactionExportOptions \<Rightarrow> int \<Rightarrow> int \<Rightarrow> option_error + CompactionExportOptions" where
  "NormalizeCompactionExportOptions options historyStart lastN =
     (if historyStart < 0 then Inl HistoryStartNegative
      else if lastN < 0 then Inl LastNNegative
      else let sel = trim_space (IncludeSelector options) in
        if FullHistory options \<and> sel \<noteq> [] \<and> sel \<noteq> ''all'' then Inl (FullHistoryConflict sel)
        else let sel1 = (if FullHistory options then ''all'' else sel);
                 sel2 = (if sel1 = [] then defaultCompactionSelector else sel1)
             in if historyStart > 0 \<and> sel2 \<noteq> ''all'' then Inl HistoryStartConflict
                else Inr (options\<lparr>IncludeSelector := sel2\<rparr>))"


lemma trim_all: "trim_space ''all'' = ''all''"
  by (rule trim_space_plain) (simp_all add: byte_def is_space_def)

lemma SelectCompactionSegments_all:
  assumes "segs \<noteq> []" "map Index segs = [0..<length segs]"
  shows "SelectCompactionSegments segs ''all'' = Inr \<lparr>Selector = ''all'', Segments = rev segs\<rparr>"
proof -
  have "Index s \<in> {0..length segs - 1}" if "s \<in> set segs" for s
  proof -
    have "Index s \<in> set (map Index segs)" using that by simp
    then show ?thesis unfolding assms(2) by auto
  qed
  then have "filter (\<lambda>s. Index s \<in> {0..length segs - 1}) segs = segs" by (simp add: filter_id_conv)
  moreover have "sorted_wrt (<) (map Index segs)" unfolding assms(2) by simp
  note sort_descending [OF this]
  ultimately show ?thesis
    using assms by (simp add: SelectCompactionSegments_def normalized_selector_def trim_all
        max_index_numbered parseCompactionSelector_def Let_def)
qed

text \<open>
  A full-history export keeps the whole transcript. When the options are accepted and ask for
  the full history, or for a start offset into it, the normalized selector picks every segment,
  oldest first, and these segments cover the transcript without gap or overlap.
\<close>

lemma full_history_covers_transcript:
  assumes "NormalizeCompactionExportOptions options historyStart lastN = Inr normalized"
    and "FullHistory options \<or> historyStart > 0" and "messages \<noteq> []"
  shows "\<exists>segs sel. CompactionSegments messages = Returns segs \<and>
    SelectCompactionSegments segs (IncludeSelector normalized) = Inr sel \<and>
    tiles 0 (Segments sel) (length messages)"
proof -
  have sel: "IncludeSelector normalized = ''all''"
    using assms(1,2) by (auto simp: NormalizeCompactionExportOptions_def Let_def split: if_splits)
  from assms(3) obtain all where all: "CompactionSegments messages = Returns (rev (number_segments all))"
    "tiles 0 (number_segments all) (length messages)" "all \<noteq> []" by (rule CompactionSegments_form)
  have "rev (number_segments all) \<noteq> []"
    using all(3) number_segments_fields(2) [of all] by force
  from SelectCompactionSegments_all [OF this numbered_rev] all sel show ?thesis by simp
qed

lemma full_history_covers_transcript_witness:
  "\<exists>segs sel. CompactionSegments [demo_message None] = Returns segs \<and>
    SelectCompactionSegments segs ''all'' = Inr sel \<and> tiles 0 (Segments sel) 1"
proof -
  have "NormalizeCompactionExportOptions \<lparr>IncludeSelector = [], FullHistory = True\<rparr> 0 0 =
      Inr \<lparr>IncludeSelector = ''all'', FullHistory = True\<rparr>"
    by (simp add: NormalizeCompactionExportOptions_def)
  from full_history_covers_transcript [OF this, of "[demo_message None]"] show ?thesis by simp
qed

text \<open>
  Every rejection of the export options, and only those: a negative offset, a negative count, a
  full history combined with another selector, and an offset combined with a selector other
  than \<open>all\<close>; in all other cases the options are accepted.
\<close>

lemma NormalizeCompactionExportOptions_errors:
  "(\<exists>normalized. NormalizeCompactionExportOptions options historyStart lastN = Inr normalized) =
   (historyStart \<ge> 0 \<and> lastN \<ge> 0 \<and>
    (if FullHistory options then trim_space (IncludeSelector options) \<in> {[], ''all''}
     else historyStart = 0 \<or> trim_space (IncludeSelector options) = ''all''))"
  by (auto simp: NormalizeCompactionExportOptions_def defaultCompactionSelector_def Let_def)

end
