(* ===== verification/Export_Filter.thy ===== *)
theory Export_Filter
  imports Compaction Content_Kind
begin

text \<open>
  The content filter of an export in package \<open>internal/conversation\<close>: the selection of saved
  compaction items by content kind (\<open>export_compaction_filter.go\<close>) and the reading of transcripts
  that an earlier compaction injected into a summary or a message (\<open>export_injected_transcript.go\<close>).
  Offsets of transcript spans that a provider parser attached are data; a slice outside the text is
  the outcome \<open>Panic\<close>.
\<close>

section \<open>Slices and searches\<close>

definition substring :: "bytes \<Rightarrow> nat \<Rightarrow> nat \<Rightarrow> bytes outcome" where
  "substring s start stop = (if start \<le> stop \<and> stop \<le> length s then Returns (drop start (take stop s)) else Panic)"

fun contains_func :: "('a \<Rightarrow> bool outcome) \<Rightarrow> 'a list \<Rightarrow> bool outcome" where
  "contains_func f [] = Returns False"
| "contains_func f (x # xs) = and_then (f x) (\<lambda>found. if found then Returns True else contains_func f xs)"

text \<open>\<open>json.Marshal\<close> of a string, with its escapes for HTML and for invalid UTF-8.\<close>

definition hex4 :: "nat \<Rightarrow> bytes" where
  "hex4 n = map (\<lambda>i. hex_char (n div 16 ^ i mod 16)) [3, 2, 1, 0]"

definition json_rune :: "rune \<Rightarrow> bytes" where
  "json_rune r =
     (if r = 34 \<or> r = 92 then [CHR 0x5C, char_of r]
      else if r = 8 then [CHR 0x5C, CHR ''b''] else if r = 12 then [CHR 0x5C, CHR ''f'']
      else if r = 10 then [CHR 0x5C, CHR ''n''] else if r = 13 then [CHR 0x5C, CHR ''r'']
      else if r = 9 then [CHR 0x5C, CHR ''t'']
      else if r < 32 \<or> r \<in> {60, 62, 38, 0x2028, 0x2029} then [CHR 0x5C, CHR ''u''] @ hex4 r
      else encode_rune r)"

function json_runes :: "bytes \<Rightarrow> bytes" where
  "json_runes s =
     (if s = [] then []
      else (if decode_rune s = (rune_error, 1) then [CHR 0x5C] @ ''ufffd'' else json_rune (fst (decode_rune s))) @
        json_runes (drop (snd (decode_rune s)) s))"
  by pat_completeness auto
termination
  by (relation "measure length") (use decode_rune_size_pos in auto)

declare json_runes.simps [simp del]

definition injectedOutputRaw :: "bytes \<Rightarrow> bytes" where
  "injectedOutputRaw s = [CHR 0x22] @ json_runes s @ [CHR 0x22]"

section \<open>Content kinds of saved items\<close>

definition compactedRoleDeveloper :: bytes where "compactedRoleDeveloper = ''developer''"
definition compactedRoleSystem :: bytes where "compactedRoleSystem = ''system''"
definition compactedDataURLPrefix :: bytes where "compactedDataURLPrefix = ''data:''"

definition hasToolContent :: "ContentKindSet \<Rightarrow> bool" where
  "hasToolContent content \<longleftrightarrow>
     Has content ContentKindToolSummaries \<or> Has content ContentKindToolCalls \<or> Has content ContentKindToolOutputs"

definition compactedMessageSelected :: "CompactedMessageItem option \<Rightarrow> ContentKindSet \<Rightarrow> bool" where
  "compactedMessageSelected message content =
     (case message of
        None \<Rightarrow> False
      | Some m \<Rightarrow>
          if Message_Class m = CompactedMessageClassSummary then Has content ContentKindChat
          else if Message_Role m = compactedRoleDeveloper \<or> Message_Role m = compactedRoleSystem
          then Has content ContentKindSystemPrompts
          else Has content ContentKindChat)"

fun compactedItemSelected :: "CompactedContextItem \<Rightarrow> ContentKindSet \<Rightarrow> bool" where
  "compactedItemSelected item content =
     (case Item_Kind item of
        ItemKindMessage \<Rightarrow> compactedMessageSelected (Item_Message item) content
      | ItemKindReasoning \<Rightarrow> Has content ContentKindThinking
      | ItemKindLocalShellCall \<Rightarrow> hasToolContent content
      | ItemKindFunctionCall \<Rightarrow> hasToolContent content
      | ItemKindToolSearchCall \<Rightarrow> hasToolContent content
      | ItemKindCustomToolCall \<Rightarrow> hasToolContent content
      | ItemKindWebSearchCall \<Rightarrow> hasToolContent content
      | ItemKindImageGenerationCall \<Rightarrow> hasToolContent content
      | ItemKindFunctionCallOutput \<Rightarrow> Has content ContentKindToolOutputs
      | ItemKindCustomToolCallOutput \<Rightarrow> Has content ContentKindToolOutputs
      | ItemKindToolSearchOutput \<Rightarrow> Has content ContentKindToolOutputs
      | _ \<Rightarrow> Has content ContentKindRawJSONMetadata)"

definition contentItemWithoutRaw :: "CompactedMessageContentItem \<Rightarrow> CompactedMessageContentItem" where
  "contentItemWithoutRaw c =
     (let c = c\<lparr>Content_Raw := []\<rparr> in
      if has_prefix (Content_ImageURL c) compactedDataURLPrefix then c\<lparr>Content_ImageURL := []\<rparr> else c)"

definition compactedMessageWithoutRaw :: "CompactedMessageItem \<Rightarrow> CompactedMessageItem" where
  "compactedMessageWithoutRaw m =
     m\<lparr>Message_Raw := [], Message_ContentRaw := [], Message_Content := map contentItemWithoutRaw (Message_Content m)\<rparr>"

definition compactedReasoningWithoutRaw :: "CompactedReasoningItem \<Rightarrow> CompactedReasoningItem" where
  "compactedReasoningWithoutRaw r =
     r\<lparr>Reasoning_Raw := [], Reasoning_SummaryRaw := [], Reasoning_EncryptedContent := [],
       Reasoning_Summary := map (\<lambda>s. s\<lparr>Summary_Raw := []\<rparr>) (Reasoning_Summary r)\<rparr>"

definition compactedToolOutputWithoutRaw :: "CompactedContextItem \<Rightarrow> CompactedContextItem" where
  "compactedToolOutputWithoutRaw item =
     item\<lparr>Item_FunctionCallOutput := map_option (\<lambda>out. out\<lparr>FunctionOutput_Raw := []\<rparr>) (Item_FunctionCallOutput item),
          Item_CustomToolCallOutput := map_option (\<lambda>out. out\<lparr>CustomOutput_Raw := []\<rparr>) (Item_CustomToolCallOutput item),
          Item_ToolSearchOutput := map_option (\<lambda>out. out\<lparr>SearchOutput_Raw := []\<rparr>) (Item_ToolSearchOutput item)\<rparr>"

definition compactedToolItemWithoutRaw :: "CompactedContextItem \<Rightarrow> CompactedContextItem" where
  "compactedToolItemWithoutRaw item = compactedToolOutputWithoutRaw
     (item\<lparr>Item_LocalShellCall := map_option (\<lambda>c. c\<lparr>Shell_Raw := []\<rparr>) (Item_LocalShellCall item),
           Item_FunctionCall := map_option (\<lambda>c. c\<lparr>Function_Raw := []\<rparr>) (Item_FunctionCall item),
           Item_ToolSearchCall := map_option (\<lambda>c. c\<lparr>ToolSearch_Raw := []\<rparr>) (Item_ToolSearchCall item),
           Item_CustomToolCall := map_option (\<lambda>c. c\<lparr>Custom_Raw := []\<rparr>) (Item_CustomToolCall item),
           Item_WebSearchCall := map_option (\<lambda>c. c\<lparr>WebSearch_Raw := []\<rparr>) (Item_WebSearchCall item),
           Item_ImageGenerationCall :=
             map_option (\<lambda>c. c\<lparr>Image_Raw := [], Image_Result := []\<rparr>) (Item_ImageGenerationCall item)\<rparr>)"

definition compactedItemWithoutRaw :: "CompactedContextItem \<Rightarrow> CompactedContextItem" where
  "compactedItemWithoutRaw item = compactedToolItemWithoutRaw
     (item\<lparr>Item_Message := map_option compactedMessageWithoutRaw (Item_Message item),
           Item_Reasoning := map_option compactedReasoningWithoutRaw (Item_Reasoning item)\<rparr>)"

definition compactedCallSummary :: "CompactedContextItem \<Rightarrow> CompactedContextItem" where
  "compactedCallSummary item =
     item\<lparr>Item_LocalShellCall := map_option (\<lambda>c. c\<lparr>Shell_ActionRaw := []\<rparr>) (Item_LocalShellCall item),
          Item_FunctionCall := map_option (\<lambda>c. c\<lparr>Function_Arguments := []\<rparr>) (Item_FunctionCall item),
          Item_ToolSearchCall := map_option (\<lambda>c. c\<lparr>ToolSearch_ArgumentsRaw := []\<rparr>) (Item_ToolSearchCall item),
          Item_CustomToolCall := map_option (\<lambda>c. c\<lparr>Custom_Input := []\<rparr>) (Item_CustomToolCall item),
          Item_WebSearchCall := map_option (\<lambda>c. c\<lparr>WebSearch_ActionRaw := []\<rparr>) (Item_WebSearchCall item),
          Item_ImageGenerationCall := map_option (\<lambda>c. c\<lparr>Image_RevisedPrompt := []\<rparr>) (Item_ImageGenerationCall item)\<rparr>"

section \<open>Injected transcripts\<close>

definition injectedChatContentType :: bytes where "injectedChatContentType = ''text''"
definition injectedThinkingSummaryType :: bytes where "injectedThinkingSummaryType = ''thinking''"
definition liveTextPartSeparator :: bytes where "liveTextPartSeparator = [newline, newline]"

type_synonym injectedTranscriptResolver = "CompactedMessageContentItem \<Rightarrow> TranscriptSpan list"

definition resolveFramedTranscriptSpans :: injectedTranscriptResolver where
  "resolveFramedTranscriptSpans content = ParseTranscriptSpans (Content_Text content)"

definition resolveParsedTranscriptSpans :: injectedTranscriptResolver where
  "resolveParsedTranscriptSpans content = Content_TranscriptSpans content"

definition injectedTranscriptResolvers :: "injectedTranscriptResolver list" where
  "injectedTranscriptResolvers = [resolveParsedTranscriptSpans, resolveFramedTranscriptSpans]"

definition messageTranscriptResolvers :: "CompactedMessageItem \<Rightarrow> injectedTranscriptResolver list" where
  "messageTranscriptResolvers m =
     (if Message_Class m = CompactedMessageClassSummary then injectedTranscriptResolvers else [resolveParsedTranscriptSpans])"

fun resolveInjectedTranscriptSpans :: "CompactedMessageContentItem \<Rightarrow> injectedTranscriptResolver list \<Rightarrow> TranscriptSpan list" where
  "resolveInjectedTranscriptSpans content [] = []"
| "resolveInjectedTranscriptSpans content (resolver # resolvers) =
     (let spans = resolver content in if spans \<noteq> [] then spans else resolveInjectedTranscriptSpans content resolvers)"

fun outside_spans :: "bytes \<Rightarrow> nat \<Rightarrow> TranscriptSpan list \<Rightarrow> bytes outcome" where
  "outside_spans s previousEnd [] = substring s previousEnd (length s)"
| "outside_spans s previousEnd (span # spans) =
     and_then (substring s previousEnd (Span_Start span)) (\<lambda>piece.
       and_then (outside_spans s (Span_End span) spans) (\<lambda>rest. Returns (piece @ rest)))"

definition unresolvedInjectedTranscript :: "CompactedMessageContentItem \<Rightarrow> bool outcome" where
  "unresolvedInjectedTranscript content =
     and_then (outside_spans (Content_Text content) 0 (resolveInjectedTranscriptSpans content injectedTranscriptResolvers))
       (\<lambda>outside. Returns (ContainsTranscriptWrapper outside))"

definition unresolvedParsedTranscript :: "CompactedMessageContentItem \<Rightarrow> bool outcome" where
  "unresolvedParsedTranscript content = Returns (Content_UnresolvedTranscript content)"

definition unresolved_item :: "CompactedContextItem \<Rightarrow> bool outcome" where
  "unresolved_item item =
     (case Item_Message item of
        Some m \<Rightarrow>
          if Item_Kind item \<noteq> ItemKindMessage then Returns False
          else contains_func
            (if Message_Class m = CompactedMessageClassSummary then unresolvedInjectedTranscript else unresolvedParsedTranscript)
            (Message_Content m)
      | None \<Rightarrow> Returns False)"

fun unresolved_segments :: "CompactionSegment list \<Rightarrow> bytes option outcome" where
  "unresolved_segments [] = Returns None"
| "unresolved_segments (segment # segments) =
     (if \<not> HasStartingSummary segment then unresolved_segments segments
      else and_then (contains_func unresolved_item (ContextItems (Checkpoint segment))) (\<lambda>found.
        if found then Returns (Some (Segment_SummaryUUID segment)) else unresolved_segments segments))"

definition unresolvedInjectedTranscriptSummary :: "CompactionSegmentSelection \<Rightarrow> bytes option outcome" where
  "unresolvedInjectedTranscriptSummary selection = unresolved_segments (Segments selection)"

definition emptyInjectedContextItem :: "CompactedContextItemKind \<Rightarrow> CompactedContextItem" where
  "emptyInjectedContextItem kind =
     \<lparr>Item_Kind = kind, Item_Message = None, Item_Reasoning = None, Item_LocalShellCall = None, Item_FunctionCall = None,
      Item_ToolSearchCall = None, Item_FunctionCallOutput = None, Item_CustomToolCall = None, Item_CustomToolCallOutput = None,
      Item_ToolSearchOutput = None, Item_WebSearchCall = None, Item_ImageGenerationCall = None, Item_Compaction = None,
      Item_CompactionTrigger = None, Item_ContextCompaction = None, Item_Other = None\<rparr>"

definition injected_content :: "bytes \<Rightarrow> TranscriptSpan list \<Rightarrow> CompactedMessageContentItem" where
  "injected_content s spans =
     \<lparr>Content_Type = injectedChatContentType, Content_Text = s, Content_ImageURL = [], Content_Detail = [], Content_Raw = [],
      Content_TranscriptSpans = spans, Content_UnresolvedTranscript = False\<rparr>"

definition injectedMessageItem :: "bytes \<Rightarrow> bytes \<Rightarrow> CompactedContextItem" where
  "injectedMessageItem role s =
     (emptyInjectedContextItem ItemKindMessage)\<lparr>Item_Message := Some
       \<lparr>Message_Role = role, Message_Phase = [], Message_Content = [injected_content s []], Message_ContentRaw = [],
        Message_Class = CompactedMessageClassOrdinary, Message_Raw = []\<rparr>\<rparr>"

definition injectedOtherItem :: "bytes \<Rightarrow> CompactedContextItem" where
  "injectedOtherItem s =
     (emptyInjectedContextItem ItemKindOther)\<lparr>Item_Other := Some
       \<lparr>Other_Type = kind_string SegmentKindOther, Other_Raw = injectedOutputRaw s\<rparr>\<rparr>"

definition injectedSegmentItem :: "Segment \<Rightarrow> CompactedContextItem" where
  "injectedSegmentItem segment =
     (case Segment_Kind segment of
        SegmentKindThinking \<Rightarrow> (emptyInjectedContextItem ItemKindReasoning)\<lparr>Item_Reasoning := Some
          \<lparr>Reasoning_Summary = [\<lparr>Summary_Type = injectedThinkingSummaryType, Summary_Text = Segment_Text segment, Summary_Raw = []\<rparr>],
           Reasoning_SummaryRaw = [], Reasoning_ContentRaw = [], Reasoning_EncryptedContent = [], Reasoning_Raw = []\<rparr>\<rparr>
      | SegmentKindToolCall \<Rightarrow> (emptyInjectedContextItem ItemKindFunctionCall)\<lparr>Item_FunctionCall := Some
          \<lparr>Function_Name = [], Function_Namespace = [], Function_Arguments = Segment_Text segment, Function_CallID = [],
           Function_Raw = []\<rparr>\<rparr>
      | SegmentKindToolOutput \<Rightarrow> (emptyInjectedContextItem ItemKindFunctionCallOutput)\<lparr>Item_FunctionCallOutput := Some
          \<lparr>FunctionOutput_CallID = [], FunctionOutput_OutputRaw = injectedOutputRaw (Segment_Text segment), FunctionOutput_Raw = []\<rparr>\<rparr>
      | SegmentKindSystem \<Rightarrow> injectedMessageItem compactedRoleSystem (Segment_Text segment)
      | SegmentKindChat \<Rightarrow> injectedMessageItem (role_string (Segment_Role segment)) (Segment_Text segment)
      | SegmentKindOther \<Rightarrow> injectedOtherItem (Segment_Text segment))"

definition appendSummaryProse ::
    "CompactedMessageContentItem list \<Rightarrow> CompactedMessageContentItem \<Rightarrow> bytes \<Rightarrow> CompactedMessageContentItem list" where
  "appendSummaryProse prose source s =
     (if trim_space s = [] then prose
      else prose @ [source\<lparr>Content_Text := s, Content_Raw := [], Content_TranscriptSpans := []\<rparr>])"

definition appendSummaryItem ::
    "CompactedContextItem list \<Rightarrow> CompactedMessageItem \<Rightarrow> CompactedMessageContentItem list \<Rightarrow> CompactedContextItem list" where
  "appendSummaryItem items m prose =
     (if prose = [] then items
      else items @ [(emptyInjectedContextItem ItemKindMessage)\<lparr>Item_Message := Some
        (m\<lparr>Message_Content := prose, Message_ContentRaw := [], Message_Raw := []\<rparr>)\<rparr>])"

text \<open>The loop over the spans of one content item, with the items and the prose collected so far.\<close>

fun expand_spans ::
    "CompactedMessageItem \<Rightarrow> CompactedMessageContentItem \<Rightarrow> nat \<Rightarrow> TranscriptSpan list \<Rightarrow> CompactedContextItem list \<Rightarrow>
     CompactedMessageContentItem list \<Rightarrow> (CompactedContextItem list \<times> CompactedMessageContentItem list) outcome" where
  "expand_spans m c previousEnd [] expanded prose =
     and_then (substring (Content_Text c) previousEnd (length (Content_Text c))) (\<lambda>s.
       Returns (expanded, appendSummaryProse prose c s))"
| "expand_spans m c previousEnd (span # spans) expanded prose =
     and_then (substring (Content_Text c) previousEnd (Span_Start span)) (\<lambda>s.
       expand_spans m c (Span_End span) spans
         (appendSummaryItem expanded m (appendSummaryProse prose c s) @ map injectedSegmentItem (Span_Segments span)) [])"

text \<open>The loop over the content items of a message.\<close>

fun expand_contents ::
    "CompactedMessageItem \<Rightarrow> CompactedMessageContentItem list \<Rightarrow> CompactedContextItem list \<Rightarrow> CompactedMessageContentItem list \<Rightarrow>
     bool \<Rightarrow> (CompactedContextItem list \<times> CompactedMessageContentItem list \<times> bool) outcome" where
  "expand_contents m [] expanded prose resolved = Returns (expanded, prose, resolved)"
| "expand_contents m (c # cs) expanded prose resolved =
     (let spans = resolveInjectedTranscriptSpans c (messageTranscriptResolvers m) in
      if spans = [] then expand_contents m cs expanded (prose @ [c]) resolved
      else and_then (expand_spans m c 0 spans expanded prose) (\<lambda>(expanded, prose). expand_contents m cs expanded prose True))"

definition expandInjectedTranscriptItem :: "CompactedContextItem \<Rightarrow> CompactedContextItem list outcome" where
  "expandInjectedTranscriptItem item =
     (case Item_Message item of
        None \<Rightarrow> Returns [item]
      | Some m \<Rightarrow>
          if Item_Kind item \<noteq> ItemKindMessage then Returns [item]
          else and_then (expand_contents m (Message_Content m) [] [] False) (\<lambda>(expanded, prose, resolved).
            if \<not> resolved then Returns [item] else Returns (appendSummaryItem expanded m prose)))"

fun expandInjectedTranscriptItems :: "CompactedContextItem list \<Rightarrow> CompactedContextItem list outcome" where
  "expandInjectedTranscriptItems [] = Returns []"
| "expandInjectedTranscriptItems (item # items) =
     and_then (expandInjectedTranscriptItem item) (\<lambda>expanded.
       and_then (expandInjectedTranscriptItems items) (\<lambda>rest. Returns (expanded @ rest)))"

section \<open>The filter\<close>

definition filtered_item :: "ContentKindSet \<Rightarrow> CompactedContextItem \<Rightarrow> CompactedContextItem" where
  "filtered_item content item =
     (let item = compactedItemWithoutRaw item in
      if \<not> Has content ContentKindToolCalls \<and> \<not> Has content ContentKindToolOutputs then compactedCallSummary item else item)"

definition filterCompactionContextItems ::
    "CompactedContextItem list \<Rightarrow> ContentKindSet \<Rightarrow> CompactedContextItem list outcome" where
  "filterCompactionContextItems items content =
     (if Has content ContentKindRawJSONMetadata then Returns items
      else and_then (expandInjectedTranscriptItems items) (\<lambda>expanded.
        Returns (map (filtered_item content) (filter (\<lambda>item. compactedItemSelected item content) expanded))))"

fun filter_segments :: "CompactionSegment list \<Rightarrow> ContentKindSet \<Rightarrow> CompactionSegment list outcome" where
  "filter_segments [] content = Returns []"
| "filter_segments (segment # segments) content =
     and_then (filterCompactionContextItems (ContextItems (Checkpoint segment)) content) (\<lambda>items.
       and_then (filter_segments segments content) (\<lambda>rest.
         Returns (segment\<lparr>Checkpoint := (Checkpoint segment)\<lparr>ContextItems := items\<rparr>\<rparr> # rest)))"

definition filterCompactionSelectionItems ::
    "CompactionSegmentSelection \<Rightarrow> ContentKindSet \<Rightarrow> CompactionSegmentSelection outcome" where
  "filterCompactionSelectionItems selection content =
     and_then (filter_segments (Segments selection) content) (\<lambda>segments. Returns (selection\<lparr>Segments := segments\<rparr>))"

definition selectedInjectedSegments :: "Segment list \<Rightarrow> ContentKindSet \<Rightarrow> Segment list" where
  "selectedInjectedSegments segments content =
     map (\<lambda>segment.
         if Segment_Kind segment = SegmentKindToolCall \<and> \<not> (Has content ContentKindToolCalls \<or> Has content ContentKindToolOutputs)
         then segment\<lparr>Segment_Text := []\<rparr> else segment)
       (filter (\<lambda>segment. compactedItemSelected (injectedSegmentItem segment) content) segments)"

fun find_content :: "bytes \<Rightarrow> CompactedContextItem list \<Rightarrow> CompactedMessageContentItem option" where
  "find_content s [] = None"
| "find_content s (item # items) =
     (case Item_Message item of
        None \<Rightarrow> find_content s items
      | Some m \<Rightarrow>
          if Item_Kind item \<noteq> ItemKindMessage \<or> Message_Class m \<noteq> CompactedMessageClassSummary then find_content s items
          else (case find (\<lambda>c. Content_Text c = s) (Message_Content m) of Some c \<Rightarrow> Some c | None \<Rightarrow> find_content s items))"

definition summaryContentItemForText :: "bytes \<Rightarrow> CompactedContextItem list \<Rightarrow> CompactedMessageContentItem" where
  "summaryContentItemForText s items = (case find_content s items of Some c \<Rightarrow> c | None \<Rightarrow> injected_content s [])"

fun filter_spans :: "bytes \<Rightarrow> nat \<Rightarrow> TranscriptSpan list \<Rightarrow> ContentKindSet \<Rightarrow> bytes outcome" where
  "filter_spans s previousEnd [] content = substring s previousEnd (length s)"
| "filter_spans s previousEnd (span # spans) content =
     and_then (substring s previousEnd (Span_Start span)) (\<lambda>piece.
       and_then (filter_spans s (Span_End span) spans content) (\<lambda>rest.
         Returns (piece @ FramedTranscript (selectedInjectedSegments (Span_Segments span) content) @ rest)))"

definition filterInjectedTranscriptText :: "bytes \<Rightarrow> CompactedContextItem list \<Rightarrow> ContentKindSet \<Rightarrow> bytes outcome" where
  "filterInjectedTranscriptText s items content =
     (let spans = resolveInjectedTranscriptSpans (summaryContentItemForText s items) injectedTranscriptResolvers
      in if spans = [] then Returns s else filter_spans s 0 spans content)"

definition filter_message :: "ContentKindSet \<Rightarrow> TranscriptMessage \<Rightarrow> TranscriptMessage outcome" where
  "filter_message content message =
     (case Compaction message of
        None \<Rightarrow> Returns message
      | Some metadata \<Rightarrow>
          and_then (filterCompactionContextItems (Meta_ContextItems metadata) content) (\<lambda>items.
            let message' = message\<lparr>Compaction := Some (metadata\<lparr>Meta_ContextItems := items\<rparr>)\<rparr> in
            if Meta_Kind metadata = CompactionKindSummary \<and> \<not> Has content ContentKindRawJSONMetadata
            then and_then (filterInjectedTranscriptText (Text message) (Meta_ContextItems metadata) content) (\<lambda>s.
              Returns (message'\<lparr>Text := s\<rparr>))
            else Returns message'))"

fun filterCompactionMessageItems :: "TranscriptMessage list \<Rightarrow> ContentKindSet \<Rightarrow> TranscriptMessage list outcome" where
  "filterCompactionMessageItems [] content = Returns []"
| "filterCompactionMessageItems (message # messages) content =
     and_then (filter_message content message) (\<lambda>message.
       and_then (filterCompactionMessageItems messages content) (\<lambda>rest. Returns (message # rest)))"

section \<open>Live messages\<close>

definition liveTranscriptPartUnresolved :: "MessageTextPart \<Rightarrow> bool outcome" where
  "liveTranscriptPartUnresolved part =
     (if \<not> Part_InjectedTranscript part then Returns False
      else if Part_TranscriptSpans part = [] then Returns True
      else unresolvedInjectedTranscript (injected_content (Part_Text part) (Part_TranscriptSpans part)))"

fun unresolved_live_from :: "nat \<Rightarrow> TranscriptMessage list \<Rightarrow> nat option outcome" where
  "unresolved_live_from index [] = Returns None"
| "unresolved_live_from index (message # messages) =
     and_then (contains_func liveTranscriptPartUnresolved (TextParts message)) (\<lambda>found.
       if found then Returns (Some index) else unresolved_live_from (index + 1) messages)"

definition unresolvedLiveTranscriptIndex :: "TranscriptMessage list \<Rightarrow> nat option outcome" where
  "unresolvedLiveTranscriptIndex messages = unresolved_live_from 0 messages"

definition selectedLiveText :: "MessageTextPart \<Rightarrow> ContentKindSet \<Rightarrow> bytes" where
  "selectedLiveText part content =
     (if \<not> Part_InjectedTranscript part then (if Has content ContentKindChat then Part_Text part else [])
      else join (map FramedTranscript (filter (\<lambda>segments. segments \<noteq> [])
        (map (\<lambda>span. selectedInjectedSegments (Span_Segments span) content) (Part_TranscriptSpans part)))) liveTextPartSeparator)"

definition filterLiveTextParts :: "MessageTextPart list \<Rightarrow> ContentKindSet \<Rightarrow> bytes" where
  "filterLiveTextParts parts content =
     join (filter (\<lambda>s. s \<noteq> []) (map (\<lambda>part. selectedLiveText part content) parts)) liveTextPartSeparator"

end
