(* ===== verification/Export_Injected.thy ===== *)
theory Export_Injected
  imports Export_Filter
begin

text \<open>
  What the content filter of an export lets through: the segments of an injected transcript that
  the content kinds select, and no transcript that could not be resolved.
\<close>

section \<open>Slices and spans\<close>

lemma substring_parts: "substring (pre @ s @ post) (length pre) (length pre + length s) = Returns s"
  by (simp add: substring_def)

lemma substring_prefix [simp]: "substring (pre @ s) 0 (length pre) = Returns pre"
  by (simp add: substring_def)

lemma spans_within_le: "spans_within lo spans hi \<Longrightarrow> lo \<le> hi"
  by (induction spans arbitrary: lo) fastforce+

lemma outside_spans_total:
  "spans_within previousEnd spans (length s) \<Longrightarrow> outside_spans s previousEnd spans = Returns (text_outside_from s previousEnd spans)"
proof (induction spans arbitrary: previousEnd)
  case (Cons span spans)
  then show ?case using spans_within_le [of "Span_End span" spans "length s"] by (auto simp: substring_def drop_take)
qed (simp add: substring_def)

text \<open>The spans that code attached or found lie inside the text.\<close>

definition content_spans_ok :: "CompactedMessageContentItem \<Rightarrow> bool" where
  "content_spans_ok c \<longleftrightarrow> spans_within 0 (Content_TranscriptSpans c) (length (Content_Text c))"

lemma parsed_spans_within: "spans_within 0 (ParseTranscriptSpans t) (length t)"
  using parse_spans_from_ok [of 0 t] by (simp add: ParseTranscriptSpans_def)

lemma resolved_spans_within:
  assumes "content_spans_ok c" "resolvers \<in> {injectedTranscriptResolvers, [resolveParsedTranscriptSpans]}"
  shows "spans_within 0 (resolveInjectedTranscriptSpans c resolvers) (length (Content_Text c))"
  using assms parsed_spans_within [of "Content_Text c"]
  by (auto simp: injectedTranscriptResolvers_def resolveParsedTranscriptSpans_def resolveFramedTranscriptSpans_def
      content_spans_ok_def Let_def)

section \<open>The segments of an item\<close>

lemma filtered_tool_call:
  "Segment_Kind segment = SegmentKindToolCall \<Longrightarrow>
   \<not> (Has content ContentKindToolCalls \<or> Has content ContentKindToolOutputs) \<Longrightarrow>
   filtered_item content (injectedSegmentItem (segment\<lparr>Segment_Text := []\<rparr>)) = filtered_item content (injectedSegmentItem segment)"
  by (simp add: filtered_item_def injectedSegmentItem_def compactedItemWithoutRaw_def compactedToolItemWithoutRaw_def
      compactedToolOutputWithoutRaw_def compactedCallSummary_def emptyInjectedContextItem_def)

lemma selected_segment_items:
  "map (filtered_item content) (filter (\<lambda>item. compactedItemSelected item content) (map injectedSegmentItem segments)) =
   map (\<lambda>segment. filtered_item content (injectedSegmentItem segment)) (selectedInjectedSegments segments content)"
  by (induction segments) (auto simp: selectedInjectedSegments_def filtered_tool_call simp del: compactedItemSelected.simps)

text \<open>Which segments the content kinds select.\<close>

definition segment_allowed :: "ContentKindSet \<Rightarrow> Segment \<Rightarrow> bool" where
  "segment_allowed content segment =
     (case Segment_Kind segment of
        SegmentKindThinking \<Rightarrow> ContentKindThinking \<in> content
      | SegmentKindToolCall \<Rightarrow> content \<inter> {ContentKindToolSummaries, ContentKindToolCalls, ContentKindToolOutputs} \<noteq> {}
      | SegmentKindToolOutput \<Rightarrow> ContentKindToolOutputs \<in> content
      | SegmentKindSystem \<Rightarrow> ContentKindSystemPrompts \<in> content
      | SegmentKindChat \<Rightarrow> (if Segment_Role segment = SegmentRoleSystem then ContentKindSystemPrompts else ContentKindChat) \<in> content
      | SegmentKindOther \<Rightarrow> ContentKindRawJSONMetadata \<in> content)"

definition shown_segment :: "ContentKindSet \<Rightarrow> Segment \<Rightarrow> Segment" where
  "shown_segment content segment =
     (if Segment_Kind segment = SegmentKindToolCall \<and> content \<inter> {ContentKindToolCalls, ContentKindToolOutputs} = {}
      then segment\<lparr>Segment_Text := []\<rparr> else segment)"

lemma compactedItemSelected_segment: "compactedItemSelected (injectedSegmentItem segment) content = segment_allowed content segment"
  by (cases "Segment_Role segment"; cases "Segment_Kind segment")
     (simp_all add: injectedSegmentItem_def injectedMessageItem_def injectedOtherItem_def emptyInjectedContextItem_def
       compactedMessageSelected_def segment_allowed_def hasToolContent_def Has_def compactedRoleSystem_def compactedRoleDeveloper_def)

lemma selectedInjectedSegments_eq:
  "selectedInjectedSegments segments content = map (shown_segment content) (filter (segment_allowed content) segments)"
  by (auto simp: selectedInjectedSegments_def compactedItemSelected_segment shown_segment_def Has_def simp del: compactedItemSelected.simps)

section \<open>A summary with a framed transcript\<close>

definition prose_item :: "CompactedMessageItem \<Rightarrow> CompactedMessageContentItem \<Rightarrow> bytes \<Rightarrow> CompactedContextItem list" where
  "prose_item m c s = appendSummaryItem [] m (appendSummaryProse [] c s)"

lemma appendSummaryItem_append: "appendSummaryItem items m prose = items @ appendSummaryItem [] m prose"
  by (simp add: appendSummaryItem_def)

lemma framed_spans:
  assumes "segs \<noteq> []" "list_all (\<lambda>seg. int (length (Segment_Text seg)) \<le> max_int) segs"
    "\<not> contains pre transcript_header" "\<not> contains post transcript_header"
  shows "ParseTranscriptSpans (pre @ FramedTranscript segs @ post) =
    [\<lparr>Span_Start = length pre, Span_End = length pre + length (FramedTranscript segs), Span_Segments = segs\<rparr>]"
  using parse_spans_framed [OF assms(1) _ assms(3)] assms(2) parse_spans_none [OF assms(4)] by simp

text \<open>A summary message of one content item whose text holds one framed transcript.\<close>

definition framed_summary ::
    "CompactedMessageItem \<Rightarrow> CompactedMessageContentItem \<Rightarrow> bytes \<Rightarrow> Segment list \<Rightarrow> bytes \<Rightarrow> CompactedContextItem" where
  "framed_summary m c pre segs post =
     (emptyInjectedContextItem ItemKindMessage)\<lparr>Item_Message := Some (m\<lparr>
        Message_Class := CompactedMessageClassSummary,
        Message_Content := [c\<lparr>Content_Text := pre @ FramedTranscript segs @ post, Content_TranscriptSpans := []\<rparr>]\<rparr>)\<rparr>"

lemma substring_suffix: "substring (pre @ s) (length pre) (length pre + length s) = Returns s"
  using substring_parts [of pre s "[]"] by simp

lemma expand_framed_summary:
  assumes "segs \<noteq> []" "list_all (\<lambda>seg. int (length (Segment_Text seg)) \<le> max_int) segs"
    "\<not> contains pre transcript_header" "\<not> contains post transcript_header"
  shows "expandInjectedTranscriptItem (framed_summary m c pre segs post) =
    Returns (let m' = m\<lparr>Message_Class := CompactedMessageClassSummary\<rparr>; c' = c\<lparr>Content_TranscriptSpans := []\<rparr>
      in prose_item m' c' pre @ map injectedSegmentItem segs @ prose_item m' c' post)"
  using framed_spans [OF assms] substring_prefix [of pre "FramedTranscript segs @ post"]
    substring_suffix [of "pre @ FramedTranscript segs" post]
  by (simp add: framed_summary_def expandInjectedTranscriptItem_def messageTranscriptResolvers_def injectedTranscriptResolvers_def
      resolveParsedTranscriptSpans_def resolveFramedTranscriptSpans_def emptyInjectedContextItem_def
      prose_item_def appendSummaryItem_append [where items = "_ @ _"] add.assoc)
     (simp add: appendSummaryItem_def appendSummaryProse_def Let_def)

lemma prose_item_selected:
  "filter (\<lambda>item. compactedItemSelected item content) (prose_item (m\<lparr>Message_Class := CompactedMessageClassSummary\<rparr>) c s) =
   (if Has content ContentKindChat then prose_item (m\<lparr>Message_Class := CompactedMessageClassSummary\<rparr>) c s else [])"
  by (simp add: prose_item_def appendSummaryItem_def emptyInjectedContextItem_def compactedMessageSelected_def)

lemma filter_framed_summary:
  assumes "segs \<noteq> []" "list_all (\<lambda>seg. int (length (Segment_Text seg)) \<le> max_int) segs"
    "\<not> contains pre transcript_header" "\<not> contains post transcript_header" "\<not> Has content ContentKindRawJSONMetadata"
  shows "filterCompactionContextItems [framed_summary m c pre segs post] content = Returns (
    let m' = m\<lparr>Message_Class := CompactedMessageClassSummary\<rparr>; c' = c\<lparr>Content_TranscriptSpans := []\<rparr>;
        prose = (\<lambda>s. if Has content ContentKindChat then map (filtered_item content) (prose_item m' c' s) else [])
    in prose pre @ map (\<lambda>seg. filtered_item content (injectedSegmentItem seg)) (selectedInjectedSegments segs content) @ prose post)"
  using expand_framed_summary [OF assms(1-4), of m c] assms(5) selected_segment_items [of content segs]
  by (simp add: filterCompactionContextItems_def Let_def prose_item_selected del: compactedItemSelected.simps)


definition secret_segments :: "bytes \<Rightarrow> Segment list" where
  "secret_segments s =
     [\<lparr>Segment_Role = SegmentRoleUser, Segment_Kind = SegmentKindChat, Segment_Text = ''hi''\<rparr>,
      \<lparr>Segment_Role = SegmentRoleAssistant, Segment_Kind = SegmentKindThinking, Segment_Text = s\<rparr>,
      \<lparr>Segment_Role = SegmentRoleAssistant, Segment_Kind = SegmentKindToolCall, Segment_Text = s\<rparr>]"

definition demo_summary :: "Segment list \<Rightarrow> CompactedContextItem" where
  "demo_summary segs = framed_summary
     \<lparr>Message_Role = ''user'', Message_Phase = [], Message_Content = [], Message_ContentRaw = [],
      Message_Class = CompactedMessageClassSummary, Message_Raw = []\<rparr> (injected_content [] []) ''a'' segs ''b''"


section \<open>Nothing unresolved passes\<close>

lemma contains_append1: "contains u p \<Longrightarrow> contains (u @ v) p" "contains v p \<Longrightarrow> contains (u @ v) p"
  by (auto simp: contains_iff) (metis append.assoc)+

lemma wrapper_append:
  "ContainsTranscriptWrapper u \<Longrightarrow> ContainsTranscriptWrapper (u @ v)" "ContainsTranscriptWrapper v \<Longrightarrow> ContainsTranscriptWrapper (u @ v)"
  by (auto simp: ContainsTranscriptWrapper_def list_ex_iff intro: contains_append1)

text \<open>An item of the expansion is a typed segment or a summary message whose text holds no transcript wrapper.\<close>

definition clean_content :: "CompactedMessageContentItem \<Rightarrow> bool" where
  "clean_content c \<longleftrightarrow> \<not> ContainsTranscriptWrapper (Content_Text c)"

definition clean_item :: "CompactedContextItem \<Rightarrow> bool" where
  "clean_item item \<longleftrightarrow> (\<exists>segment. item = injectedSegmentItem segment) \<or>
     (\<exists>m. Item_Message item = Some m \<and> list_all clean_content (Message_Content m))"

lemma clean_appendSummaryItem:
  "list_all clean_item items \<Longrightarrow> list_all clean_content prose \<Longrightarrow> list_all clean_item (appendSummaryItem items m prose)"
  by (auto simp: appendSummaryItem_def clean_item_def)

lemma clean_appendSummaryProse:
  "list_all clean_content prose \<Longrightarrow> \<not> ContainsTranscriptWrapper s \<Longrightarrow> list_all clean_content (appendSummaryProse prose c s)"
  by (simp add: appendSummaryProse_def clean_content_def)

lemma clean_segments: "list_all clean_item (map injectedSegmentItem segments)"
  by (auto simp: list_all_iff clean_item_def)

lemma expand_spans_clean:
  assumes "spans_within previousEnd spans (length (Content_Text c))"
    "\<not> ContainsTranscriptWrapper (text_outside_from (Content_Text c) previousEnd spans)"
    "list_all clean_item expanded" "list_all clean_content prose"
  shows "\<exists>expanded' prose'. expand_spans m c previousEnd spans expanded prose = Returns (expanded', prose') \<and>
    list_all clean_item expanded' \<and> list_all clean_content prose'"
  using assms
proof (induction spans arbitrary: previousEnd expanded prose)
  case Nil
  then show ?case by (auto simp: substring_def intro: clean_appendSummaryProse)
next
  case (Cons span spans)
  let ?t = "Content_Text c"
  let ?piece = "drop previousEnd (take (Span_Start span) ?t)"
  have le: "Span_End span \<le> length ?t" using Cons.prems(1) spans_within_le [of "Span_End span" spans] by simp
  have outside: "text_outside_from ?t previousEnd (span # spans) = ?piece @ text_outside_from ?t (Span_End span) spans"
    using Cons.prems(1) by (simp add: drop_take)
  have "\<not> ContainsTranscriptWrapper ?piece" "\<not> ContainsTranscriptWrapper (text_outside_from ?t (Span_End span) spans)"
    using Cons.prems(2) wrapper_append unfolding outside by blast+
  moreover have "substring ?t previousEnd (Span_Start span) = Returns ?piece"
    using Cons.prems(1) le by (simp add: substring_def)
  ultimately show ?case
    using Cons.IH [of "Span_End span" "appendSummaryItem expanded m (appendSummaryProse prose c ?piece) @ map injectedSegmentItem (Span_Segments span)" "[]"]
      Cons.prems clean_segments clean_appendSummaryItem clean_appendSummaryProse by simp
qed

lemma summary_content_resolved:
  assumes "content_spans_ok c" "unresolvedInjectedTranscript c = Returns False"
  shows "\<not> ContainsTranscriptWrapper (text_outside_from (Content_Text c) 0 (resolveInjectedTranscriptSpans c injectedTranscriptResolvers))"
  using assms outside_spans_total [OF resolved_spans_within [OF assms(1), of injectedTranscriptResolvers]]
  by (simp add: unresolvedInjectedTranscript_def)

lemma expand_contents_clean:
  assumes "Message_Class m = CompactedMessageClassSummary" "list_all content_spans_ok cs"
    "contains_func unresolvedInjectedTranscript cs = Returns False" "list_all clean_item expanded" "list_all clean_content prose"
  shows "\<exists>expanded' prose' resolved'. expand_contents m cs expanded prose resolved = Returns (expanded', prose', resolved') \<and>
    list_all clean_item expanded' \<and> list_all clean_content prose' \<and>
    (\<not> resolved' \<longrightarrow> \<not> resolved \<and> prose' = prose @ cs)"
  using assms
proof (induction cs arbitrary: expanded prose resolved)
  case (Cons c cs)
  let ?spans = "resolveInjectedTranscriptSpans c injectedTranscriptResolvers"
  have resolvers: "messageTranscriptResolvers m = injectedTranscriptResolvers" using Cons.prems(1) by (simp add: messageTranscriptResolvers_def)
  have c: "unresolvedInjectedTranscript c = Returns False" and cs: "contains_func unresolvedInjectedTranscript cs = Returns False"
    using Cons.prems(3) by (auto elim!: and_then.elims split: if_splits)
  have ok: "content_spans_ok c" "list_all content_spans_ok cs" using Cons.prems(2) by simp_all
  note outside = summary_content_resolved [OF ok(1) c]
  show ?case
  proof (cases "?spans = []")
    case True
    then have "clean_content c" using outside by (simp add: clean_content_def)
    with Cons.IH [OF Cons.prems(1) ok(2) cs Cons.prems(4), of "prose @ [c]" resolved] Cons.prems(5) True resolvers
    show ?thesis by (simp add: Let_def)
  next
    case False
    obtain expanded' prose' where step: "expand_spans m c 0 ?spans expanded prose = Returns (expanded', prose')"
      "list_all clean_item expanded'" "list_all clean_content prose'"
      using expand_spans_clean [OF resolved_spans_within [OF ok(1)] outside Cons.prems(4,5), of m] by auto
    from Cons.IH [OF Cons.prems(1) ok(2) cs step(2,3), of True] step(1) False resolvers show ?thesis
      by (auto simp: Let_def)
  qed
qed simp



end
