(* ===== verification/Transcript_Shape.thy ===== *)
theory Transcript_Shape
  imports Compaction
begin

text \<open>
  The shaping of messages into readable turns in \<open>internal/transcript/conversation.go\<close>: text
  normalization, the rendering of tool calls and attachments, and \<open>ShapeConversation\<close>. The time a
  turn carries is copied; the renderers that print it are not part of this theory.
\<close>

section \<open>Text\<close>

definition conversationOnlyExactDrops :: "bytes list" where
  "conversationOnlyExactDrops =
     [''No response requested.'', ''[Request interrupted by user]'', ''[Request interrupted by user for tool use]'']"

text \<open>The regular expression for image lines; lines hold no newline, so its dot matches every byte.\<close>

definition conversationOnlyImageLineRe :: "bytes \<Rightarrow> bool" where
  "conversationOnlyImageLineRe line \<longleftrightarrow>
     (has_prefix line ''[Image:'' \<or> has_prefix line ''[Image #'') \<and>
     has_suffix (drop (if has_prefix line ''[Image:'' then 7 else 8) line) '']''"

definition shouldDropConversationOnlyLine :: "bytes \<Rightarrow> bool" where
  "shouldDropConversationOnlyLine line \<longleftrightarrow>
     line \<noteq> [] \<and> (line \<in> set conversationOnlyExactDrops \<or> conversationOnlyImageLineRe line)"

definition capRunes :: "bytes \<Rightarrow> int \<Rightarrow> bytes" where
  "capRunes s maxRunes =
     (if maxRunes \<le> 0 then s
      else let runes = runes_of s in
        if int (length runes) \<le> maxRunes then s else string_of_runes (take (nat maxRunes) runes) @ ''...'')"

fun normalize_lines :: "bool \<Rightarrow> bool \<Rightarrow> bytes list \<Rightarrow> bytes list" where
  "normalize_lines conversationOnly lastBlank [] = []"
| "normalize_lines conversationOnly lastBlank (line # lines) =
     (let line = trim_space line in
      if conversationOnly \<and> shouldDropConversationOnlyLine line then normalize_lines conversationOnly lastBlank lines
      else if line = [] then
        (if lastBlank then normalize_lines conversationOnly lastBlank lines
         else [] # normalize_lines conversationOnly True lines)
      else line # normalize_lines conversationOnly False lines)"

definition normalizeConversationText :: "bytes \<Rightarrow> int \<Rightarrow> bool \<Rightarrow> bytes" where
  "normalizeConversationText s maxRunes conversationOnly =
     (let out = normalize_lines conversationOnly False (split_byte (filter (\<lambda>c. c \<noteq> creturn) s) newline);
          s = trim_space (join out [newline])
      in if s = [] then [] else capRunes s maxRunes)"

definition NormalizeConversationOnlyText :: "bytes \<Rightarrow> bytes" where
  "NormalizeConversationOnlyText s = normalizeConversationText s 0 True"

section \<open>Tools and attachments\<close>

datatype ToolOnlyMode =
    ToolOnlyOmit | ToolOnlyCompactSummary | ToolOnlyInputSummary | ToolOnlyFullDetail | OtherToolOnlyMode bytes

record ShapeOptions =
  IncludeThinking :: bool
  ConversationOnly :: bool
  ToolOnly :: ToolOnlyMode
  MaxTextRunes :: int

record ConversationTurn =
  Turn_UUID :: bytes
  Turn_Role :: bytes
  Turn_Timestamp :: int
  Turn_Text :: bytes
  Turn_Thinking :: bytes
  Turn_ToolNames :: "bytes list"
  Turn_HasTools :: bool
  Turn_IsToolOnly :: bool
  Turn_Attachments :: "Attachment list"

definition DefaultShapeOptions :: ShapeOptions where
  "DefaultShapeOptions =
     \<lparr>IncludeThinking = False, ConversationOnly = False, ToolOnly = ToolOnlyCompactSummary, MaxTextRunes = 0\<rparr>"

definition ContextWindowMaxTextRunes :: int where "ContextWindowMaxTextRunes = 2000"

definition ContextWindowShapeOptions :: ShapeOptions where
  "ContextWindowShapeOptions = DefaultShapeOptions\<lparr>MaxTextRunes := ContextWindowMaxTextRunes\<rparr>"

definition ToolNames :: "TranscriptMessage \<Rightarrow> bytes list" where
  "ToolNames m = map Tool_Name (Tools m)"

definition toolSummaryText :: "bytes list \<Rightarrow> bytes" where
  "toolSummaryText names = (if names = [] then ''[used tools]'' else ''[used: '' @ join names '', '' @ '']'')"

definition toolInputDescription :: "ToolCall \<Rightarrow> bytes" where
  "toolInputDescription tool = trim_space (Tool_InputDescription tool)"

definition toolInputSummaryText :: "ToolCall list \<Rightarrow> bytes" where
  "toolInputSummaryText tools =
     (if tools = [] then ''[used tools]''
      else join (map (\<lambda>tool. ''[tool: '' @ Tool_Name tool @ '']'' @
        (let description = toolInputDescription tool in if description \<noteq> [] then '' '' @ description else [])) tools) [newline])"

definition attachment_parts :: "Attachment \<Rightarrow> bytes list" where
  "attachment_parts a =
     filter (\<lambda>part. part \<noteq> [])
       [Att_Kind a, Att_DisplayName a, Att_Path a, Att_URL a, Att_MIMEType a,
        if Att_SizeBytes a > 0 then itoa (Att_SizeBytes a) @ '' bytes'' else [],
        Att_Description a, Att_AssetReference a, Att_OmittedReason a, Att_Text a]"

definition attachmentPlaceholders :: "Attachment list \<Rightarrow> bytes" where
  "attachmentPlaceholders attachments =
     (if attachments = [] then []
      else [newline] @ join (map (\<lambda>a.
        let parts = attachment_parts a in
        ''[attachment: '' @ join (if parts = [] then [''metadata unavailable''] else parts) '', '' @ '']'') attachments) [newline])"

definition tool_detail_line :: "ToolCall \<Rightarrow> bytes" where
  "tool_detail_line tool =
     ''[tool: '' @ Tool_Name tool @ '']'' @
     (let display = trim_space (Tool_Display tool) in if display \<noteq> [] then '' '' @ display else []) @
     (if trim_space (Tool_Output tool) \<noteq> [] then [newline] @ ''[tool output]'' @ [newline] @ trim_space (Tool_Output tool) else []) @
     attachmentPlaceholders (Tool_Attachments tool)"

definition toolFullDetailText :: "ToolCall list \<Rightarrow> bytes" where
  "toolFullDetailText tools = (if tools = [] then ''[used tools]'' else join (map tool_detail_line tools) [newline])"

fun renderToolText :: "ToolOnlyMode \<Rightarrow> bytes list \<Rightarrow> ToolCall list \<Rightarrow> bytes" where
  "renderToolText ToolOnlyOmit names tools = []"
| "renderToolText ToolOnlyCompactSummary names tools = toolSummaryText names"
| "renderToolText ToolOnlyInputSummary names tools = toolInputSummaryText tools"
| "renderToolText ToolOnlyFullDetail names tools = toolFullDetailText tools"
| "renderToolText (OtherToolOnlyMode _) names tools = toolSummaryText names"

definition mixedTurnToolHeading :: bytes where "mixedTurnToolHeading = ''[tool calls in this turn]''"

definition labeledToolBlock :: "ToolOnlyMode \<Rightarrow> bytes list \<Rightarrow> bytes \<Rightarrow> bytes" where
  "labeledToolBlock mode names toolText =
     (if mode = ToolOnlyCompactSummary \<or> mode = OtherToolOnlyMode []
      then (if names = [] then mixedTurnToolHeading else ''[tool calls in this turn: '' @ join names '', '' @ '']'')
      else mixedTurnToolHeading @ [newline] @ toolText)"

definition textWithTools :: "bytes \<Rightarrow> bytes list \<Rightarrow> TranscriptMessage \<Rightarrow> ShapeOptions \<Rightarrow> bytes \<times> bool" where
  "textWithTools s names msg opts =
     (if \<not> HasTools msg then (s, True)
      else if ConversationOnly opts then (s, s \<noteq> [])
      else let toolText = renderToolText (ToolOnly opts) names (Tools msg) in
        if toolText = [] then (s, s \<noteq> [])
        else if s = [] then (toolText, True)
        else (s @ [newline] @ labeledToolBlock (ToolOnly opts) names toolText, True))"

section \<open>Turns\<close>

definition shape_message :: "ShapeOptions \<Rightarrow> TranscriptMessage \<Rightarrow> ConversationTurn option" where
  "shape_message opts msg =
     (let s = normalizeConversationText (Text msg) (MaxTextRunes opts) (ConversationOnly opts);
          thinking = (if IncludeThinking opts then normalizeConversationText (Thinking msg) (MaxTextRunes opts) False else []);
          names = ToolNames msg;
          (body, keepTurn) = textWithTools s names msg opts
      in if \<not> keepTurn \<and> Attachments msg = [] then None
         else if body = [] \<and> thinking = [] \<and> Attachments msg = [] then None
         else Some \<lparr>Turn_UUID = UUID msg, Turn_Role = Message_role msg, Turn_Timestamp = Timestamp msg,
           Turn_Text = body, Turn_Thinking = thinking, Turn_ToolNames = names, Turn_HasTools = HasTools msg,
           Turn_IsToolOnly = (HasTools msg \<and> s = []), Turn_Attachments = Attachments msg\<rparr>)"

definition ShapeConversation :: "TranscriptMessage list \<Rightarrow> ShapeOptions \<Rightarrow> ConversationTurn list" where
  "ShapeConversation messages opts =
     (let opts = (if ToolOnly opts = OtherToolOnlyMode [] then opts\<lparr>ToolOnly := ToolOnlyCompactSummary\<rparr> else opts)
      in List.map_filter (shape_message opts) messages)"

definition RenderMessageIndexText :: "TranscriptMessage \<Rightarrow> bytes" where
  "RenderMessageIndexText msg =
     trim_space (join (filter (\<lambda>part. part \<noteq> [])
       [normalizeConversationText (Text msg) 0 False, normalizeConversationText (Thinking msg) 0 False,
        if Tools msg \<noteq> [] then trim_space (toolFullDetailText (Tools msg)) else [],
        trim_space (attachmentPlaceholders (Attachments msg))]) [newline, newline])"

end
