(* ===== verification/Export_Select.thy ===== *)
theory Export_Select
  imports Export_Filter Transcript_Shape
begin

text \<open>
  The parts of an export that choose messages and trim the document (\<open>internal/conversation/export.go\<close>
  and \<open>export_last_n.go\<close>): the message filter, the cut to the last messages, the whitespace
  compression and the cap on the last lines.
\<close>

section \<open>Options\<close>

datatype ExportFormat =
    ExportFormatMarkdown | ExportFormatHTML | ExportFormatJSON | ExportFormatPlainText | OtherExportFormat bytes

datatype WhitespaceMode =
    WhitespacePreserve | WhitespaceTidy | WhitespaceCompact | WhitespaceDense | OtherWhitespaceMode bytes

record ExportOptions =
  Format :: ExportFormat
  HistoryStart :: int
  LastN :: int
  MaxLines :: int
  Whitespace :: WhitespaceMode
  Content :: ContentKindSet
  Export_Compaction :: CompactionExportOptions

definition exportToolOnlyMode :: "ContentKindSet \<Rightarrow> ToolOnlyMode" where
  "exportToolOnlyMode content =
     (if Has content ContentKindToolCalls \<or> Has content ContentKindToolOutputs then ToolOnlyFullDetail else ToolOnlyInputSummary)"

definition exportShapeOptions :: "ContentKindSet \<Rightarrow> ShapeOptions" where
  "exportShapeOptions content =
     (let includeTools = hasToolContent content in
      \<lparr>IncludeThinking = Has content ContentKindThinking, ConversationOnly = (\<not> includeTools),
       ToolOnly = (if includeTools then exportToolOnlyMode content else ToolOnlyOmit), MaxTextRunes = 0\<rparr>)"

section \<open>Messages\<close>

text \<open>The body of the loop of \<open>filterMessages\<close> after the check on \<open>HistoryStart\<close>.\<close>

definition keep_message :: "ContentKindSet \<Rightarrow> TranscriptMessage \<Rightarrow> TranscriptMessage option" where
  "keep_message content message =
     (if Compaction message \<noteq> None \<and> \<not> Has content ContentKindSystemMessages then None
      else
        let message1 = (if TextParts message \<noteq> [] \<and> \<not> Has content ContentKindRawJSONMetadata
                        then message\<lparr>Text := filterLiveTextParts (TextParts message) content\<rparr> else message);
            message2 = (if \<not> Has content ContentKindChat \<and> TextParts message1 = [] \<and> Text message1 \<noteq> []
                        then message1\<lparr>Text := []\<rparr> else message1);
            message3 = (if \<not> Has content ContentKindThinking then message2\<lparr>Thinking := []\<rparr> else message2);
            message4 = (if \<not> hasToolContent content then message3\<lparr>Tools := [], HasTools := False\<rparr> else message3)
        in if Compaction message4 \<noteq> None \<and> Has content ContentKindSystemMessages then Some message4
           else if Text message4 = [] \<and> Thinking message4 = [] \<and> Tools message4 = [] then None
           else Some message4)"

definition filterMessages :: "TranscriptMessage list \<Rightarrow> ExportOptions \<Rightarrow> TranscriptMessage list" where
  "filterMessages messages options =
     List.map_filter (\<lambda>(i, message).
       if HistoryStart options > 0 \<and> int i < HistoryStart options then None else keep_message (Content options) message)
       (enumerate 0 messages)"

definition messageRendersForExport :: "TranscriptMessage \<Rightarrow> ExportOptions \<Rightarrow> bool" where
  "messageRendersForExport message options =
     (let kept = filterMessages [message] (options\<lparr>HistoryStart := 0\<rparr>) in
      if kept = [] then False
      else if Format options = ExportFormatJSON \<and> Has (Content options) ContentKindRawJSONMetadata then True
      else ShapeConversation kept (exportShapeOptions (Content options)) \<noteq> [])"

definition messageCountsForLastN :: "TranscriptMessage \<Rightarrow> ExportOptions \<Rightarrow> bool" where
  "messageCountsForLastN message options \<longleftrightarrow>
     Compaction message = None \<and> Visibility message \<noteq> MessageVisibilityMetaOnly \<and> messageRendersForExport message options"

definition clearMetadata :: "TranscriptMessage list \<Rightarrow> TranscriptMessage list" where
  "clearMetadata messages = map (\<lambda>m. m\<lparr>UUID := []\<rparr>) messages"

section \<open>The last messages\<close>

text \<open>
  The inner loop walks message indices downwards; it ends with the count that remains or with the
  index at which the count reached zero.
\<close>

fun last_n_messages :: "(nat \<Rightarrow> bool) \<Rightarrow> nat list \<Rightarrow> nat \<Rightarrow> nat + nat" where
  "last_n_messages counts [] remaining = Inl remaining"
| "last_n_messages counts (i # indices) remaining =
     (if \<not> counts i then last_n_messages counts indices remaining
      else if remaining - 1 = 0 then Inr i
      else last_n_messages counts indices (remaining - 1))"

text \<open>The segments from the last to the first, with their positions in the selection.\<close>

fun last_n_segments :: "(nat \<Rightarrow> bool) \<Rightarrow> nat \<Rightarrow> (nat \<times> CompactionSegment) list \<Rightarrow> nat \<Rightarrow> (nat \<times> nat) option" where
  "last_n_segments counts messageCount [] remaining = None"
| "last_n_segments counts messageCount ((i, segment) # segments) remaining =
     (case last_n_messages counts (rev [StartMessageIndex segment..<min (EndMessageIndex segment) messageCount]) remaining of
        Inr cutoff \<Rightarrow> Some (i, cutoff)
      | Inl remaining \<Rightarrow> last_n_segments counts messageCount segments remaining)"

definition applyLastNToSegmentSelection ::
    "TranscriptMessage list \<Rightarrow> CompactionSegmentSelection \<Rightarrow> ExportOptions \<Rightarrow> CompactionSegmentSelection" where
  "applyLastNToSegmentSelection messages selection options =
     (if LastN options \<le> 0 then selection
      else case last_n_segments (\<lambda>i. messageCountsForLastN (messages ! i) options) (length messages)
             (rev (enumerate 0 (Segments selection))) (nat (LastN options)) of
        None \<Rightarrow> selection
      | Some (i, cutoff) \<Rightarrow>
          selection\<lparr>Segments :=
            ((Segments selection ! i)\<lparr>StartMessageIndex := cutoff\<rparr>) # drop (Suc i) (Segments selection)\<rparr>)"

definition selectedCompactionSegmentMessages ::
    "TranscriptMessage list \<Rightarrow> CompactionSegmentSelection \<Rightarrow> TranscriptMessage list" where
  "selectedCompactionSegmentMessages messages selection =
     concat (map (\<lambda>segment. slice messages (StartMessageIndex segment) (min (EndMessageIndex segment) (length messages)))
       (Segments selection))"

section \<open>The compaction block\<close>

record compactionExportSegmentBlock =
  Block_SegmentIndex :: nat
  Block_HasStartingSummary :: bool
  Block_StartMessageIndex :: nat
  Block_EndMessageIndex :: nat
  Block_SummaryMessageIndex :: int
  Block_SummaryUUID :: bytes
  Block_SummaryTimestamp :: "int option"
  Block_SummaryItems :: "CompactedContextItem list"
  Block_ContextItems :: "CompactedContextItem list"

record compactionExportBlock =
  Block_Selector :: bytes
  Block_Segments :: "compactionExportSegmentBlock list"

definition summaryContextItems :: "CompactedContextItem list \<Rightarrow> CompactedContextItem list" where
  "summaryContextItems items =
     filter (\<lambda>item. Item_Kind item = ItemKindMessage \<and>
       (case Item_Message item of None \<Rightarrow> False | Some m \<Rightarrow> Message_Class m = CompactedMessageClassSummary)) items"

definition buildCompactionExportBlock :: "CompactionSegmentSelection \<Rightarrow> compactionExportBlock option" where
  "buildCompactionExportBlock selection =
     (let blocks = map (\<lambda>segment.
            \<lparr>Block_SegmentIndex = Index segment, Block_HasStartingSummary = HasStartingSummary segment,
             Block_StartMessageIndex = StartMessageIndex segment, Block_EndMessageIndex = EndMessageIndex segment,
             Block_SummaryMessageIndex = SummaryMessageIndex segment, Block_SummaryUUID = Segment_SummaryUUID segment,
             Block_SummaryTimestamp = SummaryTimestamp segment,
             Block_SummaryItems = summaryContextItems (ContextItems (Checkpoint segment)),
             Block_ContextItems = ContextItems (Checkpoint segment)\<rparr>)
           (filter HasStartingSummary (Segments selection))
      in if blocks = [] then None else Some \<lparr>Block_Selector = Selector selection, Block_Segments = blocks\<rparr>)"

definition compactionBlockTitle :: "compactionExportBlock \<Rightarrow> bytes" where
  "compactionBlockTitle block = ''Compaction Segments '' @ Block_Selector block"

section \<open>Lines of the document\<close>

definition last_index_byte :: "bytes \<Rightarrow> char \<Rightarrow> nat option" where
  "last_index_byte s c = find (\<lambda>i. s ! i = c) (rev [0..<length s])"

fun cut_lines :: "bytes \<Rightarrow> nat \<Rightarrow> nat \<Rightarrow> nat" where
  "cut_lines trimmed cut_at 0 = cut_at"
| "cut_lines trimmed cut_at (Suc n) =
     (case last_index_byte (take cut_at trimmed) newline of
        None \<Rightarrow> 0
      | Some i \<Rightarrow> cut_lines trimmed i n)"

definition capToLastLines :: "bytes \<Rightarrow> int \<Rightarrow> bytes \<times> int \<times> bool" where
  "capToLastLines s maxLines =
     (let trimmed = trim_right_set s [newline] in
      if trimmed = [] then (s, 0, False)
      else let lines = int (count_list trimmed newline) + 1 in
        if maxLines \<le> 0 \<or> lines \<le> maxLines then (s, lines, False)
        else let cut_at = cut_lines trimmed (length trimmed) (nat maxLines);
                 start = (if cut_at > 0 then cut_at + 1 else cut_at)
             in (drop start trimmed @ [newline], maxLines, True))"

definition codeFence :: bytes where "codeFence = [CHR 0x60, CHR 0x60, CHR 0x60]"

fun compress_lines :: "WhitespaceMode \<Rightarrow> bool \<Rightarrow> bool \<Rightarrow> bytes list \<Rightarrow> bytes list" where
  "compress_lines mode blank inFence [] = []"
| "compress_lines mode blank inFence (line # lines) =
     (let trimmed = trim_right_set line [CHR '' '', CHR 0x09];
          inFence = (if has_prefix (trim_space trimmed) codeFence then \<not> inFence else inFence)
      in if inFence then line # compress_lines mode blank inFence lines
         else if trim_space trimmed = [] then
           (if mode = WhitespaceDense then compress_lines mode blank inFence lines
            else if mode = WhitespaceCompact then
              (if blank then compress_lines mode blank inFence lines else [] # compress_lines mode True inFence lines)
            else [] # compress_lines mode blank inFence lines)
         else trimmed # compress_lines mode False inFence lines)"

definition compressWhitespaceText :: "bytes \<Rightarrow> WhitespaceMode \<Rightarrow> bytes" where
  "compressWhitespaceText s mode =
     (if mode = WhitespacePreserve \<or> mode = OtherWhitespaceMode [] then s
      else trim_right_set (join (compress_lines mode False False (split_byte s newline)) [newline]) [newline] @ [newline])"

end
