(* ===== verification/Export_Limits.thy ===== *)
theory Export_Limits
  imports Export_Select
begin

text \<open>
  What the limits of an export keep: the cut to the last messages leaves exactly the requested number
  of rendered turns, the cap on lines keeps the last lines, and compressing white space twice is
  compressing it once.
\<close>

section \<open>Joined lines\<close>

lemma join_Cons: "join (x # xs) sep = (if xs = [] then x else x @ sep @ join xs sep)"
  by (cases xs) simp_all

lemma join_append: "xs \<noteq> [] \<Longrightarrow> ys \<noteq> [] \<Longrightarrow> join (xs @ ys) sep = join xs sep @ sep @ join ys sep"
  by (induction xs) (auto simp: join_Cons)

lemma join_snoc: "xs \<noteq> [] \<Longrightarrow> join (xs @ [y]) sep = join xs sep @ sep @ y"
  by (simp add: join_append)

lemma join_split: "join (split_byte s c) [c] = s"
proof (induction s)
  case (Cons x s)
  obtain p ps where "split_byte s c = p # ps" by (cases "split_byte s c") auto
  with Cons show ?case by (auto simp: join_Cons)
qed simp

lemma split_parts: "part \<in> set (split_byte s c) \<Longrightarrow> c \<notin> set part"
proof (induction s arbitrary: part)
  case (Cons x s)
  obtain p ps where "split_byte s c = p # ps" by (cases "split_byte s c") auto
  with Cons show ?case by (auto split: if_splits)
qed simp

lemma length_split: "length (split_byte s c) = count_list s c + 1"
  by (induction s) auto

section \<open>The cap on lines\<close>

lemma last_index_byte_none: "c \<notin> set s \<Longrightarrow> last_index_byte s c = None"
  by (auto simp: last_index_byte_def find_None_iff)

lemma last_index_byte_append: "c \<notin> set t \<Longrightarrow> last_index_byte (s @ c # t) c = Some (length s)"
proof -
  assume t: "c \<notin> set t"
  let ?i = "length s" and ?n = "length (s @ c # t)"
  have "rev [0..<?n] = rev [Suc ?i..<?n] @ ?i # rev [0..<?i]"
  proof -
    have "[0..<?n] = [0..<?i] @ ?i # [Suc ?i..<?n]"
      using upt_add_eq_append [of 0 ?i "Suc (length t)"] upt_conv_Cons [of ?i ?n] by simp
    then show ?thesis by simp
  qed
  moreover have "(s @ c # t) ! j \<noteq> c" if "j \<in> {Suc ?i..<?n}" for j
  proof -
    have "(s @ c # t) ! j = t ! (j - Suc ?i)" "j - Suc ?i < length t" using that by (auto simp: nth_append)
    then show ?thesis using t by (metis nth_mem)
  qed
  then have "find (\<lambda>j. (s @ c # t) ! j = c) (rev [Suc ?i..<?n]) = None"
    by (auto simp: find_None_iff simp del: upt_Suc)
  moreover have "find P (xs @ ys) = (case find P xs of None \<Rightarrow> find P ys | r \<Rightarrow> r)" for P and xs ys :: "nat list"
    by (induction xs) simp_all
  ultimately show ?thesis by (simp add: last_index_byte_def del: upt_Suc)
qed

lemma cut_lines_join:
  assumes "\<forall>line \<in> set xs. newline \<notin> set line" "n < length xs"
  shows "cut_lines (join xs [newline] @ rest) (length (join xs [newline])) n = length (join (take (length xs - n) xs) [newline])"
  using assms
proof (induction n arbitrary: xs rest)
  case (Suc n)
  then obtain ys y where xs: "xs = ys @ [y]" by (cases xs rule: rev_cases) auto
  with Suc.prems have ys: "ys \<noteq> []" "n < length ys" "newline \<notin> set y" by auto
  then have join: "join xs [newline] = join ys [newline] @ newline # y" using xs by (simp add: join_snoc)
  have "cut_lines (join ys [newline] @ newline # y @ rest) (length (join ys [newline])) n =
      length (join (take (length ys - n) ys) [newline])"
    using Suc.IH [of ys "newline # y @ rest"] Suc.prems(1) xs ys(2) by simp
  then show ?case using join last_index_byte_append [OF ys(3), of "join ys [newline]"] xs by simp
qed simp

lemma drop_lines:
  assumes "us \<noteq> []" "vs \<noteq> []"
  shows "drop (length (join us [newline]) + 1) (join (us @ vs) [newline]) = join vs [newline]"
  using join_append [OF assms, of "[newline]"] by simp

lemma join_eq_Nil: "xs \<noteq> [] \<Longrightarrow> join xs [c] = [] \<longleftrightarrow> xs = [[]]"
  by (cases xs) (auto simp: join_Cons)

text \<open>
  C24. The line cap keeps the last lines.  With \<open>lines\<close> the lines of the text without its trailing
  newlines, \<open>capToLastLines\<close> leaves a text within the cap unchanged and reports its line count, and
  otherwise returns the last \<open>maxLines\<close> lines, each ended by a newline, and reports the cut. The
  exception is a text that starts with an empty line and has one line more than the cap: there
  nothing is dropped, and the cut is reported all the same.
\<close>

theorem capToLastLines_keeps_last_lines:
  "capToLastLines s maxLines =
    (let lines = split_byte (trim_right_set s [newline]) newline; n = int (length lines) in
     if trim_right_set s [newline] = [] then (s, 0, False)
     else if maxLines \<le> 0 \<or> n \<le> maxLines then (s, n, False)
     else if hd lines = [] \<and> maxLines = n - 1 then (join lines [newline] @ [newline], maxLines, True)
     else (join (drop (length lines - nat maxLines) lines) [newline] @ [newline], maxLines, True))"
proof -
  let ?t = "trim_right_set s [newline]"
  let ?lines = "split_byte ?t newline"
  have len: "int (count_list ?t newline) + 1 = int (length ?lines)" by (simp add: length_split)
  show ?thesis
  proof (cases "?t = [] \<or> maxLines \<le> 0 \<or> int (length ?lines) \<le> maxLines")
    case True
    then show ?thesis by (auto simp: capToLastLines_def Let_def len)
  next
    case False
    define k where "k = length ?lines - nat maxLines"
    have k: "0 < k" "k < length ?lines" "nat maxLines < length ?lines" using False by (auto simp: k_def)
    let ?us = "take k ?lines" and ?vs = "drop k ?lines"
    have cut_at: "cut_lines ?t (length ?t) (nat maxLines) = length (join ?us [newline])"
      using cut_lines_join [of ?lines "nat maxLines" "[]"] split_parts k by (auto simp: join_split k_def)
    have dropped: "drop (length (join ?us [newline]) + 1) ?t = join ?vs [newline]"
      using drop_lines [of ?us ?vs] k by (simp add: join_split)
    have empty: "join ?us [newline] = [] \<longleftrightarrow> k = 1 \<and> hd ?lines = []"
    proof -
      have "?us \<noteq> []" using k by auto
      then have "join ?us [newline] = [] \<longleftrightarrow> ?us = [[]]" by (rule join_eq_Nil)
      also have "\<dots> \<longleftrightarrow> k = 1 \<and> hd ?lines = []" using k by (cases ?lines; cases k) (auto simp: take_eq_Nil)
      finally show ?thesis .
    qed
    have one: "k = 1 \<longleftrightarrow> maxLines = int (length ?lines) - 1" using False k by (auto simp: k_def)
    show ?thesis
      using False cut_at dropped empty one
      by (auto simp: capToLastLines_def Let_def len join_split k_def [symmetric])
  qed
qed

section \<open>Compressing white space\<close>

lemma trim_right_set_idem [simp]: "trim_right_set (trim_right_set s cs) cs = trim_right_set s cs"
  by (simp add: trim_right_set_def)

lemma trim_right_set_Nil [simp]: "trim_right_set [] cs = []"
  by (simp add: trim_right_set_def)

lemma codeFence_blank [simp]: "\<not> has_prefix [] codeFence"
  by (simp add: codeFence_def has_prefix_def)

lemma compress_lines_idem:
  "compress_lines mode blank inFence (compress_lines mode blank inFence lines) = compress_lines mode blank inFence lines"
  by (induction mode blank inFence lines rule: compress_lines.induct) (auto simp: Let_def)

lemma compress_lines_append:
  "\<exists>blank' inFence'. \<forall>ys. compress_lines mode blank inFence (xs @ ys) =
     compress_lines mode blank inFence xs @ compress_lines mode blank' inFence' ys"
proof (induction xs arbitrary: blank inFence)
  case Nil
  show ?case by (intro exI [of _ blank] exI [of _ inFence]) simp
next
  case (Cons x xs)
  let ?trimmed = "trim_right_set x [CHR '' '', CHR 0x09]"
  let ?fence = "if has_prefix (trim_space ?trimmed) codeFence then \<not> inFence else inFence"
  let ?blank = "trim_space ?trimmed = []"
  define b where "b = (if ?fence then blank else if ?blank then (mode = WhitespaceCompact \<or> blank) \<and> (mode \<noteq> WhitespaceDense \<or> blank) else False)"
  define emit where "emit = (if ?fence then [x] else if \<not> ?blank then [?trimmed]
    else if mode = WhitespaceDense \<or> mode = WhitespaceCompact \<and> blank then [] else [[]])"
  have step: "compress_lines mode blank inFence (x # zs) = emit @ compress_lines mode b ?fence zs" for zs
    by (simp add: b_def emit_def Let_def)
  from Cons [of b ?fence] obtain b' f' where
    "\<And>ys. compress_lines mode b ?fence (xs @ ys) = compress_lines mode b ?fence xs @ compress_lines mode b' f' ys" by blast
  with step have "\<forall>ys. compress_lines mode blank inFence ((x # xs) @ ys) =
      compress_lines mode blank inFence (x # xs) @ compress_lines mode b' f' ys" by (simp del: compress_lines.simps)
  then show ?case by blast
qed

lemma compress_lines_length: "length (compress_lines mode blank inFence lines) \<le> length lines"
  by (induction mode blank inFence lines rule: compress_lines.induct) (auto simp: Let_def le_SucI)

lemma compress_fixed_prefix:
  assumes "compress_lines mode blank inFence (xs @ ys) = xs @ ys"
  shows "compress_lines mode blank inFence xs = xs"
proof -
  obtain b f where split: "compress_lines mode blank inFence (xs @ ys) = compress_lines mode blank inFence xs @ compress_lines mode b f ys"
    using compress_lines_append [of mode blank inFence xs] by blast
  have "length (compress_lines mode blank inFence xs) + length (compress_lines mode b f ys) = length xs + length ys"
    using arg_cong [OF split, of length] assms by simp
  with compress_lines_length [of mode blank inFence xs] compress_lines_length [of mode b f ys]
  have "length (compress_lines mode blank inFence xs) = length xs" by linarith
  with split assms show ?thesis by simp
qed

lemma compress_empty_line: "compress_lines mode blank inFence [[]] \<in> {[], [[]]}"
  by (auto simp: Let_def)

lemma trim_right_set_subset: "c \<notin> set s \<Longrightarrow> c \<notin> set (trim_right_set s cs)"
  using set_mono_prefix [OF trim_right_set_prefix, of s cs] by blast

lemma compress_lines_newline:
  "list_all (\<lambda>line. newline \<notin> set line) lines \<Longrightarrow> list_all (\<lambda>line. newline \<notin> set line) (compress_lines mode blank inFence lines)"
  by (induction mode blank inFence lines rule: compress_lines.induct) (simp add: Let_def trim_right_set_subset)+

lemma trim_newline_snoc: "trim_right_set (s @ [newline]) [newline] = trim_right_set s [newline]"
  by (simp add: trim_right_set_def)

lemma trim_join_empties: "trim_right_set (join (xs @ replicate n []) [newline]) [newline] = trim_right_set (join xs [newline]) [newline]"
proof (induction n)
  case (Suc n)
  have snoc: "xs @ replicate (Suc n) [] = (xs @ replicate n []) @ [[]]" by (simp add: replicate_append_same)
  show ?case
  proof (cases "xs @ replicate n [] = []")
    case False
    then show ?thesis unfolding snoc join_snoc [OF False] using Suc by (simp add: trim_newline_snoc)
  qed simp
qed simp

lemma trim_join_plain:
  assumes "xs \<noteq> []" "last xs \<noteq> []" "newline \<notin> set (last xs)"
  shows "trim_right_set (join xs [newline]) [newline] = join xs [newline]"
proof -
  obtain ys y where "xs = ys @ [y]" using assms(1) by (cases xs rule: rev_cases) auto
  moreover from this assms obtain zs z where "y = zs @ [z]" "z \<noteq> newline" by (cases y rule: rev_cases) auto
  ultimately have "\<exists>w. join xs [newline] = w @ [z]" by (cases "ys = []") (auto simp: join_snoc)
  then show ?thesis using \<open>z \<noteq> newline\<close> by (auto simp: trim_right_set_def)
qed

lemma strip_empties: "\<exists>ys n. xs = ys @ replicate n [] \<and> (ys \<noteq> [] \<longrightarrow> last ys \<noteq> [])"
proof (induction xs rule: rev_induct)
  case (snoc x xs)
  then obtain ys n where xs: "xs = ys @ replicate n []" "ys \<noteq> [] \<longrightarrow> last ys \<noteq> []" by blast
  show ?case
  proof (cases "x = []")
    case True
    then show ?thesis using xs by (intro exI [of _ ys] exI [of _ "Suc n"]) (simp add: replicate_append_same)
  next
    case False
    then show ?thesis by (intro exI [of _ "xs @ [x]"] exI [of _ 0]) simp
  qed
qed simp

lemma compress_again:
  assumes out: "compress_lines mode False False out = out" and lines: "\<forall>line \<in> set out. newline \<notin> set line"
    and t: "t = trim_right_set (join out [newline]) [newline]"
  shows "trim_right_set (join (compress_lines mode False False (split_byte (t @ [newline]) newline)) [newline]) [newline] = t"
proof -
  obtain ys n where ys: "out = ys @ replicate n []" "ys \<noteq> [] \<longrightarrow> last ys \<noteq> []" using strip_empties by blast
  have fixed: "compress_lines mode False False ys = ys" using out unfolding ys(1) by (rule compress_fixed_prefix)
  obtain b f where split: "\<And>zs. compress_lines mode False False (ys @ zs) = ys @ compress_lines mode b f zs"
    using compress_lines_append [of mode False False ys] fixed by metis
  have t': "t = trim_right_set (join ys [newline]) [newline]" unfolding t ys(1) by (rule trim_join_empties)
  show ?thesis
  proof (cases "ys = []")
    case True
    then have "t = []" by (simp add: t')
    then show ?thesis by (simp add: Let_def trim_right_set_def)
  next
    case False
    then have plain: "t = join ys [newline]" using t' trim_join_plain [of ys] ys lines by simp
    have "split_byte (t @ [newline]) newline = ys @ [[]]"
      using split_byte_join [of "ys @ [[]]" newline] lines ys(1) False by (simp add: plain join_snoc)
    moreover obtain k where "compress_lines mode b f [[]] = replicate k []"
      using compress_empty_line [of mode b f] by (auto simp: replicate_Suc intro: that [of 0] that [of 1])
    ultimately show ?thesis using split [of "[[]]"] t' trim_join_empties [of ys k] by simp
  qed
qed

text \<open>
  Compressing the white space of a document is idempotent in every mode: a second pass changes
  nothing, with fenced code blocks, blank lines and trailing white space included.
\<close>

lemma compressWhitespaceText_idempotent:
  "compressWhitespaceText (compressWhitespaceText s mode) mode = compressWhitespaceText s mode"
  using compress_again [OF compress_lines_idem [of mode False False "split_byte s newline"] _ refl] split_parts [of _ s newline]
    compress_lines_newline [of "split_byte s newline" mode False False]
  by (simp add: compressWhitespaceText_def list_all_iff)

section \<open>The last messages\<close>

abbreviation counted :: "(nat \<Rightarrow> bool) \<Rightarrow> nat list \<Rightarrow> nat" where
  "counted counts indices \<equiv> length (filter counts indices)"

lemma last_n_messages_upt:
  assumes "0 < remaining"
  shows "case last_n_messages counts (rev [a..<b]) remaining of
      Inl left \<Rightarrow> counted counts [a..<b] + left = remaining \<and> 0 < left
    | Inr i \<Rightarrow> a \<le> i \<and> i < b \<and> counts i \<and> counted counts [i..<b] = remaining"
  using assms
proof (induction b arbitrary: remaining)
  case (Suc b)
  show ?case
  proof (cases "a \<le> b")
    case True
    show ?thesis
    proof (cases "counts b")
      case counts: True
      show ?thesis
      proof (cases "remaining = 1")
        case one: True
        then show ?thesis using True counts by simp
      next
        case False
        with Suc.IH [of "remaining - 1"] Suc.prems True counts show ?thesis by (auto split: sum.splits)
      qed
    next
      case False
      with Suc.IH [OF Suc.prems] True show ?thesis by (auto split: sum.splits)
    qed
  next
    case False
    with Suc.prems show ?thesis by simp
  qed
qed simp

text \<open>The indices a segment covers in a transcript of \<open>n\<close> messages.\<close>

definition covered :: "nat \<Rightarrow> CompactionSegment \<Rightarrow> nat list" where
  "covered n segment = [StartMessageIndex segment..<min (EndMessageIndex segment) n]"

lemma last_n_segments_spec:
  assumes "0 < remaining"
  shows "case last_n_segments counts n (rev (enumerate 0 segments)) remaining of
      None \<Rightarrow> counted counts (concat (map (covered n) segments)) < remaining
    | Some (i, cutoff) \<Rightarrow> i < length segments \<and> cutoff \<in> set (covered n (segments ! i)) \<and> counts cutoff \<and>
        counted counts ([cutoff..<min (EndMessageIndex (segments ! i)) n] @ concat (map (covered n) (drop (Suc i) segments))) = remaining"
  using assms
proof (induction segments arbitrary: remaining rule: rev_induct)
  case (snoc segment segments)
  let ?run = "last_n_messages counts (rev (covered n segment)) remaining"
  have enum: "rev (enumerate 0 (segments @ [segment])) = (length segments, segment) # rev (enumerate 0 segments)"
    by (simp add: enumerate_append_eq)
  note inner = last_n_messages_upt [OF snoc.prems, of counts "StartMessageIndex segment" "min (EndMessageIndex segment) n",
      folded covered_def]
  show ?case
  proof (cases ?run)
    case (Inr cutoff)
    then show ?thesis using inner unfolding enum by (simp add: covered_def nth_append)
  next
    case (Inl left)
    with inner have left: "counted counts (covered n segment) + left = remaining" "0 < left" by simp_all
    have step: "last_n_segments counts n (rev (enumerate 0 (segments @ [segment]))) remaining =
        last_n_segments counts n (rev (enumerate 0 segments)) left"
      using Inl unfolding enum by (simp add: covered_def)
    show ?thesis unfolding step using snoc.IH [OF left(2)] left(1)
      by (auto simp: nth_append split: option.splits prod.splits)
  qed
qed simp

lemma slice_upt: "k \<le> length xs \<Longrightarrow> slice xs a k = map ((!) xs) [a..<k]"
  by (rule nth_equalityI) (auto simp: slice_def)

lemma slice_covered:
  "slice messages (StartMessageIndex segment) (min (EndMessageIndex segment) (length messages)) =
   map ((!) messages) (covered (length messages) segment)"
  by (simp add: slice_upt covered_def)

lemma selected_covered:
  "selectedCompactionSegmentMessages messages selection =
   map ((!) messages) (concat (map (covered (length messages)) (Segments selection)))"
  by (simp add: selectedCompactionSegmentMessages_def slice_covered map_concat comp_def)

text \<open>Messages that the export renders one at a time.\<close>

lemma map_filter_length: "length (List.map_filter f xs) = length (filter (\<lambda>x. f x \<noteq> None) xs)"
  by (induction xs) (auto simp: List.map_filter_simps split: option.splits)

lemma filterMessages_each: "HistoryStart options = 0 \<Longrightarrow> filterMessages messages options = List.map_filter (keep_message (Content options)) messages"
proof -
  assume h: "HistoryStart options = 0"
  have "List.map_filter (\<lambda>(i, message). keep_message (Content options) message) (enumerate n messages) =
      List.map_filter (keep_message (Content options)) messages" for n
    by (induction messages arbitrary: n) (auto simp: List.map_filter_simps split: option.splits)
  then show ?thesis using h by (simp add: filterMessages_def)
qed

lemma map_filter_comp: "List.map_filter g (List.map_filter f xs) = List.map_filter (\<lambda>x. Option.bind (f x) g) xs"
  by (induction xs) (auto simp: List.map_filter_simps split: option.splits)

definition turn_of :: "ExportOptions \<Rightarrow> TranscriptMessage \<Rightarrow> ConversationTurn option" where
  "turn_of options m = Option.bind (keep_message (Content options) m) (shape_message (exportShapeOptions (Content options)))"

lemma export_turns:
  "ShapeConversation (filterMessages messages (options\<lparr>HistoryStart := 0\<rparr>)) (exportShapeOptions (Content options)) =
   List.map_filter (turn_of options) messages"
  by (simp add: ShapeConversation_def filterMessages_each map_filter_comp turn_of_def [abs_def] exportShapeOptions_def
      exportToolOnlyMode_def Let_def)

definition raw_export :: "ExportOptions \<Rightarrow> bool" where
  "raw_export options \<longleftrightarrow> Format options = ExportFormatJSON \<and> Has (Content options) ContentKindRawJSONMetadata"

lemma renders_turn: "\<not> raw_export options \<Longrightarrow> messageRendersForExport m options \<longleftrightarrow> turn_of options m \<noteq> None"
  using export_turns [of "[m]" options]
  by (auto simp: messageRendersForExport_def raw_export_def Let_def filterMessages_each List.map_filter_simps turn_of_def
      split: option.splits)

definition ordinary :: "TranscriptMessage \<Rightarrow> bool" where
  "ordinary m \<longleftrightarrow> Compaction m = None \<and> Visibility m \<noteq> MessageVisibilityMetaOnly"

lemma counts_turns:
  "\<not> raw_export options \<Longrightarrow>
   length (List.map_filter (turn_of options) (filter ordinary ms)) = length (filter (\<lambda>m. messageCountsForLastN m options) ms)"
  by (simp add: map_filter_length messageCountsForLastN_def renders_turn ordinary_def conj_comms)

lemma last_n_selected:
  fixes messages :: "TranscriptMessage list" and selection :: CompactionSegmentSelection
  assumes "0 < LastN options"
  defines "counts \<equiv> \<lambda>m. messageCountsForLastN m options"
    and "old \<equiv> selectedCompactionSegmentMessages messages selection"
    and "new \<equiv> selectedCompactionSegmentMessages messages (applyLastNToSegmentSelection messages selection options)"
  shows "suffix new old \<and> length (filter counts new) = min (nat (LastN options)) (length (filter counts old)) \<and>
    (nat (LastN options) \<le> length (filter counts old) \<longrightarrow> new \<noteq> [] \<and> counts (hd new))"
proof -
  let ?n = "length messages" and ?segs = "Segments selection"
  let ?counts = "\<lambda>i. counts (messages ! i)"
  let ?cov = "\<lambda>segs. concat (map (covered ?n) segs)"
  have filter_map_nth: "length (filter counts (map ((!) messages) js)) = counted ?counts js" for js
    by (simp add: filter_map comp_def)
  have pos: "0 < nat (LastN options)" using assms(1) by simp
  note spec = last_n_segments_spec [OF pos, of ?counts ?n ?segs]
  show ?thesis
  proof (cases "last_n_segments ?counts ?n (rev (enumerate 0 ?segs)) (nat (LastN options))")
    case None
    then have "new = old" using assms(1) by (simp add: new_def old_def applyLastNToSegmentSelection_def counts_def)
    moreover have "counted ?counts (?cov ?segs) < nat (LastN options)" using spec None by simp
    moreover have "length (filter counts old) = counted ?counts (?cov ?segs)" by (simp only: old_def selected_covered filter_map_nth)
    ultimately show ?thesis by simp
  next
    case (Some pair)
    obtain i cutoff where pair: "pair = (i, cutoff)" by fastforce
    define rest where "rest = [cutoff..<min (EndMessageIndex (?segs ! i)) ?n] @ ?cov (drop (Suc i) ?segs)"
    have i: "i < length ?segs" "cutoff \<in> set (covered ?n (?segs ! i))" "?counts cutoff" "counted ?counts rest = nat (LastN options)"
      using spec Some pair by (simp_all add: rest_def)
    have new: "new = map ((!) messages) rest"
      using Some pair assms(1) by (simp add: new_def applyLastNToSegmentSelection_def counts_def selected_covered rest_def covered_def)
    have "covered ?n (?segs ! i) =
        [StartMessageIndex (?segs ! i)..<cutoff] @ [cutoff..<min (EndMessageIndex (?segs ! i)) ?n]"
      using i(2) upt_add_eq_append [of "StartMessageIndex (?segs ! i)" cutoff "min (EndMessageIndex (?segs ! i)) ?n - cutoff"]
      by (simp add: covered_def)
    moreover have "?cov ?segs = ?cov (take i ?segs) @ covered ?n (?segs ! i) @ ?cov (drop (Suc i) ?segs)"
      using arg_cong [OF id_take_nth_drop [OF i(1)], of ?cov] by simp
    ultimately have cov: "?cov ?segs = (?cov (take i ?segs) @ [StartMessageIndex (?segs ! i)..<cutoff]) @ rest"
      by (simp add: rest_def)
    have "suffix new old" unfolding new old_def selected_covered cov map_append by (rule suffixI) (rule refl)
    moreover have "rest \<noteq> []" "hd rest = cutoff" using i(2) by (auto simp: rest_def covered_def upt_conv_Cons)
    moreover have "length (filter counts old) = counted ?counts (?cov ?segs)" by (simp only: old_def selected_covered filter_map_nth)
    moreover have "counted ?counts rest \<le> counted ?counts (?cov ?segs)" unfolding cov by simp
    moreover have "length (filter counts new) = counted ?counts rest" unfolding new by (rule filter_map_nth)
    ultimately show ?thesis using i(3,4) by (simp add: new hd_map)
  qed
qed


definition demo_turn :: "bytes \<Rightarrow> TranscriptMessage" where
  "demo_turn s = (demo_message None)\<lparr>Text := s\<rparr>"

definition demo_export :: ExportOptions where
  "demo_export = \<lparr>Format = ExportFormatMarkdown, HistoryStart = 0, LastN = 1, MaxLines = 0, Whitespace = WhitespacePreserve,
     Content = {ContentKindChat}, Export_Compaction = \<lparr>IncludeSelector = [], FullHistory = False\<rparr>\<rparr>"


end
