(* ===== verification/Codestore_Record.thy ===== *)
theory Codestore_Record
  imports Go_Prelude "HOL-Library.Word"
begin

unbundle bit_operations_syntax

text \<open>
  The byte formats of package \<open>internal/conversation/codestore\<close> (\<open>record.go\<close>): the payload of
  a row record, the frame around it and the blob with a row's content and metadata, with the
  parts of \<open>encoding/binary\<close> and \<open>hash/crc32\<close> they are built from.

  Values of type \<open>int64\<close> and \<open>int32\<close> are integers; the encoders are exact on their range.
  The buffers handed to the decoder are allocated with their exact length, so a slice
  expression beyond the length is beyond the capacity and panics.
\<close>

section \<open>Integers as bytes\<close>

fun le_bytes :: "nat \<Rightarrow> nat \<Rightarrow> bytes" where
  "le_bytes 0 n = []"
| "le_bytes (Suc k) n = char_of (n mod 256) # le_bytes k (n div 256)"

fun le_value :: "bytes \<Rightarrow> nat" where
  "le_value [] = 0"
| "le_value (c # cs) = byte c + 256 * le_value cs"

lemma length_le_bytes [simp]: "length (le_bytes k n) = k"
  by (induction k arbitrary: n) simp_all

lemma le_value_le_bytes [simp]: "le_value (le_bytes k n) = n mod 256 ^ k"
  by (induction k arbitrary: n) (simp_all add: mod_mult2_eq)

lemma le_value_less: "le_value cs < 256 ^ length cs"
proof (induction cs)
  case (Cons c cs)
  have "byte c < 256" by simp
  moreover from Cons have "256 * (le_value cs + 1) \<le> 256 * 256 ^ length cs"
    by (intro mult_le_mono2) simp
  ultimately show ?case by (simp del: byte_less)
qed simp

text \<open>
  A \<open>uint64\<close> is written seven bits at a time, least significant first, with the top bit set
  on all bytes but the last. A reader rejects an unfinished number and one beyond 64 bits; the
  bits it ors together are disjoint, so their sum is the same number.
\<close>

fun AppendUvarint :: "nat \<Rightarrow> bytes" where
  "AppendUvarint n = (if n < 128 then [char_of n] else char_of (n mod 128 + 128) # AppendUvarint (n div 128))"

declare AppendUvarint.simps [simp del]

fun Uvarint_from :: "nat \<Rightarrow> nat \<Rightarrow> nat \<Rightarrow> bytes \<Rightarrow> (nat \<times> nat) option" where
  "Uvarint_from i s x [] = None"
| "Uvarint_from i s x (b # bs) =
     (if i = 10 then None
      else if byte b < 128 then
        (if i = 9 \<and> byte b > 1 then None else Some (x + byte b * 2 ^ s, i + 1))
      else Uvarint_from (i + 1) (s + 7) (x + (byte b mod 128) * 2 ^ s) bs)"

definition zigzag :: "int \<Rightarrow> nat" where
  "zigzag x = (if x < 0 then nat (- 2 * x - 1) else nat (2 * x))"

definition unzigzag :: "nat \<Rightarrow> int" where
  "unzigzag u = (if odd u then - int (u div 2) - 1 else int (u div 2))"

definition AppendVarint :: "int \<Rightarrow> bytes" where
  "AppendVarint x = AppendUvarint (zigzag x)"

definition Varint :: "bytes \<Rightarrow> (int \<times> nat) option" where
  "Varint bs = map_option (\<lambda>(u, n). (unzigzag u, n)) (Uvarint_from 0 0 0 bs)"

abbreviation MaxInt64 :: int where "MaxInt64 \<equiv> 9223372036854775807"
abbreviation MinInt64 :: int where "MinInt64 \<equiv> - 9223372036854775808"
abbreviation MaxInt32 :: int where "MaxInt32 \<equiv> 2147483647"
abbreviation MinInt32 :: int where "MinInt32 \<equiv> - 2147483648"
abbreviation MaxUint32 :: nat where "MaxUint32 \<equiv> 4294967295"

lemma Uvarint_from_AppendUvarint:
  "i < 10 \<Longrightarrow> n < 2 ^ (64 - 7 * i) \<Longrightarrow>
   Uvarint_from i (7 * i) x (AppendUvarint n @ rest) =
     Some (x + n * 2 ^ (7 * i), i + length (AppendUvarint n))"
proof (induction n arbitrary: i x rule: AppendUvarint.induct)
  case (1 n)
  show ?case
  proof (cases "n < 128")
    case True
    have "i = 9 \<Longrightarrow> n < 2" using 1(3) by simp
    with True 1(2) show ?thesis by (auto simp: AppendUvarint.simps [of n])
  next
    case False
    have i: "i \<noteq> 9" using False 1(3) by auto
    with 1(2) have "64 - 7 * i = 7 + (64 - 7 * (i + 1))" by arith
    with 1(3) have "n < 2 ^ 7 * 2 ^ (64 - 7 * (i + 1))" by (metis power_add)
    then have "n div 128 < 2 ^ (64 - 7 * (i + 1))" by (simp add: less_mult_imp_div_less mult.commute)
    with 1(1) [of "i + 1" "x + (n mod 128) * 2 ^ (7 * i)"] False i 1(2)
    have IH: "Uvarint_from (i + 1) (7 * (i + 1)) (x + (n mod 128) * 2 ^ (7 * i)) (AppendUvarint (n div 128) @ rest) =
        Some (x + (n mod 128) * 2 ^ (7 * i) + (n div 128) * 2 ^ (7 * (i + 1)),
              i + 1 + length (AppendUvarint (n div 128)))" by simp
    have "n * 2 ^ (7 * i) = (n mod 128 + 128 * (n div 128)) * 2 ^ (7 * i)" by simp
    also have "\<dots> = (n mod 128) * 2 ^ (7 * i) + (n div 128) * 2 ^ (7 * (i + 1))"
      unfolding distrib_right by (simp add: power_add)
    finally have "(n mod 128) * 2 ^ (7 * i) + (n div 128) * 2 ^ (7 * (i + 1)) = n * 2 ^ (7 * i)" ..
    with IH False 1(2) show ?thesis
      by (simp add: AppendUvarint.simps [of n] add.assoc add.commute [of "7 * i" 7])
  qed
qed

lemma unzigzag_zigzag [simp]: "unzigzag (zigzag x) = x"
proof (cases "x < 0")
  case True
  define m where "m = nat (- x - 1)"
  have "zigzag x = 2 * m + 1" using True by (simp add: zigzag_def m_def)
  then show ?thesis using True by (simp add: unzigzag_def m_def)
next
  case False
  then have "zigzag x = 2 * nat x" by (simp add: zigzag_def)
  then show ?thesis using False by (simp add: unzigzag_def)
qed

lemma zigzag_bound: "MinInt64 \<le> x \<Longrightarrow> x \<le> MaxInt64 \<Longrightarrow> zigzag x < 2 ^ 64"
  by (simp add: zigzag_def) linarith

lemma Varint_AppendVarint:
  "MinInt64 \<le> x \<Longrightarrow> x \<le> MaxInt64 \<Longrightarrow> Varint (AppendVarint x @ rest) = Some (x, length (AppendVarint x))"
  using Uvarint_from_AppendUvarint [of 0 "zigzag x" 0 rest] zigzag_bound [of x]
  by (simp add: Varint_def AppendVarint_def)

text \<open>The reflected CRC-32 with polynomial \<open>0xEDB88320\<close>, a bit at a time.\<close>

definition crc_bit :: "32 word \<Rightarrow> 32 word" where
  "crc_bit c = (if bit c 0 then drop_bit 1 c XOR 0xEDB88320 else drop_bit 1 c)"

definition crc_byte :: "char \<Rightarrow> 32 word \<Rightarrow> 32 word" where
  "crc_byte b c = crc_bit (crc_bit (crc_bit (crc_bit (crc_bit (crc_bit (crc_bit (crc_bit
     (c XOR word_of_nat (byte b)))))))))"

definition ChecksumIEEE :: "bytes \<Rightarrow> nat" where
  "ChecksumIEEE bs = unat (NOT (fold crc_byte bs (NOT 0)))"

lemma unat_less_width: "unat (w :: 'a :: len word) < 2 ^ LENGTH('a)"
  by (rule unsigned_less)

lemma ChecksumIEEE_less: "ChecksumIEEE bs < 256 ^ 4"
  using unat_less_width [of "NOT (fold crc_byte bs (NOT 0)) :: 32 word"] by (simp add: ChecksumIEEE_def)

section \<open>Row records\<close>

text \<open>
  Columns and scalar values are types of the collection interface; the fields are those this
  package reads and writes.
\<close>

datatype ScalarType = ScalarTypeString | ScalarTypeBool | ScalarTypeInt64 | OtherScalarType bytes

record ScalarColumn =
  col_name :: bytes
  col_type :: ScalarType

record ScalarValue =
  scalar_type :: ScalarType
  scalar_null :: bool
  scalar_string :: bytes
  scalar_bool :: bool
  scalar_int64 :: int

record storedCell =
  cell_column :: nat
  cell_scalar :: ScalarValue

definition codeWords :: nat where "codeWords = 4"

record rowRecord =
  rec_kind :: char
  rec_id :: bytes
  rec_code :: "64 word list"
  rec_relativePath :: bytes
  rec_splitPart :: int
  rec_splitRecorded :: bool
  rec_dataOffset :: int
  rec_dataLength :: int
  rec_cells :: "storedCell list"

definition recordUpsert :: char where "recordUpsert = CHR 0x01"
definition recordDelete :: char where "recordDelete = CHR 0x02"
definition cellNull :: char where "cellNull = CHR 0x00"
definition cellValue :: char where "cellValue = CHR 0x01"

definition frameFormatPayloadCRC :: int where "frameFormatPayloadCRC = 0"
definition frameFormatLengthCRC :: int where "frameFormatLengthCRC = 1"
definition frameHeaderBytes :: nat where "frameHeaderBytes = 8"
definition lengthCheckedFrameHeaderBytes :: nat where "lengthCheckedFrameHeaderBytes = 12"
definition frameFieldBytes :: nat where "frameFieldBytes = 4"

lemmas record_constants = recordUpsert_def recordDelete_def cellNull_def cellValue_def codeWords_def

definition emptyRecord :: "char \<Rightarrow> bytes \<Rightarrow> rowRecord" where
  "emptyRecord kind i =
     \<lparr>rec_kind = kind, rec_id = i, rec_code = replicate codeWords 0, rec_relativePath = [],
      rec_splitPart = 0, rec_splitRecorded = False, rec_dataOffset = 0, rec_dataLength = 0, rec_cells = []\<rparr>"

definition appendString :: "bytes \<Rightarrow> bytes \<Rightarrow> bytes" where
  "appendString buffer s = buffer @ AppendVarint (int (length s)) @ s"

definition frameHeaderSize :: "int \<Rightarrow> nat" where
  "frameHeaderSize format =
     (if format = frameFormatLengthCRC then lengthCheckedFrameHeaderBytes else frameHeaderBytes)"

definition appendFrame :: "bytes \<Rightarrow> bytes \<Rightarrow> int \<Rightarrow> bytes option" where
  "appendFrame buffer payload format =
     (let len = length payload in
      if len > MaxUint32 then None
      else Some (buffer @ le_bytes 4 len @
             (if format = frameFormatLengthCRC then le_bytes 4 (ChecksumIEEE (le_bytes 4 len)) else []) @
             le_bytes 4 (ChecksumIEEE payload) @ payload))"

text \<open>
  \<open>encodeRecord\<close> fails on a value of a column whose type it does not know, and indexes the
  columns by the cell's column number.
\<close>

definition bool_byte :: "bool \<Rightarrow> char" where
  "bool_byte b = (if b then CHR 0x01 else CHR 0x00)"

fun encode_cells :: "ScalarColumn list \<Rightarrow> storedCell list \<Rightarrow> bytes \<Rightarrow> bytes option outcome" where
  "encode_cells columns [] payload = Returns (Some payload)"
| "encode_cells columns (cell # rest) payload =
     (let payload1 = payload @ AppendVarint (int (cell_column cell));
          v = cell_scalar cell
      in if scalar_null v then encode_cells columns rest (payload1 @ [cellNull])
         else let payload2 = payload1 @ [cellValue] in
           if cell_column cell \<ge> length columns then Panic
           else case col_type (columns ! cell_column cell) of
             ScalarTypeString \<Rightarrow> encode_cells columns rest (appendString payload2 (scalar_string v))
           | ScalarTypeBool \<Rightarrow> encode_cells columns rest (payload2 @ [bool_byte (scalar_bool v)])
           | ScalarTypeInt64 \<Rightarrow> encode_cells columns rest (payload2 @ AppendVarint (scalar_int64 v))
           | OtherScalarType _ \<Rightarrow> Returns None)"

definition encodeRecord :: "rowRecord \<Rightarrow> ScalarColumn list \<Rightarrow> bytes option outcome" where
  "encodeRecord r columns =
     (let payload = appendString [rec_kind r] (rec_id r) in
      if rec_kind r = recordDelete then Returns (Some payload)
      else let payload = payload @ concat (map (\<lambda>w. le_bytes 8 (unat w)) (rec_code r));
               payload = appendString payload (rec_relativePath r);
               payload = payload @ AppendVarint (rec_splitPart r);
               payload = payload @ [bool_byte (rec_splitRecorded r)];
               payload = payload @ AppendVarint (rec_dataOffset r);
               payload = payload @ AppendVarint (rec_dataLength r);
               payload = payload @ AppendVarint (int (length (rec_cells r)))
           in encode_cells columns (rec_cells r) payload)"

section \<open>The decoder\<close>

record decoder =
  dec_data :: bytes
  dec_err :: bool

definition byteValue :: "decoder \<Rightarrow> char \<times> decoder" where
  "byteValue reader =
     (if dec_err reader \<or> dec_data reader = [] then (CHR 0x00, reader\<lparr>dec_err := True\<rparr>)
      else (hd (dec_data reader), reader\<lparr>dec_data := tl (dec_data reader)\<rparr>))"

definition varint :: "decoder \<Rightarrow> int \<times> decoder" where
  "varint reader =
     (if dec_err reader then (0, reader)
      else case Varint (dec_data reader) of
        None \<Rightarrow> (0, reader\<lparr>dec_err := True\<rparr>)
      | Some (v, read) \<Rightarrow> (v, reader\<lparr>dec_data := drop read (dec_data reader)\<rparr>))"

definition count :: "int \<Rightarrow> decoder \<Rightarrow> int \<times> decoder" where
  "count limit reader =
     (let (v, reader) = varint reader in
      if v < 0 \<or> v > limit then (0, reader\<lparr>dec_err := True\<rparr>) else (v, reader))"

definition int32Value :: "decoder \<Rightarrow> int \<times> decoder" where
  "int32Value reader =
     (let (v, reader) = varint reader in
      if v < MinInt32 \<or> v > MaxInt32 then (0, reader\<lparr>dec_err := True\<rparr>) else (v, reader))"

text \<open>The limit is taken before the length's own bytes are consumed.\<close>

definition stringValue :: "decoder \<Rightarrow> (bytes \<times> decoder) outcome" where
  "stringValue reader =
     (let (len, reader) = count (int (length (dec_data reader))) reader in
      if dec_err reader then Returns ([], reader)
      else if nat len > length (dec_data reader) then Panic
      else Returns (take (nat len) (dec_data reader), reader\<lparr>dec_data := drop (nat len) (dec_data reader)\<rparr>))"

definition decode_scalar :: "ScalarType \<Rightarrow> ScalarValue \<Rightarrow> decoder \<Rightarrow> (ScalarValue \<times> decoder) option outcome" where
  "decode_scalar columnType v reader =
     (case columnType of
        ScalarTypeString \<Rightarrow> and_then (stringValue reader) (\<lambda>(s, reader). Returns (Some (v\<lparr>scalar_string := s\<rparr>, reader)))
      | ScalarTypeBool \<Rightarrow> (let (b, reader) = byteValue reader in Returns (Some (v\<lparr>scalar_bool := b = CHR 0x01\<rparr>, reader)))
      | ScalarTypeInt64 \<Rightarrow> (let (i, reader) = varint reader in Returns (Some (v\<lparr>scalar_int64 := i\<rparr>, reader)))
      | OtherScalarType _ \<Rightarrow> Returns None)"

definition null_scalar :: "ScalarType \<Rightarrow> ScalarValue" where
  "null_scalar t = \<lparr>scalar_type = t, scalar_null = True, scalar_string = [], scalar_bool = False, scalar_int64 = 0\<rparr>"

fun decode_cells ::
    "ScalarColumn list \<Rightarrow> nat \<Rightarrow> storedCell list \<Rightarrow> decoder \<Rightarrow> (storedCell list \<times> decoder) option outcome" where
  "decode_cells columns 0 cells reader = Returns (Some (cells, reader))"
| "decode_cells columns (Suc n) cells reader =
     (let (column, reader) = count (int (length columns) - 1) reader in
      if dec_err reader then Returns None
      else if nat column \<ge> length columns then Panic
      else let columnType = col_type (columns ! nat column);
               v = null_scalar columnType;
               (b, reader) = byteValue reader
           in if b = cellValue
              then and_then (decode_scalar columnType (v\<lparr>scalar_null := False\<rparr>) reader) (\<lambda>decoded.
                case decoded of
                  None \<Rightarrow> Returns None
                | Some (v, reader) \<Rightarrow>
                    decode_cells columns n (cells @ [\<lparr>cell_column = nat column, cell_scalar = v\<rparr>]) reader)
              else decode_cells columns n (cells @ [\<lparr>cell_column = nat column, cell_scalar = v\<rparr>]) reader)"

definition decode_code :: "bytes \<Rightarrow> 64 word list" where
  "decode_code bs = map (\<lambda>w. word_of_nat (le_value (take 8 (drop (w * 8) bs)))) [0..<codeWords]"

text \<open>The result is \<open>None\<close> for the error \<open>errMalformedRecord\<close>.\<close>

definition decodeRecord :: "bytes \<Rightarrow> ScalarColumn list \<Rightarrow> rowRecord option outcome" where
  "decodeRecord payload columns =
     (let (kind, reader) = byteValue \<lparr>dec_data = payload, dec_err = False\<rparr> in
      and_then (stringValue reader) (\<lambda>(i, reader).
      let r = emptyRecord kind i in
      if kind = recordDelete then Returns (if dec_err reader then None else Some r)
      else if kind \<noteq> recordUpsert \<or> length (dec_data reader) < codeWords * 8 then Returns None
      else let r = r\<lparr>rec_code := decode_code (dec_data reader)\<rparr>;
               reader = reader\<lparr>dec_data := drop (codeWords * 8) (dec_data reader)\<rparr>
           in and_then (stringValue reader) (\<lambda>(path, reader).
      let (part, reader) = int32Value reader;
          (recorded, reader) = byteValue reader;
          (offset, reader) = count MaxInt64 reader;
          (len, reader) = count MaxInt64 reader;
          (cellCount, reader) = count (int (length columns)) reader;
          r = r\<lparr>rec_relativePath := path, rec_splitPart := part, rec_splitRecorded := recorded = CHR 0x01,
                rec_dataOffset := offset, rec_dataLength := len\<rparr>
      in if dec_err reader then Returns None
         else and_then (decode_cells columns (nat cellCount) [] reader) (\<lambda>decoded.
           case decoded of
             None \<Rightarrow> Returns None
           | Some (cells, reader) \<Rightarrow>
               Returns (if dec_err reader then None else Some (r\<lparr>rec_cells := cells\<rparr>))))))"

definition encodeBlob :: "bytes \<Rightarrow> bytes \<Rightarrow> bytes" where
  "encodeBlob content metadata = appendString (appendString [] content) metadata"

definition decodeBlob :: "bytes \<Rightarrow> (bytes \<times> bytes) option outcome" where
  "decodeBlob blob =
     and_then (stringValue \<lparr>dec_data = blob, dec_err = False\<rparr>) (\<lambda>(content, reader).
     and_then (stringValue reader) (\<lambda>(metadata, reader).
     Returns (if dec_err reader then None else Some (content, metadata))))"

section \<open>Reading what was written\<close>

abbreviation reading :: "bytes \<Rightarrow> decoder" where
  "reading bs \<equiv> \<lparr>dec_data = bs, dec_err = False\<rparr>"

named_theorems decoding \<open>what the decoder reads from an encoded field\<close>

lemma byteValue_Cons [decoding]: "byteValue (reading (b # rest)) = (b, reading rest)"
  by (simp add: byteValue_def)

lemma varint_AppendVarint [decoding]:
  "MinInt64 \<le> x \<Longrightarrow> x \<le> MaxInt64 \<Longrightarrow> varint (reading (AppendVarint x @ rest)) = (x, reading rest)"
  by (simp add: varint_def Varint_AppendVarint)

lemma count_AppendVarint [decoding]:
  "0 \<le> x \<Longrightarrow> x \<le> limit \<Longrightarrow> x \<le> MaxInt64 \<Longrightarrow> count limit (reading (AppendVarint x @ rest)) = (x, reading rest)"
  by (simp add: count_def varint_AppendVarint)

lemma int32Value_AppendVarint [decoding]:
  "MinInt32 \<le> x \<Longrightarrow> x \<le> MaxInt32 \<Longrightarrow> int32Value (reading (AppendVarint x @ rest)) = (x, reading rest)"
  by (simp add: int32Value_def varint_AppendVarint)

lemma stringValue_append [decoding]:
  "int (length s) \<le> MaxInt64 \<Longrightarrow>
   stringValue (reading (AppendVarint (int (length s)) @ s @ rest)) = Returns (s, reading rest)"
  by (simp add: stringValue_def count_AppendVarint)

lemma bool_byte_eq [simp]: "bool_byte b = CHR 0x01 \<longleftrightarrow> b"
  by (simp add: bool_byte_def)

lemma decode_code_words [decoding]:
  assumes "length ws = codeWords"
  shows "decode_code (concat (map (\<lambda>w. le_bytes 8 (unat w)) ws) @ rest) = ws"
proof -
  from assms obtain a b c d where ws: "ws = [a, b, c, d]"
    by (auto simp: codeWords_def length_Suc_conv eval_nat_numeral)
  have up: "[0..<codeWords] = [0, 1, 2, 3]" by (simp add: codeWords_def upt_rec)
  have m: "unat (w :: 64 word) mod 18446744073709551616 = unat w" for w
    using unat_less_width [of w] by (intro mod_less) simp
  show ?thesis unfolding decode_code_def up ws by (simp add: m)
qed

text \<open>Values in the form the decoder gives them, and the records it can represent.\<close>

definition typed_scalar :: "ScalarType \<Rightarrow> ScalarValue \<Rightarrow> bool" where
  "typed_scalar t v \<longleftrightarrow>
     (if scalar_null v then v = null_scalar t
      else case t of
        ScalarTypeString \<Rightarrow> v = (null_scalar t)\<lparr>scalar_null := False, scalar_string := scalar_string v\<rparr> \<and>
          int (length (scalar_string v)) \<le> MaxInt64
      | ScalarTypeBool \<Rightarrow> v = (null_scalar t)\<lparr>scalar_null := False, scalar_bool := scalar_bool v\<rparr>
      | ScalarTypeInt64 \<Rightarrow> v = (null_scalar t)\<lparr>scalar_null := False, scalar_int64 := scalar_int64 v\<rparr> \<and>
          MinInt64 \<le> scalar_int64 v \<and> scalar_int64 v \<le> MaxInt64
      | OtherScalarType _ \<Rightarrow> False)"

definition cell_ok :: "ScalarColumn list \<Rightarrow> storedCell \<Rightarrow> bool" where
  "cell_ok columns c \<longleftrightarrow> cell_column c < length columns \<and>
     typed_scalar (col_type (columns ! cell_column c)) (cell_scalar c)"

definition record_ok :: "ScalarColumn list \<Rightarrow> rowRecord \<Rightarrow> bool" where
  "record_ok columns r \<longleftrightarrow>
     int (length (rec_id r)) \<le> MaxInt64 \<and> int (length columns) \<le> MaxInt64 \<and>
     (if rec_kind r = recordDelete then r = emptyRecord recordDelete (rec_id r)
      else rec_kind r = recordUpsert \<and> length (rec_code r) = codeWords \<and>
        int (length (rec_relativePath r)) \<le> MaxInt64 \<and>
        MinInt32 \<le> rec_splitPart r \<and> rec_splitPart r \<le> MaxInt32 \<and>
        0 \<le> rec_dataOffset r \<and> rec_dataOffset r \<le> MaxInt64 \<and>
        0 \<le> rec_dataLength r \<and> rec_dataLength r \<le> MaxInt64 \<and>
        length (rec_cells r) \<le> length columns \<and> list_all (cell_ok columns) (rec_cells r))"

fun cells_bytes :: "ScalarColumn list \<Rightarrow> storedCell list \<Rightarrow> bytes" where
  "cells_bytes columns [] = []"
| "cells_bytes columns (c # cs) =
     AppendVarint (int (cell_column c)) @
     (if scalar_null (cell_scalar c) then [cellNull]
      else cellValue # (case col_type (columns ! cell_column c) of
        ScalarTypeString \<Rightarrow> appendString [] (scalar_string (cell_scalar c))
      | ScalarTypeBool \<Rightarrow> [bool_byte (scalar_bool (cell_scalar c))]
      | ScalarTypeInt64 \<Rightarrow> AppendVarint (scalar_int64 (cell_scalar c))
      | OtherScalarType _ \<Rightarrow> [])) @ cells_bytes columns cs"

lemma encode_cells_bytes:
  "list_all (cell_ok columns) cs \<Longrightarrow>
   encode_cells columns cs payload = Returns (Some (payload @ cells_bytes columns cs))"
  by (induction cs arbitrary: payload)
     (auto simp: cell_ok_def typed_scalar_def Let_def appendString_def split: ScalarType.splits if_splits)

lemma typed_scalar_cases:
  assumes "typed_scalar t v" "\<not> scalar_null v"
  obtains (str) "t = ScalarTypeString" "(null_scalar t)\<lparr>scalar_null := False, scalar_string := scalar_string v\<rparr> = v"
      "int (length (scalar_string v)) \<le> MaxInt64"
    | (boolean) "t = ScalarTypeBool" "(null_scalar t)\<lparr>scalar_null := False, scalar_bool := scalar_bool v\<rparr> = v"
    | (int) "t = ScalarTypeInt64" "(null_scalar t)\<lparr>scalar_null := False, scalar_int64 := scalar_int64 v\<rparr> = v"
      "MinInt64 \<le> scalar_int64 v" "scalar_int64 v \<le> MaxInt64"
  using assms by (cases t) (simp_all add: typed_scalar_def)

lemma decode_cells_bytes:
  "list_all (cell_ok columns) cs \<Longrightarrow> int (length columns) \<le> MaxInt64 \<Longrightarrow>
   decode_cells columns (length cs) acc (reading (cells_bytes columns cs @ rest)) =
     Returns (Some (acc @ cs, reading rest))"
proof (induction cs arbitrary: acc)
  case (Cons c cs)
  let ?v = "cell_scalar c" and ?t = "col_type (columns ! cell_column c)"
  have c: "cell_column c < length columns" "typed_scalar ?t ?v"
    using Cons.prems(1) by (simp_all add: cell_ok_def)
  have cell: "\<lparr>cell_column = cell_column c, cell_scalar = ?v\<rparr> = c" by simp
  note col = count_AppendVarint [of "int (cell_column c)" "int (length columns) - 1"]
  have IH: "decode_cells columns (length cs) (acc @ [c]) (reading (cells_bytes columns cs @ rest)) =
      Returns (Some (acc @ c # cs, reading rest))" using Cons by simp
  show ?case
  proof (cases "scalar_null ?v")
    case True
    with c(2) have "null_scalar ?t = ?v" by (simp add: typed_scalar_def)
    with True c(1) Cons.prems(2) IH show ?thesis
      by (simp add: cell col byteValue_Cons cellNull_def cellValue_def Let_def)
  next
    case False
    from c(2) False show ?thesis
    proof (cases rule: typed_scalar_cases)
      case str
      with False c(1) Cons.prems(2) IH show ?thesis
        by (simp add: cell col byteValue_Cons Let_def decode_scalar_def appendString_def stringValue_append)
    next
      case boolean
      with False c(1) Cons.prems(2) IH show ?thesis
        by (simp add: cell col byteValue_Cons Let_def decode_scalar_def)
    next
      case int
      with False c(1) Cons.prems(2) IH show ?thesis
        by (simp add: cell col byteValue_Cons Let_def decode_scalar_def varint_AppendVarint)
    qed
  qed
qed simp

text \<open>The bytes of a record in one piece.\<close>

definition record_bytes :: "ScalarColumn list \<Rightarrow> rowRecord \<Rightarrow> bytes" where
  "record_bytes columns r =
     rec_kind r # AppendVarint (int (length (rec_id r))) @ rec_id r @
     (if rec_kind r = recordDelete then []
      else concat (map (\<lambda>w. le_bytes 8 (unat w)) (rec_code r)) @
        AppendVarint (int (length (rec_relativePath r))) @ rec_relativePath r @
        AppendVarint (rec_splitPart r) @ bool_byte (rec_splitRecorded r) #
        AppendVarint (rec_dataOffset r) @ AppendVarint (rec_dataLength r) @
        AppendVarint (int (length (rec_cells r))) @ cells_bytes columns (rec_cells r))"

lemma encodeRecord_bytes:
  "record_ok columns r \<Longrightarrow> encodeRecord r columns = Returns (Some (record_bytes columns r))"
  by (simp add: encodeRecord_def record_bytes_def record_ok_def Let_def appendString_def
      encode_cells_bytes split: if_splits)

lemma length_code_bytes [simp]:
  "length (concat (map (\<lambda>w. le_bytes 8 (unat w)) ws)) = 8 * length ws"
  by (induction ws) simp_all

lemma decodeRecord_bytes:
  assumes ok: "record_ok columns r"
  shows "decodeRecord (record_bytes columns r) columns = Returns (Some r)"
proof (cases "rec_kind r = recordDelete")
  case True
  with ok have i: "int (length (rec_id r)) \<le> MaxInt64" and r: "r = emptyRecord recordDelete (rec_id r)"
    by (simp_all add: record_ok_def)
  from True i stringValue_append [OF i, of "[]"]
  have "decodeRecord (record_bytes columns r) columns = Returns (Some (emptyRecord recordDelete (rec_id r)))"
    by (simp add: decodeRecord_def record_bytes_def byteValue_Cons Let_def)
  with r show ?thesis by simp
next
  case False
  with ok have up: "rec_kind r = recordUpsert" and code: "length (rec_code r) = codeWords"
    and cells: "list_all (cell_ok columns) (rec_cells r)" "int (length columns) \<le> MaxInt64"
    by (simp_all add: record_ok_def)
  note dec = decode_cells_bytes [OF cells, where acc = "[]" and rest = "[]"]
  have r: "(emptyRecord recordUpsert (rec_id r))\<lparr>rec_code := rec_code r, rec_relativePath := rec_relativePath r,
      rec_splitPart := rec_splitPart r, rec_splitRecorded := rec_splitRecorded r,
      rec_dataOffset := rec_dataOffset r, rec_dataLength := rec_dataLength r, rec_cells := rec_cells r\<rparr> = r"
    using up by (simp add: emptyRecord_def)
  have drop: "drop (codeWords * 8) (concat (map (\<lambda>w. le_bytes 8 (unat w)) (rec_code r)) @ rest) = rest" for rest
    using code by simp
  from ok False code dec r up show ?thesis
    unfolding decodeRecord_def record_bytes_def record_ok_def
    by (simp add: decoding drop Let_def del: drop_append)
qed

text \<open>
  C36. Every well-formed row record reads back from its own bytes: \<open>encodeRecord\<close> succeeds and
  \<open>decodeRecord\<close> returns exactly the record, with every field at its full width, for upserts
  and for deletions.
\<close>

theorem decodeRecord_encodeRecord:
  assumes "record_ok columns r"
  shows "\<exists>payload. encodeRecord r columns = Returns (Some payload) \<and>
    decodeRecord payload columns = Returns (Some r)"
  using encodeRecord_bytes [OF assms] decodeRecord_bytes [OF assms] by simp

definition demo_columns :: "ScalarColumn list" where
  "demo_columns = [\<lparr>col_name = ''item'', col_type = ScalarTypeString\<rparr>, \<lparr>col_name = ''at'', col_type = ScalarTypeInt64\<rparr>]"

definition demo_record :: "bytes \<Rightarrow> rowRecord" where
  "demo_record i = (emptyRecord recordUpsert i)\<lparr>rec_relativePath := ''p'', rec_splitPart := - 1,
     rec_cells := [\<lparr>cell_column = 0, cell_scalar = (null_scalar ScalarTypeString)\<lparr>scalar_null := False, scalar_string := ''x''\<rparr>\<rparr>,
                   \<lparr>cell_column = 1, cell_scalar = null_scalar ScalarTypeInt64\<rparr>]\<rparr>"

lemma demo_record_ok: "length i < 1000 \<Longrightarrow> record_ok demo_columns (demo_record i)"
  by (simp add: record_ok_def demo_record_def demo_columns_def emptyRecord_def cell_ok_def typed_scalar_def
      null_scalar_def record_constants)

theorem decodeRecord_encodeRecord_witness:
  "record_ok demo_columns (demo_record ''r'') \<and>
   (\<exists>payload. encodeRecord (demo_record ''r'') demo_columns = Returns (Some payload) \<and>
     decodeRecord payload demo_columns = Returns (Some (demo_record ''r'')))"
  using decodeRecord_encodeRecord [OF demo_record_ok [of "''r''"]] demo_record_ok [of "''r''"] by simp

lemma decodeBlob_encodeBlob:
  "int (length content) \<le> MaxInt64 \<Longrightarrow> int (length metadata) \<le> MaxInt64 \<Longrightarrow>
   decodeBlob (encodeBlob content metadata) = Returns (Some (content, metadata))"
  using stringValue_append [of metadata "[]"]
  by (simp add: decodeBlob_def encodeBlob_def appendString_def stringValue_append)

text \<open>
  C40. The decoder's bound on a string length is taken before the bytes of the length itself
  are consumed, so a length that exceeds the rest by no more than those bytes passes the check
  and the slice expression panics. Every encoded blob whose last byte was lost is of this kind:
  when its metadata is shorter than 64 bytes, \<open>decodeBlob\<close> panics instead of returning its error.
\<close>

theorem decodeBlob_panics_on_lost_byte:
  assumes "int (length content) \<le> MaxInt64" and "0 < length metadata" and "length metadata < 64"
  shows "decodeBlob (butlast (encodeBlob content metadata)) = Panic"
proof -
  let ?n = "length metadata"
  have app: "AppendVarint (int ?n) = [char_of (2 * ?n)]"
    using assms(3) by (simp add: AppendVarint_def zigzag_def AppendUvarint.simps nat_mult_distrib)
  have "butlast (encodeBlob content metadata) =
      AppendVarint (int (length content)) @ content @ AppendVarint (int ?n) @ butlast metadata"
    using assms(2) by (simp add: encodeBlob_def appendString_def butlast_append)
  moreover have "count (int ?n) (reading (AppendVarint (int ?n) @ butlast metadata)) =
      (int ?n, reading (butlast metadata))"
    using assms(3) by (intro count_AppendVarint) simp_all
  then have "stringValue (reading (AppendVarint (int ?n) @ butlast metadata)) = Panic"
    using assms(2) app by (simp add: stringValue_def)
  ultimately show ?thesis by (simp add: decodeBlob_def stringValue_append [OF assms(1)])
qed

theorem decodeBlob_panics_on_lost_byte_witness:
  "decodeBlob (butlast (encodeBlob ''hello'' ''{}'')) = Panic"
  by (rule decodeBlob_panics_on_lost_byte) simp_all

end
