(* ===== verification/Codestore_Collection.thy ===== *)
theory Codestore_Collection
  imports Codestore_Record "HOL-Library.AList"
begin

text \<open>
  The state in memory of a code collection (\<open>codestore/collection.go\<close>): the value
  dictionaries of its columns, its rows and codes, and the index by row ID, with the operation
  that applies a row record. The row log and the data file are the byte sequences
  \<open>rowsFile\<close> and \<open>dataFile\<close>. The value of \<open>collection.EmptyScalar()\<close>, which fills slot
  0 of every dictionary, is an argument.
\<close>

section \<open>State\<close>

record dictionary =
  dict_values :: "ScalarValue list"
  dict_ids :: "(ScalarValue \<times> nat) list"

definition newDictionary :: "ScalarValue \<Rightarrow> dictionary" where
  "newDictionary emptyScalar = \<lparr>dict_values = [emptyScalar], dict_ids = []\<rparr>"

text \<open>\<open>intern\<close> fails when the next number does not fit a \<open>uint32\<close>.\<close>

definition intern :: "ScalarValue \<Rightarrow> dictionary \<Rightarrow> nat option \<times> dictionary" where
  "intern v d =
     (case map_of (dict_ids d) v of
        Some i \<Rightarrow> (Some i, d)
      | None \<Rightarrow>
          (let next = length (dict_values d) in
           if next > MaxUint32 then (None, d)
           else (Some next, d\<lparr>dict_values := dict_values d @ [v], dict_ids := AList.update v next (dict_ids d)\<rparr>)))"

record row =
  row_id :: bytes
  row_relativePath :: bytes
  row_splitPart :: int
  row_splitRecorded :: bool
  row_dataOffset :: int
  row_dataLength :: int
  row_cells :: "nat list"

record codeCollection =
  Scalars :: "ScalarColumn list"
  Generation :: nat
  FrameFormat :: int
  columnIndex :: "(bytes \<times> nat) list"
  dictionaries :: "dictionary list"
  rows :: "row list"
  codes :: "64 word list list"
  byID :: "(bytes \<times> nat) list"
  rowsFile :: bytes
  dataFile :: bytes
  dataSize :: nat
  logSize :: nat
  dead :: nat

datatype store_error =
    InternFailed | EncodeFailed | FrameTooLong | LengthCorrupt | UnexpectedEnd | RecordCorrupt
  | RecordMalformed | DataFileTooShort | DataWriteFailed | DataSyncFailed | LogSeekFailed
  | LogAppendFailed | LogTruncateFailed | BlobUnreadable | BlobMalformed

fun set_columns ::
    "ScalarValue \<Rightarrow> nat \<Rightarrow> ScalarColumn list \<Rightarrow> (bytes \<times> nat) list \<Rightarrow> dictionary list \<Rightarrow>
     (bytes \<times> nat) list \<times> dictionary list" where
  "set_columns emptyScalar position [] index dicts = (index, dicts)"
| "set_columns emptyScalar position (column # columns) index dicts =
     set_columns emptyScalar (position + 1) columns (AList.update (col_name column) position index)
       (if position \<ge> length dicts then dicts @ [newDictionary emptyScalar] else dicts)"

definition setDeclaration :: "ScalarValue \<Rightarrow> ScalarColumn list \<Rightarrow> codeCollection \<Rightarrow> codeCollection" where
  "setDeclaration emptyScalar scalars st =
     (let (index, dicts) = set_columns emptyScalar 0 scalars [] (dictionaries st)
      in st\<lparr>Scalars := scalars, columnIndex := index, dictionaries := dicts\<rparr>)"

section \<open>Applying a record\<close>

definition remove :: "bytes \<Rightarrow> codeCollection \<Rightarrow> codeCollection outcome" where
  "remove i st =
     (case map_of (byID st) i of
        None \<Rightarrow> Returns st
      | Some position \<Rightarrow>
          if rows st = [] then Panic
          else let last = length (rows st) - 1 in
            if position \<noteq> last then
              (if position \<ge> length (rows st) \<or> position \<ge> length (codes st) \<or> last \<ge> length (codes st) then Panic
               else Returns (st\<lparr>rows := take last ((rows st)[position := rows st ! last]),
                                codes := take last ((codes st)[position := codes st ! last]),
                                byID := AList.delete i (AList.update (row_id (rows st ! last)) position (byID st))\<rparr>))
            else if last > length (codes st) then Panic
            else Returns (st\<lparr>rows := take last (rows st), codes := take last (codes st),
                             byID := AList.delete i (byID st)\<rparr>))"

fun intern_cells ::
    "storedCell list \<Rightarrow> nat list \<Rightarrow> dictionary list \<Rightarrow> (bool \<times> nat list \<times> dictionary list) outcome" where
  "intern_cells [] cells dicts = Returns (True, cells, dicts)"
| "intern_cells (c # cs) cells dicts =
     (if cell_column c \<ge> length dicts then Panic
      else let (i, d) = intern (cell_scalar c) (dicts ! cell_column c);
               dicts = dicts[cell_column c := d]
           in case i of
                None \<Rightarrow> Returns (False, cells, dicts)
              | Some i \<Rightarrow>
                  if cell_column c \<ge> length cells then Panic
                  else intern_cells cs (cells[cell_column c := i]) dicts)"

definition record_row :: "rowRecord \<Rightarrow> nat list \<Rightarrow> row" where
  "record_row r cells =
     \<lparr>row_id = rec_id r, row_relativePath = rec_relativePath r, row_splitPart = rec_splitPart r,
      row_splitRecorded = rec_splitRecorded r, row_dataOffset = rec_dataOffset r,
      row_dataLength = rec_dataLength r, row_cells = cells\<rparr>"

definition apply_upsert :: "rowRecord \<Rightarrow> nat list \<Rightarrow> codeCollection \<Rightarrow> codeCollection outcome" where
  "apply_upsert r cells st =
     (let new = record_row r cells in
      case map_of (byID st) (rec_id r) of
        Some position \<Rightarrow>
          if position \<ge> length (rows st) \<or> position \<ge> length (codes st) then Panic
          else Returns (st\<lparr>rows := (rows st)[position := new], codes := (codes st)[position := rec_code r],
                           dead := dead st + 1\<rparr>)
      | None \<Rightarrow>
          Returns (st\<lparr>byID := AList.update (rec_id r) (length (rows st)) (byID st),
                      rows := rows st @ [new], codes := codes st @ [rec_code r]\<rparr>))"

definition apply_record :: "rowRecord \<Rightarrow> codeCollection \<Rightarrow> (store_error option \<times> codeCollection) outcome" where
  "apply_record r st =
     (if rec_kind r = recordDelete
      then and_then (remove (rec_id r) st) (\<lambda>st. Returns (None, st\<lparr>dead := dead st + 1\<rparr>))
      else and_then (intern_cells (rec_cells r) (replicate (length (Scalars st)) 0) (dictionaries st))
        (\<lambda>(ok, cells, dicts).
          let st = st\<lparr>dictionaries := dicts\<rparr> in
          if \<not> ok then Returns (Some InternFailed, st)
          else and_then (apply_upsert r cells st) (\<lambda>st. Returns (None, st))))"

text \<open>\<open>recordOf\<close> reads a row back as the record that would write it.\<close>

definition stored_cells :: "dictionary list \<Rightarrow> nat list \<Rightarrow> storedCell list" where
  "stored_cells dicts cells =
     map (\<lambda>(column, i). \<lparr>cell_column = column, cell_scalar = dict_values (dicts ! column) ! i\<rparr>)
       (filter (\<lambda>(column, i). i \<noteq> 0) (enumerate 0 cells))"

definition row_record :: "dictionary list \<Rightarrow> row \<Rightarrow> 64 word list \<Rightarrow> rowRecord" where
  "row_record dicts current code =
     (emptyRecord recordUpsert (row_id current))
       \<lparr>rec_code := code, rec_relativePath := row_relativePath current,
        rec_splitPart := row_splitPart current, rec_splitRecorded := row_splitRecorded current,
        rec_dataOffset := row_dataOffset current, rec_dataLength := row_dataLength current,
        rec_cells := stored_cells dicts (row_cells current)\<rparr>"

definition recordOf :: "nat \<Rightarrow> codeCollection \<Rightarrow> rowRecord outcome" where
  "recordOf position st =
     (if position \<ge> length (rows st) \<or> position \<ge> length (codes st) \<or>
         list_ex (\<lambda>(column, i). i \<noteq> 0 \<and>
             (column \<ge> length (dictionaries st) \<or> i \<ge> length (dict_values (dictionaries st ! column))))
           (enumerate 0 (row_cells (rows st ! position)))
      then Panic
      else Returns (row_record (dictionaries st) (rows st ! position) (codes st ! position)))"

section \<open>Dictionaries\<close>

text \<open>A dictionary numbers each of its values once, all of them of the column's type.\<close>

definition dict_ok :: "(ScalarValue \<Rightarrow> bool) \<Rightarrow> dictionary \<Rightarrow> bool" where
  "dict_ok P d \<longleftrightarrow> dict_values d \<noteq> [] \<and> list_all P (tl (dict_values d)) \<and>
     (\<forall>v i. map_of (dict_ids d) v = Some i \<longleftrightarrow> 0 < i \<and> i < length (dict_values d) \<and> dict_values d ! i = v)"

lemma dict_ok_new [simp]: "dict_ok P (newDictionary e)"
  by (auto simp: dict_ok_def newDictionary_def)

lemma dict_okD:
  assumes "dict_ok P d"
  shows "0 < length (dict_values d)"
    "map_of (dict_ids d) v = Some i \<longleftrightarrow> 0 < i \<and> i < length (dict_values d) \<and> dict_values d ! i = v"
    "0 < i \<Longrightarrow> i < length (dict_values d) \<Longrightarrow> P (dict_values d ! i)"
proof -
  show "0 < length (dict_values d)"
    "map_of (dict_ids d) v = Some i \<longleftrightarrow> 0 < i \<and> i < length (dict_values d) \<and> dict_values d ! i = v"
    using assms by (simp_all add: dict_ok_def)
  show "P (dict_values d ! i)" if "0 < i" "i < length (dict_values d)"
  proof -
    have "dict_values d ! i = tl (dict_values d) ! (i - 1)" using that by (simp add: nth_tl)
    moreover have "i - 1 < length (tl (dict_values d))" using that by simp
    ultimately show ?thesis using assms by (simp add: dict_ok_def list_all_length)
  qed
qed

lemma intern_correct:
  assumes "dict_ok P d" "length (dict_values d) \<le> MaxUint32" "P v"
  obtains i d' where "intern v d = (Some i, d')" "dict_ok P d'" "0 < i" "i < length (dict_values d')"
    "dict_values d' ! i = v" "prefix (dict_values d) (dict_values d')"
    "length (dict_values d') \<le> length (dict_values d) + 1"
proof (cases "map_of (dict_ids d) v")
  case (Some i)
  with assms(1) have "0 < i" "i < length (dict_values d)" "dict_values d ! i = v"
    by (simp_all add: dict_okD(2))
  with Some assms(1) that [of i d] show ?thesis by (auto simp: intern_def)
next
  case None
  let ?n = "length (dict_values d)"
  define d' where "d' = d\<lparr>dict_values := dict_values d @ [v], dict_ids := AList.update v ?n (dict_ids d)\<rparr>"
  have n: "0 < ?n" using assms(1) by (rule dict_okD)
  have fresh: "\<not> (0 < i \<and> i < ?n \<and> dict_values d ! i = v)" for i
    using None dict_okD(2) [OF assms(1), of v i] by simp
  have "dict_ok P d'"
    unfolding dict_ok_def
  proof (intro conjI allI)
    fix w i
    show "map_of (dict_ids d') w = Some i \<longleftrightarrow>
        0 < i \<and> i < length (dict_values d') \<and> dict_values d' ! i = w"
    proof (cases "w = v")
      case True
      with n fresh [of i] show ?thesis
        by (cases "i < ?n") (auto simp: d'_def update_conv' nth_append less_Suc_eq)
    next
      case False
      with dict_okD(2) [OF assms(1), of w i] show ?thesis
        by (cases "i < ?n") (auto simp: d'_def update_conv' nth_append less_Suc_eq)
    qed
    show "list_all P (tl (dict_values d'))"
      using assms(1,3) n by (simp add: d'_def dict_ok_def)
  qed (simp add: d'_def)
  with None n assms(2) that [of ?n d'] show ?thesis
    by (simp add: intern_def d'_def Let_def)
qed

section \<open>Interning the cells of a record\<close>

definition dicts_ok :: "(nat \<Rightarrow> ScalarValue \<Rightarrow> bool) \<Rightarrow> dictionary list \<Rightarrow> bool" where
  "dicts_ok P dicts \<longleftrightarrow> (\<forall>c < length dicts. dict_ok (P c) (dicts ! c))"

definition room :: "nat \<Rightarrow> dictionary list \<Rightarrow> bool" where
  "room k dicts \<longleftrightarrow> (\<forall>c < length dicts. length (dict_values (dicts ! c)) + k \<le> Suc MaxUint32)"

definition grows :: "dictionary list \<Rightarrow> dictionary list \<Rightarrow> bool" where
  "grows ds ds' \<longleftrightarrow> length ds' = length ds \<and> (\<forall>c < length ds. prefix (dict_values (ds ! c)) (dict_values (ds' ! c)))"

fun last_cell :: "storedCell list \<Rightarrow> nat \<Rightarrow> ScalarValue option" where
  "last_cell [] c = None"
| "last_cell (x # xs) c =
     (case last_cell xs c of
        None \<Rightarrow> if cell_column x = c then Some (cell_scalar x) else None
      | Some v \<Rightarrow> Some v)"

definition holds_value :: "dictionary list \<Rightarrow> nat list \<Rightarrow> nat \<Rightarrow> ScalarValue option \<Rightarrow> bool" where
  "holds_value dicts cells c v \<longleftrightarrow>
     (case v of None \<Rightarrow> cells ! c = 0
      | Some v \<Rightarrow> 0 < cells ! c \<and> cells ! c < length (dict_values (dicts ! c)) \<and> dict_values (dicts ! c) ! (cells ! c) = v)"

lemma grows_refl [simp]: "grows ds ds"
  by (simp add: grows_def)

lemma grows_trans: "grows a b \<Longrightarrow> grows b c \<Longrightarrow> grows a c"
  unfolding grows_def by (metis prefix_order.trans)

lemma grows_value:
  assumes "grows ds ds'" "c < length ds" "i < length (dict_values (ds ! c))"
  shows "i < length (dict_values (ds' ! c))" "dict_values (ds' ! c) ! i = dict_values (ds ! c) ! i"
  using assms unfolding grows_def prefix_def by (metis nth_append length_append trans_less_add1)+

lemma intern_cells_correct:
  "dicts_ok P dicts \<Longrightarrow> room (length cs + k) dicts \<Longrightarrow> length cells = length dicts \<Longrightarrow>
   list_all (\<lambda>x. cell_column x < length dicts \<and> P (cell_column x) (cell_scalar x)) cs \<Longrightarrow>
   \<exists>cells' dicts'. intern_cells cs cells dicts = Returns (True, cells', dicts') \<and> dicts_ok P dicts' \<and>
     room k dicts' \<and> length cells' = length dicts \<and> grows dicts dicts' \<and>
     (\<forall>c < length dicts. if last_cell cs c = None then cells' ! c = cells ! c
        else holds_value dicts' cells' c (last_cell cs c))"
proof (induction cs arbitrary: cells dicts)
  case (Cons x cs)
  let ?c = "cell_column x" and ?v = "cell_scalar x"
  have c: "?c < length dicts" "P ?c ?v" using Cons.prems(4) by simp_all
  have "dict_ok (P ?c) (dicts ! ?c)" "length (dict_values (dicts ! ?c)) \<le> MaxUint32"
    using Cons.prems(1,2) c(1) by (auto simp: dicts_ok_def room_def)
  then obtain i d where i: "intern ?v (dicts ! ?c) = (Some i, d)" "dict_ok (P ?c) d" "0 < i"
    "i < length (dict_values d)" "dict_values d ! i = ?v" "prefix (dict_values (dicts ! ?c)) (dict_values d)"
    "length (dict_values d) \<le> length (dict_values (dicts ! ?c)) + 1"
    using intern_correct c(2) by metis
  define ds where "ds = dicts[?c := d]"
  have ds: "dicts_ok P ds" "room (length cs + k) ds" "length ds = length dicts" "grows dicts ds"
    using Cons.prems(1,2) i(2,6,7) c(1)
    by (auto simp: ds_def dicts_ok_def room_def grows_def nth_list_update)
  obtain cells' dicts' where r: "intern_cells cs (cells[?c := i]) ds = Returns (True, cells', dicts')"
    "dicts_ok P dicts'" "room k dicts'" "length cells' = length dicts" "grows ds dicts'"
    "\<And>c. c < length dicts \<Longrightarrow> if last_cell cs c = None then cells' ! c = (cells[?c := i]) ! c
        else holds_value dicts' cells' c (last_cell cs c)"
    using Cons.IH [OF ds(1,2), of "cells[?c := i]"] Cons.prems(3,4) ds(3) by auto
  have "intern_cells (x # cs) cells dicts = Returns (True, cells', dicts')"
    using r(1) i(1) c(1) Cons.prems(3) by (simp add: ds_def)
  moreover have "grows dicts dicts'" using ds(4) r(5) by (rule grows_trans)
  moreover have "if last_cell (x # cs) c = None then cells' ! c = cells ! c
      else holds_value dicts' cells' c (last_cell (x # cs) c)" if "c < length dicts" for c
  proof (cases "last_cell cs c = None \<and> c = ?c")
    case True
    then have lc: "last_cell cs ?c = None" "c = ?c" by auto
    then have "cells' ! ?c = i" using r(6) [OF c(1)] c(1) Cons.prems(3) by simp
    with grows_value [OF r(5), of ?c i] i(3,4,5) c(1) ds(3)
    have "holds_value dicts' cells' ?c (Some ?v)" by (simp add: holds_value_def ds_def)
    moreover have "last_cell (x # cs) ?c = Some ?v" using lc(1) by simp
    ultimately show ?thesis using lc(2) by simp
  next
    case False
    with r(6) [OF that] show ?thesis by (auto split: option.splits)
  qed
  ultimately show ?case using r(2-4) by blast
qed simp

section \<open>The invariant and the rows by ID\<close>

definition index_ok :: "codeCollection \<Rightarrow> bool" where
  "index_ok st \<longleftrightarrow> length (codes st) = length (rows st) \<and>
     (\<forall>i p. map_of (byID st) i = Some p \<longleftrightarrow> p < length (rows st) \<and> row_id (rows st ! p) = i)"

definition column_value :: "ScalarColumn list \<Rightarrow> nat \<Rightarrow> ScalarValue \<Rightarrow> bool" where
  "column_value columns c v \<longleftrightarrow> typed_scalar (col_type (columns ! c)) v"

definition row_ok :: "dictionary list \<Rightarrow> row \<Rightarrow> bool" where
  "row_ok dicts current \<longleftrightarrow> length (row_cells current) = length dicts \<and>
     (\<forall>c < length dicts. row_cells current ! c < length (dict_values (dicts ! c)))"

definition cells_ok :: "codeCollection \<Rightarrow> bool" where
  "cells_ok st \<longleftrightarrow> length (dictionaries st) = length (Scalars st) \<and>
     dicts_ok (column_value (Scalars st)) (dictionaries st) \<and> list_all (row_ok (dictionaries st)) (rows st)"

definition rows_ok :: "codeCollection \<Rightarrow> bool" where
  "rows_ok st \<longleftrightarrow> (\<forall>p < length (rows st).
     record_ok (Scalars st) (row_record (dictionaries st) (rows st ! p) (codes st ! p)))"

text \<open>The invariant, with room for \<open>k\<close> more distinct values in every dictionary.\<close>

definition collection_inv :: "nat \<Rightarrow> codeCollection \<Rightarrow> bool" where
  "collection_inv k st \<longleftrightarrow> index_ok st \<and> cells_ok st \<and> rows_ok st \<and> room k (dictionaries st)"

text \<open>What the collection holds: for each row ID the record \<open>recordOf\<close> gives.\<close>

definition view :: "codeCollection \<Rightarrow> bytes \<Rightarrow> rowRecord option" where
  "view st i = map_option (\<lambda>p. row_record (dictionaries st) (rows st ! p) (codes st ! p)) (map_of (byID st) i)"

definition canon_cells :: "nat \<Rightarrow> storedCell list \<Rightarrow> storedCell list" where
  "canon_cells n cs = map (\<lambda>c. \<lparr>cell_column = c, cell_scalar = the (last_cell cs c)\<rparr>)
     (filter (\<lambda>c. last_cell cs c \<noteq> None) [0..<n])"

text \<open>The effect of a record on what the collection holds.\<close>

definition record_effect :: "nat \<Rightarrow> rowRecord \<Rightarrow> (bytes \<Rightarrow> rowRecord option) \<Rightarrow> bytes \<Rightarrow> rowRecord option" where
  "record_effect n r m =
     (if rec_kind r = recordDelete then m(rec_id r := None)
      else m(rec_id r \<mapsto> r\<lparr>rec_cells := canon_cells n (rec_cells r)\<rparr>))"

lemma stored_cells_canon:
  assumes "length cells = n" "\<And>c. c < n \<Longrightarrow> holds_value dicts cells c (last_cell cs c)"
  shows "stored_cells dicts cells = canon_cells n cs"
proof -
  have e: "enumerate 0 cells = map (\<lambda>c. (c, cells ! c)) [0..<n]"
    using assms(1) by (simp add: enumerate_eq_zip zip_map1 list_eq_iff_nth_eq)
  have z: "cells ! c \<noteq> 0 \<longleftrightarrow> last_cell cs c \<noteq> None" if "c < n" for c
    using assms(2) [OF that] by (auto simp: holds_value_def split: option.splits)
  have "filter (\<lambda>c. cells ! c \<noteq> 0) [0..<n] = filter (\<lambda>c. last_cell cs c \<noteq> None) [0..<n]"
    by (rule filter_cong) (use z in auto)
  moreover have "dict_values (dicts ! c) ! (cells ! c) = the (last_cell cs c)"
    if "c < n" "last_cell cs c \<noteq> None" for c
    using assms(2) [OF that(1)] that(2) by (auto simp: holds_value_def)
  ultimately show ?thesis
    unfolding stored_cells_def canon_cells_def e by (simp add: filter_map comp_def)
qed

lemma stored_cells_grows:
  assumes "grows ds ds'" "row_ok ds current"
  shows "stored_cells ds' (row_cells current) = stored_cells ds (row_cells current)"
  unfolding stored_cells_def
proof (rule map_cong [OF refl])
  fix x assume "x \<in> set (filter (\<lambda>(column, i). i \<noteq> 0) (enumerate 0 (row_cells current)))"
  then obtain c where "c < length ds" "x = (c, row_cells current ! c)"
    using assms(2) by (auto simp: row_ok_def in_set_enumerate_eq)
  with grows_value(2) [OF assms(1), of c "row_cells current ! c"] assms(2)
  show "(case x of (column, i) \<Rightarrow> \<lparr>cell_column = column, cell_scalar = dict_values (ds' ! column) ! i\<rparr>) =
      (case x of (column, i) \<Rightarrow> \<lparr>cell_column = column, cell_scalar = dict_values (ds ! column) ! i\<rparr>)"
    by (simp add: row_ok_def)
qed

lemma row_record_grows:
  "grows ds ds' \<Longrightarrow> row_ok ds current \<Longrightarrow> row_record ds' current code = row_record ds current code"
  by (simp add: row_record_def stored_cells_grows)

lemma row_ok_grows:
  assumes "grows ds ds'" "row_ok ds current"
  shows "row_ok ds' current"
proof -
  have len: "length ds' = length ds" using assms(1) by (simp add: grows_def)
  show ?thesis
    using assms(2) grows_value(1) [OF assms(1)] unfolding row_ok_def len by auto
qed

section \<open>Applying a record implements its effect\<close>

lemma index_okD:
  assumes "index_ok st"
  shows "length (codes st) = length (rows st)"
    "map_of (byID st) i = Some p \<longleftrightarrow> p < length (rows st) \<and> row_id (rows st ! p) = i"
    "p < length (rows st) \<Longrightarrow> map_of (byID st) (row_id (rows st ! p)) = Some p"
  using assms by (simp_all add: index_ok_def)

text \<open>The state of the files and the declaration, which applying a record does not touch.\<close>

definition same_disk :: "codeCollection \<Rightarrow> codeCollection \<Rightarrow> bool" where
  "same_disk st st' \<longleftrightarrow> Scalars st' = Scalars st \<and> Generation st' = Generation st \<and>
     FrameFormat st' = FrameFormat st \<and> columnIndex st' = columnIndex st \<and> rowsFile st' = rowsFile st \<and>
     dataFile st' = dataFile st \<and> dataSize st' = dataSize st \<and> logSize st' = logSize st"

lemma same_disk_refl [simp]: "same_disk st st"
  by (simp add: same_disk_def)

lemma same_disk_trans: "same_disk a b \<Longrightarrow> same_disk b c \<Longrightarrow> same_disk a c"
  by (simp add: same_disk_def)

lemma remove_found:
  assumes "index_ok st" "map_of (byID st) i = Some p"
  defines "lst \<equiv> length (rows st) - 1"
  obtains st' where "remove i st = Returns st'" "same_disk st st'" "dictionaries st' = dictionaries st"
    "rows st' = take lst ((rows st)[p := rows st ! lst])" "codes st' = take lst ((codes st)[p := codes st ! lst])"
    "map_of (byID st') = (map_of (byID st))(row_id (rows st ! lst) \<mapsto> p, i := None)"
proof -
  have p: "p < length (rows st)" "row_id (rows st ! p) = i" "length (codes st) = length (rows st)"
    using index_okD [OF assms(1)] assms(2) by auto
  then have ne: "rows st \<noteq> []" by auto
  show ?thesis
  proof (cases "p = lst")
    case True
    with p ne assms(2) show ?thesis
      by (intro that [of "st\<lparr>rows := take lst (rows st), codes := take lst (codes st),
            byID := AList.delete i (byID st)\<rparr>"])
         (simp_all add: remove_def Let_def lst_def delete_conv' same_disk_def)
  next
    case False
    with p ne assms(2) show ?thesis
      by (intro that [of "st\<lparr>rows := take lst ((rows st)[p := rows st ! lst]),
            codes := take lst ((codes st)[p := codes st ! lst]),
            byID := AList.delete i (AList.update (row_id (rows st ! lst)) p (byID st))\<rparr>"])
         (simp_all add: remove_def Let_def lst_def delete_conv' update_conv' same_disk_def)
  qed
qed

lemma remove_correct:
  assumes inv: "collection_inv k st"
  obtains st' where "remove i st = Returns st'" "collection_inv k st'" "same_disk st st'"
    "view st' = (view st)(i := None)"
proof (cases "map_of (byID st) i")
  case None
  then have "view st = (view st)(i := None)" by (auto simp: view_def)
  with None inv that [of st] show ?thesis by (simp add: remove_def)
next
  case (Some p)
  have ix: "index_ok st" using inv by (simp add: collection_inv_def)
  define lst where "lst = length (rows st) - 1"
  obtain st' where st': "remove i st = Returns st'" "same_disk st st'" "dictionaries st' = dictionaries st"
    "rows st' = take lst ((rows st)[p := rows st ! lst])" "codes st' = take lst ((codes st)[p := codes st ! lst])"
    "map_of (byID st') = (map_of (byID st))(row_id (rows st ! lst) \<mapsto> p, i := None)"
    using remove_found [OF ix Some] unfolding lst_def by metis
  note ixD = index_okD [OF ix]
  have p: "p < length (rows st)" "row_id (rows st ! p) = i" using ixD(2) Some by auto
  then have lst: "lst < length (rows st)" "length (rows st) = Suc lst" by (auto simp: lst_def)
  have len: "length (rows st') = lst" "length (codes st') = lst" using st'(4,5) lst ixD(1) by simp_all
  have at: "rows st' ! q = rows st ! (if q = p then lst else q)" "codes st' ! q = codes st ! (if q = p then lst else q)"
    if "q < lst" for q using that st'(4,5) lst ixD(1) p by (simp_all add: nth_list_update)
  have top: "map_of (byID st) (row_id (rows st ! lst)) = Some lst" using ixD(3) lst(1) .
  have byID': "map_of (byID st') j = Some q \<longleftrightarrow> q < lst \<and> map_of (byID st) j = Some (if q = p then lst else q)" for j q
  proof (cases "j = i")
    case True
    then show ?thesis using Some by (auto simp: st'(6))
  next
    case False
    show ?thesis
    proof (cases "j = row_id (rows st ! lst)")
      case True
      with False p(2) have "p \<noteq> lst" by auto
      with p(1) lst have "p < lst" by simp
      with True False top show ?thesis by (auto simp: st'(6))
    next
      case other: False
      have "q < lst \<and> q \<noteq> p" if "map_of (byID st) j = Some q" for q
      proof -
        have "q < length (rows st)" "row_id (rows st ! q) = j" using that ixD(2) by simp_all
        with other False p(2) have "q \<noteq> lst" "q \<noteq> p" by auto
        with \<open>q < length (rows st)\<close> lst(2) show ?thesis by simp
      qed
      with other False show ?thesis by (auto simp: st'(6))
    qed
  qed
  have "index_ok st'"
    unfolding index_ok_def
  proof (intro conjI allI)
    fix j q
    show "map_of (byID st') j = Some q \<longleftrightarrow> q < length (rows st') \<and> row_id (rows st' ! q) = j"
    proof (cases "q < lst")
      case True
      have "(if q = p then lst else q) < length (rows st)" using True lst by simp
      with True ixD(2) [of j "if q = p then lst else q"] show ?thesis
        unfolding byID' len at(1) [OF True] by simp
    qed (simp add: byID' len)
  qed (simp add: len)
  moreover have "cells_ok st'"
    using inv st'(2,3) lst by (auto simp: collection_inv_def cells_ok_def same_disk_def list_all_length at(1) len)
  moreover have "rows_ok st'"
    using inv st'(2,3) lst at len by (auto simp: collection_inv_def rows_ok_def same_disk_def)
  moreover have "view st' = (view st)(i := None)"
  proof
    fix j
    show "view st' j = ((view st)(i := None)) j"
    proof (cases "map_of (byID st') j")
      case None
      have "map_of (byID st) j = None" if "j \<noteq> i"
        using None that by (auto simp: st'(6) split: if_splits)
      with None show ?thesis by (simp add: view_def)
    next
      case q: (Some q)
      then have "j \<noteq> i" by (auto simp: st'(6))
      with q byID' [of j q] show ?thesis by (simp add: view_def at st'(3))
    qed
  qed
  ultimately show ?thesis
    using that [of st'] st'(1,2,3) inv by (auto simp: collection_inv_def)
qed

lemma last_cell_in: "last_cell cs c = Some v \<Longrightarrow> \<exists>x \<in> set cs. cell_column x = c \<and> cell_scalar x = v"
  by (induction cs) (auto split: option.splits if_splits)

lemma canon_record_ok:
  assumes "record_ok columns r" "rec_kind r \<noteq> recordDelete"
  shows "record_ok columns (r\<lparr>rec_cells := canon_cells (length columns) (rec_cells r)\<rparr>)"
proof -
  have "length (canon_cells (length columns) (rec_cells r)) \<le> length columns"
    using length_filter_le [of _ "[0..<length columns]"] by (simp add: canon_cells_def)
  moreover have "list_all (cell_ok columns) (canon_cells (length columns) (rec_cells r))"
    using assms last_cell_in [of "rec_cells r"]
    by (fastforce simp: record_ok_def canon_cells_def list_all_iff cell_ok_def)
  ultimately show ?thesis using assms by (simp add: record_ok_def)
qed

lemma apply_upsert_correct:
  assumes ix: "index_ok st" and cells: "length cells = length (dictionaries st)"
    and ok: "list_all (row_ok (dictionaries st)) (rows st)" "row_ok (dictionaries st) (record_row r cells)"
    and recs: "rows_ok st" "record_ok (Scalars st) (row_record (dictionaries st) (record_row r cells) (rec_code r))"
  obtains st' where "apply_upsert r cells st = Returns st'" "index_ok st'" "same_disk st st'"
    "dictionaries st' = dictionaries st" "list_all (row_ok (dictionaries st)) (rows st')" "rows_ok st'"
    "view st' = (view st)(rec_id r \<mapsto> row_record (dictionaries st) (record_row r cells) (rec_code r))"
proof -
  note ixD = index_okD [OF ix]
  have id: "row_id (record_row r cells) = rec_id r" by (simp add: record_row_def)
  show ?thesis
  proof (cases "map_of (byID st) (rec_id r)")
    case (Some p)
    then have p: "p < length (rows st)" "row_id (rows st ! p) = rec_id r" using ixD(2) by auto
    define st' where "st' = st\<lparr>rows := (rows st)[p := record_row r cells], codes := (codes st)[p := rec_code r], dead := dead st + 1\<rparr>"
    have "apply_upsert r cells st = Returns st'"
      using Some p ixD(1) by (simp add: apply_upsert_def Let_def st'_def)
    moreover have "index_ok st'"
      using ix p id by (auto simp: index_ok_def st'_def nth_list_update)
    moreover have "list_all (row_ok (dictionaries st)) (rows st')" "rows_ok st'"
      using ok recs p ixD(1) by (auto simp: st'_def list_all_length nth_list_update rows_ok_def)
    moreover have "view st' = (view st)(rec_id r \<mapsto> row_record (dictionaries st) (record_row r cells) (rec_code r))"
    proof
      fix i
      show "view st' i = ((view st)(rec_id r \<mapsto> row_record (dictionaries st) (record_row r cells) (rec_code r))) i"
    proof (cases "i = rec_id r")
      case True
      with Some p ixD(1) show ?thesis by (simp add: view_def st'_def)
    next
      case False
      have "q \<noteq> p" if "map_of (byID st) i = Some q" for q
        using that False p ixD(2) [of i q] by auto
      with False show ?thesis by (auto simp: view_def st'_def map_option_case split: option.splits)
    qed
    qed
    ultimately show ?thesis using that [of st'] by (simp add: st'_def same_disk_def)
  next
    case None
    define st' where "st' = st\<lparr>byID := AList.update (rec_id r) (length (rows st)) (byID st),
      rows := rows st @ [record_row r cells], codes := codes st @ [rec_code r]\<rparr>"
    have fresh: "row_id (rows st ! q) \<noteq> rec_id r" if "q < length (rows st)" for q
      using None ixD(3) [OF that] by auto
    have "apply_upsert r cells st = Returns st'"
      using None by (simp add: apply_upsert_def Let_def st'_def)
    moreover have "index_ok st'"
      unfolding index_ok_def
    proof (intro conjI allI)
      fix j q
      show "map_of (byID st') j = Some q \<longleftrightarrow> q < length (rows st') \<and> row_id (rows st' ! q) = j"
        using fresh [of q] ixD(2) [of j q] id
        by (cases "q < length (rows st)") (auto simp: st'_def update_conv' nth_append less_Suc_eq)
    qed (simp add: st'_def ixD(1))
    moreover have "list_all (row_ok (dictionaries st)) (rows st')" "rows_ok st'"
      using ok recs ixD(1) by (auto simp: st'_def nth_append rows_ok_def less_Suc_eq)
    moreover have "view st' = (view st)(rec_id r \<mapsto> row_record (dictionaries st) (record_row r cells) (rec_code r))"
    proof
      fix i
      show "view st' i = ((view st)(rec_id r \<mapsto> row_record (dictionaries st) (record_row r cells) (rec_code r))) i"
    proof (cases "i = rec_id r")
      case True
      with ixD(1) show ?thesis by (simp add: view_def st'_def update_conv' nth_append)
    next
      case False
      have "q < length (rows st)" if "map_of (byID st) i = Some q" for q using that ixD(2) by auto
      with False ixD(1) show ?thesis
        by (auto simp: view_def st'_def update_conv' nth_append map_option_case split: option.splits)
    qed
    qed
    ultimately show ?thesis using that [of st'] by (simp add: st'_def same_disk_def)
  qed
qed

lemma apply_record_correct:
  assumes inv: "collection_inv (length (rec_cells r) + k) st" and ok: "record_ok (Scalars st) r"
  obtains st' where "apply_record r st = Returns (None, st')" "collection_inv k st'" "same_disk st st'"
    "view st' = record_effect (length (Scalars st)) r (view st)"
proof (cases "rec_kind r = recordDelete")
  case True
  have "collection_inv k st" using inv by (auto simp: collection_inv_def room_def)
  then obtain st' where "remove (rec_id r) st = Returns st'" "collection_inv k st'" "same_disk st st'"
    "view st' = (view st)(rec_id r := None)" by (rule remove_correct)
  with True that [of "st'\<lparr>dead := dead st' + 1\<rparr>"] show ?thesis
    by (simp add: apply_record_def record_effect_def collection_inv_def index_ok_def cells_ok_def rows_ok_def
        same_disk_def view_def fun_eq_iff)
next
  case False
  let ?n = "length (Scalars st)" and ?ds = "dictionaries st"
  have n: "length ?ds = ?n" using inv by (simp add: collection_inv_def cells_ok_def)
  have cs: "list_all (\<lambda>x. cell_column x < length ?ds \<and> column_value (Scalars st) (cell_column x) (cell_scalar x)) (rec_cells r)"
    using ok False n by (auto simp: record_ok_def list_all_iff cell_ok_def column_value_def)
  have dk: "dicts_ok (column_value (Scalars st)) ?ds" and rm: "room (length (rec_cells r) + k) ?ds"
    using inv by (simp_all add: collection_inv_def cells_ok_def)
  from intern_cells_correct [OF dk rm, of "replicate ?n 0"] cs n obtain cells ds where
    ds: "intern_cells (rec_cells r) (replicate ?n 0) ?ds = Returns (True, cells, ds)"
      "dicts_ok (column_value (Scalars st)) ds" "room k ds" "length cells = ?n" "grows ?ds ds"
    and hold: "\<And>c. c < ?n \<Longrightarrow> if last_cell (rec_cells r) c = None then cells ! c = 0
        else holds_value ds cells c (last_cell (rec_cells r) c)"
    by auto
  have len: "length ds = ?n" using ds(5) n by (simp add: grows_def)
  have hold': "holds_value ds cells c (last_cell (rec_cells r) c)" if "c < ?n" for c
    using hold [OF that] by (auto simp: holds_value_def split: if_splits)
  have canon: "row_record ds (record_row r cells) (rec_code r) = r\<lparr>rec_cells := canon_cells ?n (rec_cells r)\<rparr>"
    using stored_cells_canon [OF ds(4) hold'] ok False
    by (simp add: row_record_def record_row_def emptyRecord_def record_ok_def)
  have new_row: "row_ok ds (record_row r cells)"
    using hold' dict_okD(1) ds(2,4) len
    by (fastforce simp: row_ok_def record_row_def holds_value_def dicts_ok_def split: option.splits)
  let ?st = "st\<lparr>dictionaries := ds\<rparr>"
  have old: "row_record ds (rows st ! p) (codes st ! p) = row_record ?ds (rows st ! p) (codes st ! p)"
    if "p < length (rows st)" for p
    using inv that by (intro row_record_grows [OF ds(5)]) (simp add: collection_inv_def cells_ok_def list_all_length)
  have 1: "index_ok ?st" using inv by (simp add: collection_inv_def index_ok_def)
  have 2: "list_all (row_ok ds) (rows st)"
    using inv row_ok_grows [OF ds(5)] by (auto simp: collection_inv_def cells_ok_def list_all_iff)
  have 3: "rows_ok ?st" using inv old by (simp add: collection_inv_def rows_ok_def)
  have 4: "record_ok (Scalars st) (row_record ds (record_row r cells) (rec_code r))"
    unfolding canon using ok False by (rule canon_record_ok)
  have view: "view ?st = view st"
  proof
    fix i
    show "view ?st i = view st i"
    proof (cases "map_of (byID st) i")
      case (Some q)
      with index_okD(2) [OF 1, of i q] have "q < length (rows st)" by simp
      with Some old show ?thesis by (simp add: view_def)
    qed (simp add: view_def)
  qed
  obtain st' where st': "apply_upsert r cells ?st = Returns st'" "index_ok st'" "same_disk ?st st'"
    "dictionaries st' = ds" "list_all (row_ok ds) (rows st')" "rows_ok st'"
    "view st' = (view ?st)(rec_id r \<mapsto> row_record ds (record_row r cells) (rec_code r))"
    using apply_upsert_correct [OF 1, of cells r] ds(4) len new_row 2 3 4 by auto
  show ?thesis
  proof (rule that [of st'])
    show "apply_record r st = Returns (None, st')"
      using False ds(1) st'(1) by (simp add: apply_record_def)
    show "same_disk st st'" using st'(3) by (simp add: same_disk_def)
    then show "collection_inv k st'"
      using st' ds(2,3) len by (simp add: collection_inv_def cells_ok_def same_disk_def)
    show "view st' = record_effect ?n r (view st)"
      using False by (simp add: st'(7) view canon record_effect_def)
  qed
qed

section \<open>Applying a sequence of records\<close>

text \<open>The loop over the records of a write; the first error ends it.\<close>

fun apply_each ::
    "('r \<Rightarrow> 's \<Rightarrow> (store_error option \<times> 's) outcome) \<Rightarrow> 'r list \<Rightarrow> 's \<Rightarrow> (store_error option \<times> 's) outcome" where
  "apply_each f [] st = Returns (None, st)"
| "apply_each f (r # rs) st =
     and_then (f r st) (\<lambda>(e, st). case e of Some e \<Rightarrow> Returns (Some e, st) | None \<Rightarrow> apply_each f rs st)"

text \<open>
  The contract between the log and the state it is applied to: a step on an acceptable record
  succeeds, has the record's effect on what the state holds, and uses up no more than the
  record's share of the room that the invariant grants.
\<close>

locale log_machine =
  fixes step :: "'r \<Rightarrow> 's \<Rightarrow> (store_error option \<times> 's) outcome"
    and inv :: "nat \<Rightarrow> 's \<Rightarrow> bool" and accepts :: "'s \<Rightarrow> 'r \<Rightarrow> bool" and cost :: "'r \<Rightarrow> nat"
    and holds :: "'s \<Rightarrow> 'm" and effect :: "'s \<Rightarrow> 'r \<Rightarrow> 'm \<Rightarrow> 'm" and same :: "'s \<Rightarrow> 's \<Rightarrow> bool"
  assumes step: "inv (cost r + k) s \<Longrightarrow> accepts s r \<Longrightarrow>
      \<exists>s'. step r s = Returns (None, s') \<and> inv k s' \<and> same s s' \<and> holds s' = effect s r (holds s)"
    and same_accepts: "same s s' \<Longrightarrow> accepts s' = accepts s"
    and same_effect: "same s s' \<Longrightarrow> effect s' = effect s"
    and same_refl: "same s s"
    and same_trans: "same a b \<Longrightarrow> same b c \<Longrightarrow> same a c"
begin

lemma run:
  "inv (sum_list (map cost rs) + k) s \<Longrightarrow> list_all (accepts s) rs \<Longrightarrow>
   \<exists>s'. apply_each step rs s = Returns (None, s') \<and> inv k s' \<and> same s s' \<and> holds s' = fold (effect s) rs (holds s)"
proof (induction rs arbitrary: s)
  case Nil
  then show ?case using same_refl by simp
next
  case (Cons r rs)
  obtain s1 where s1: "step r s = Returns (None, s1)" "inv (sum_list (map cost rs) + k) s1" "same s s1"
    "holds s1 = effect s r (holds s)"
    using step [of r "sum_list (map cost rs) + k" s] Cons.prems by (auto simp: add.assoc)
  obtain s' where "apply_each step rs s1 = Returns (None, s')" "inv k s'" "same s1 s'"
    "holds s' = fold (effect s1) rs (holds s1)"
    using Cons.IH [OF s1(2)] Cons.prems(2) same_accepts [OF s1(3)] by auto
  with s1 same_trans same_effect [OF s1(3)] show ?case by auto
qed

end

interpretation records: log_machine apply_record collection_inv "\<lambda>st. record_ok (Scalars st)"
  "\<lambda>r. length (rec_cells r)" view "\<lambda>st. record_effect (length (Scalars st))" same_disk
proof
  show "\<exists>st'. apply_record r st = Returns (None, st') \<and> collection_inv k st' \<and> same_disk st st' \<and>
      view st' = record_effect (length (Scalars st)) r (view st)"
    if "collection_inv (length (rec_cells r) + k) st" "record_ok (Scalars st) r" for r k st
    using apply_record_correct [OF that] by metis
  show "record_ok (Scalars st') = record_ok (Scalars st)"
    "record_effect (length (Scalars st')) = record_effect (length (Scalars st))"
    if "same_disk st st'" for st st'
    using that by (simp_all add: same_disk_def)
qed (simp_all add: same_disk_trans)

abbreviation cells_total :: "rowRecord list \<Rightarrow> nat" where
  "cells_total rs \<equiv> sum_list (map (\<lambda>r. length (rec_cells r)) rs)"

text \<open>
  C19. The collection in memory is a map from row IDs to records. Whatever sequence of upserts
  and deletions is applied, every step succeeds, the index, the dense row and code arrays and
  the value dictionaries stay consistent, and the collection then holds for each row ID the
  last record written for it, unless a later record deleted it; deleting moves the last row
  into the gap without disturbing any other row.
\<close>

theorem apply_records_last_writer_wins:
  assumes "collection_inv (cells_total rs + k) st" and "list_all (record_ok (Scalars st)) rs"
  shows "\<exists>st'. apply_each apply_record rs st = Returns (None, st') \<and> collection_inv k st' \<and>
    view st' = fold (record_effect (length (Scalars st))) rs (view st)"
  using records.run [OF assms] by blast

section \<open>An empty collection\<close>

lemma set_columns_dicts:
  "position = length dicts \<Longrightarrow>
   snd (set_columns e position columns index dicts) = dicts @ replicate (length columns) (newDictionary e)"
proof (induction columns arbitrary: position index dicts)
  case (Cons a columns)
  then show ?case
    using Cons.IH [of "Suc position" "dicts @ [newDictionary e]"] by simp
qed simp

definition emptyCollection :: "ScalarValue \<Rightarrow> ScalarColumn list \<Rightarrow> nat \<Rightarrow> int \<Rightarrow> bytes \<Rightarrow> bytes \<Rightarrow> codeCollection" where
  "emptyCollection emptyScalar scalars generation format rowBytes dataBytes =
     setDeclaration emptyScalar scalars
       \<lparr>Scalars = [], Generation = generation, FrameFormat = format, columnIndex = [], dictionaries = [],
        rows = [], codes = [], byID = [], rowsFile = rowBytes, dataFile = dataBytes,
        dataSize = length dataBytes, logSize = 0, dead = 0\<rparr>"

lemma emptyCollection_fields [simp]:
  "Scalars (emptyCollection e cols g f rb db) = cols" "FrameFormat (emptyCollection e cols g f rb db) = f"
  "rowsFile (emptyCollection e cols g f rb db) = rb" "dataFile (emptyCollection e cols g f rb db) = db"
  "dataSize (emptyCollection e cols g f rb db) = length db" "logSize (emptyCollection e cols g f rb db) = 0"
  "rows (emptyCollection e cols g f rb db) = []" "codes (emptyCollection e cols g f rb db) = []"
  "byID (emptyCollection e cols g f rb db) = []" "Generation (emptyCollection e cols g f rb db) = g"
  by (simp_all add: emptyCollection_def setDeclaration_def split_beta)

lemma emptyCollection_dictionaries [simp]:
  "dictionaries (emptyCollection e cols g f rb db) = replicate (length cols) (newDictionary e)"
  using set_columns_dicts [of 0 "[]" e cols "[]"] by (simp add: emptyCollection_def setDeclaration_def split_beta)

lemma emptyCollection_view [simp]: "view (emptyCollection e cols g f rb db) = Map.empty"
  by (simp add: view_def fun_eq_iff)

lemma emptyCollection_inv: "k \<le> MaxUint32 \<Longrightarrow> collection_inv k (emptyCollection e cols g f rb db)"
  by (simp add: collection_inv_def index_ok_def cells_ok_def rows_ok_def room_def dicts_ok_def)
     (simp add: newDictionary_def)

lemma deletion_ok:
  "int (length i) \<le> MaxInt64 \<Longrightarrow> int (length columns) \<le> MaxInt64 \<Longrightarrow>
   record_ok columns (emptyRecord recordDelete i)"
  by (simp add: record_ok_def emptyRecord_def)

theorem apply_records_last_writer_wins_witness:
  "let st = emptyCollection (null_scalar ScalarTypeString) demo_columns 0 1 [] [];
       rs = [demo_record ''a'', demo_record ''b'', emptyRecord recordDelete ''a'']
   in collection_inv (cells_total rs + 0) st \<and> list_all (record_ok (Scalars st)) rs \<and>
      (\<exists>st'. apply_each apply_record rs st = Returns (None, st') \<and> collection_inv 0 st' \<and>
        view st' = fold (record_effect (length (Scalars st))) rs (view st))"
proof -
  let ?st = "emptyCollection (null_scalar ScalarTypeString) demo_columns 0 1 [] []"
  let ?rs = "[demo_record ''a'', demo_record ''b'', emptyRecord recordDelete ''a'']"
  have "collection_inv (cells_total ?rs + 0) ?st"
    by (rule emptyCollection_inv) (simp add: demo_record_def emptyRecord_def)
  moreover have "list_all (record_ok (Scalars ?st)) ?rs"
    using demo_record_ok [of "''a''"] demo_record_ok [of "''b''"] deletion_ok [of "''a''" demo_columns]
    by (simp add: demo_columns_def)
  ultimately show ?thesis using apply_records_last_writer_wins [of ?rs 0 ?st] by (simp add: Let_def)
qed

end
