(* ===== verification/Codestore_Log.thy ===== *)
theory Codestore_Log
  imports Codestore_Collection
begin

text \<open>
  Loading a collection from its row log (\<open>codestore/collection.go\<close>): the frame headers, the
  replay loop, and the recovery from a torn or damaged tail. Reads, seeks and truncations
  succeed here; the buffered reads are reads of the file. The size of the log is the length of
  \<open>rowsFile\<close>.
\<close>

section \<open>Frames\<close>

definition bufferBytes :: nat where "bufferBytes = 1048576"

definition slice_bytes :: "bytes \<Rightarrow> nat \<Rightarrow> nat \<Rightarrow> bytes" where
  "slice_bytes file a b = take (b - a) (drop a file)"

definition parseFrameHeader :: "int \<Rightarrow> bytes \<Rightarrow> nat \<times> nat \<times> bool" where
  "parseFrameHeader format header =
     (let lengthBytes = take frameFieldBytes header;
          payloadChecksum = le_value (drop (length header - frameFieldBytes) header)
      in (le_value lengthBytes, payloadChecksum,
          if format \<noteq> frameFormatLengthCRC then True
          else ChecksumIEEE lengthBytes = le_value (slice_bytes header frameFieldBytes (2 * frameFieldBytes))))"

definition searchStart :: "int \<Rightarrow> nat \<Rightarrow> nat \<Rightarrow> nat" where
  "searchStart format offset stop = (if format = frameFormatLengthCRC then stop else offset + 1)"

section \<open>The tail after a damaged record\<close>

fun scan_back :: "bytes \<Rightarrow> nat \<Rightarrow> nat option" where
  "scan_back chunk 0 = None"
| "scan_back chunk (Suc position) =
     (if chunk ! position \<noteq> CHR 0x00 then Some (position + 1) else scan_back chunk position)"

text \<open>The chunk is empty only when there is nothing to scan.\<close>

function content_end_loop :: "bytes \<Rightarrow> nat \<Rightarrow> nat \<Rightarrow> nat \<Rightarrow> nat" where
  "content_end_loop file offset chunkLen chunkEnd =
     (if chunkEnd \<le> offset \<or> chunkLen = 0 then offset
      else let chunkStart = max offset (chunkEnd - chunkLen) in
        case scan_back (slice_bytes file chunkStart chunkEnd) (chunkEnd - chunkStart) of
          Some n \<Rightarrow> chunkStart + n
        | None \<Rightarrow> content_end_loop file offset chunkLen chunkStart)"
  by pat_completeness auto
termination by (relation "measure (\<lambda>(file, offset, chunkLen, chunkEnd). chunkEnd)") auto

declare content_end_loop.simps [simp del]

definition contentEnd :: "bytes \<Rightarrow> nat \<Rightarrow> nat \<Rightarrow> nat" where
  "contentEnd file offset logLen = content_end_loop file offset (min bufferBytes (logLen - offset)) logLen"

definition payloadMatches :: "bytes \<Rightarrow> nat \<Rightarrow> nat \<Rightarrow> nat \<Rightarrow> bool" where
  "payloadMatches file payloadStart len checksum \<longleftrightarrow>
     ChecksumIEEE (slice_bytes file payloadStart (payloadStart + len)) = checksum"

function scan_window :: "bytes \<Rightarrow> int \<Rightarrow> nat \<Rightarrow> nat \<Rightarrow> nat \<Rightarrow> bool option" where
  "scan_window file format logLen lastStart frameStart =
     (if frameStart < lastStart then
        let payloadStart = frameStart + frameHeaderSize format in
        if payloadStart > logLen then Some False
        else let (len, checksum, lengthValid) = parseFrameHeader format (slice_bytes file frameStart payloadStart) in
          if \<not> lengthValid \<or> len = 0 \<or> payloadStart + len > logLen
          then scan_window file format logLen lastStart (frameStart + 1)
          else if payloadMatches file payloadStart len checksum then Some True
          else scan_window file format logLen lastStart (frameStart + 1)
      else None)"
  by pat_completeness auto
termination by (relation "measure (\<lambda>(file, format, logLen, lastStart, frameStart). lastStart - frameStart)") auto

declare scan_window.simps [simp del]

function validFrameBetween :: "bytes \<Rightarrow> int \<Rightarrow> nat \<Rightarrow> nat \<Rightarrow> nat \<Rightarrow> bool" where
  "validFrameBetween file format logLen windowStart contentStop =
     (if windowStart < contentStop then
        case scan_window file format logLen (min (windowStart + bufferBytes) contentStop) windowStart of
          Some found \<Rightarrow> found
        | None \<Rightarrow> validFrameBetween file format logLen (windowStart + bufferBytes) contentStop
      else False)"
  by pat_completeness auto
termination
  by (relation "measure (\<lambda>(file, format, logLen, windowStart, contentStop). contentStop - windowStart)")
     (auto simp: bufferBytes_def)

declare validFrameBetween.simps [simp del]

section \<open>Replaying the log\<close>

definition truncateRows :: "nat \<Rightarrow> codeCollection \<Rightarrow> codeCollection" where
  "truncateRows offset st = st\<lparr>rowsFile := take offset (rowsFile st), logSize := offset\<rparr>"

definition rejectRecord :: "nat \<Rightarrow> nat \<Rightarrow> store_error \<Rightarrow> codeCollection \<Rightarrow> store_error option \<times> codeCollection" where
  "rejectRecord offset start cause st =
     (let file = rowsFile st; logLen = length file in
      if \<not> validFrameBetween file (FrameFormat st) logLen start (contentEnd file offset logLen)
      then (None, truncateRows offset st)
      else (Some cause, st))"

text \<open>The sum of two \<open>int64\<close> values wraps around.\<close>

definition wrap64 :: "int \<Rightarrow> int" where
  "wrap64 x = (x + 9223372036854775808) mod 18446744073709551616 - 9223372036854775808"

datatype check = Accept rowRecord | Stop "store_error option \<times> codeCollection"

definition checkRecord :: "nat \<Rightarrow> nat \<Rightarrow> bytes \<Rightarrow> nat \<Rightarrow> codeCollection \<Rightarrow> check outcome" where
  "checkRecord offset stop payload payloadChecksum st =
     (if payload = [] \<or> ChecksumIEEE payload \<noteq> payloadChecksum
      then Returns (Stop (rejectRecord offset (searchStart (FrameFormat st) offset stop) RecordCorrupt st))
      else and_then (decodeRecord payload (Scalars st)) (\<lambda>decoded.
        case decoded of
          None \<Rightarrow> Returns (Stop (Some RecordMalformed, st))
        | Some r \<Rightarrow>
            if rec_kind r = recordUpsert \<and> wrap64 (rec_dataOffset r + rec_dataLength r) > int (dataSize st)
            then Returns (Stop (Some DataFileTooShort, st))
            else Returns (Accept r)))"

lemma frameHeaderSize_pos: "0 < frameHeaderSize format"
  by (simp add: frameHeaderSize_def frameHeaderBytes_def lengthCheckedFrameHeaderBytes_def)

function replay_loop :: "bytes \<Rightarrow> nat \<Rightarrow> codeCollection \<Rightarrow> (store_error option \<times> codeCollection) outcome" where
  "replay_loop file offset st =
     (let logLen = length file; headerBytes = frameHeaderSize (FrameFormat st) in
      if offset \<ge> logLen then Returns (None, st)
      else if offset + headerBytes > logLen then Returns (None, truncateRows offset st)
      else let (len, payloadChecksum, lengthValid) =
                 parseFrameHeader (FrameFormat st) (slice_bytes file offset (offset + headerBytes))
           in if \<not> lengthValid then Returns (rejectRecord offset (offset + 1) LengthCorrupt st)
              else let stop = offset + headerBytes + len in
                if stop > logLen
                then Returns (rejectRecord offset (searchStart (FrameFormat st) offset stop) UnexpectedEnd st)
                else case checkRecord offset stop (slice_bytes file (offset + headerBytes) stop) payloadChecksum st of
                  Panic \<Rightarrow> Panic
                | Returns (Stop result) \<Rightarrow> Returns result
                | Returns (Accept r) \<Rightarrow>
                    (case apply_record r st of
                       Panic \<Rightarrow> Panic
                     | Returns (Some e, st') \<Rightarrow> Returns (Some e, st')
                     | Returns (None, st') \<Rightarrow> replay_loop file stop (st'\<lparr>logSize := stop\<rparr>)))"
  by pat_completeness auto
termination
  by (relation "measure (\<lambda>(file, offset, st). length file - offset)")
     (auto simp: frameHeaderSize_def frameHeaderBytes_def lengthCheckedFrameHeaderBytes_def split: if_splits)

declare replay_loop.simps [simp del]

definition replay :: "codeCollection \<Rightarrow> (store_error option \<times> codeCollection) outcome" where
  "replay st = replay_loop (rowsFile st) (logSize st) st"

text \<open>The header and the two files of the generation it names are given.\<close>

definition loadCollection ::
    "ScalarValue \<Rightarrow> ScalarColumn list \<Rightarrow> nat \<Rightarrow> int \<Rightarrow> bytes \<Rightarrow> bytes \<Rightarrow> (store_error option \<times> codeCollection) outcome" where
  "loadCollection emptyScalar scalars generation format rowBytes dataBytes =
     replay (emptyCollection emptyScalar scalars generation format rowBytes dataBytes)"

section \<open>What the scans find\<close>

definition valid_frame_at :: "bytes \<Rightarrow> int \<Rightarrow> nat \<Rightarrow> bool" where
  "valid_frame_at file format s \<longleftrightarrow>
     s + frameHeaderSize format \<le> length file \<and>
     (let (len, checksum, lengthValid) = parseFrameHeader format (slice_bytes file s (s + frameHeaderSize format))
      in lengthValid \<and> len \<noteq> 0 \<and> s + frameHeaderSize format + len \<le> length file \<and>
         payloadMatches file (s + frameHeaderSize format) len checksum)"

lemma valid_frame_parse:
  assumes "s + frameHeaderSize format \<le> length file"
    "parseFrameHeader format (slice_bytes file s (s + frameHeaderSize format)) = (len, checksum, lengthValid)"
  shows "valid_frame_at file format s \<longleftrightarrow>
    \<not> (\<not> lengthValid \<or> len = 0 \<or> s + frameHeaderSize format + len > length file) \<and>
    payloadMatches file (s + frameHeaderSize format) len checksum"
  using assms by (auto simp: valid_frame_at_def)

lemma scan_window_step:
  assumes "s < lastStart" "s + frameHeaderSize format \<le> length file"
  shows "scan_window file format (length file) lastStart s =
    (if valid_frame_at file format s then Some True else scan_window file format (length file) lastStart (s + 1))"
proof -
  obtain len sum valid where p:
    "parseFrameHeader format (slice_bytes file s (s + frameHeaderSize format)) = (len, sum, valid)"
    by (rule prod_cases3)
  show ?thesis
    using assms p by (subst scan_window.simps) (auto simp: Let_def valid_frame_parse [OF assms(2) p])
qed

definition no_frame :: "bytes \<Rightarrow> int \<Rightarrow> nat \<Rightarrow> nat \<Rightarrow> bool" where
  "no_frame file format a b \<longleftrightarrow> (\<forall>t. a \<le> t \<and> t < b \<longrightarrow> \<not> valid_frame_at file format t)"

lemma no_frame_Suc: "\<not> valid_frame_at file format s \<Longrightarrow> no_frame file format (Suc s) b \<Longrightarrow> no_frame file format s b"
  unfolding no_frame_def by (metis Suc_leI le_neq_implies_less)

lemma no_frame_join: "no_frame file format a b \<Longrightarrow> no_frame file format b c \<Longrightarrow> no_frame file format a c"
  unfolding no_frame_def by (meson not_le_imp_less)

lemma no_frame_beyond: "s + frameHeaderSize format > length file \<Longrightarrow> no_frame file format s b"
  by (auto simp: no_frame_def valid_frame_at_def)

lemma scan_window_cases:
  "(scan_window file format (length file) lastStart s = Some True \<and>
      (\<exists>t. s \<le> t \<and> t < lastStart \<and> valid_frame_at file format t)) \<or>
   (scan_window file format (length file) lastStart s = Some False \<and> (\<forall>b. no_frame file format s b)) \<or>
   (scan_window file format (length file) lastStart s = None \<and> no_frame file format s lastStart)"
proof (induction "lastStart - s" arbitrary: s rule: less_induct)
  case less
  consider (finished) "\<not> s < lastStart" | (beyond) "s < lastStart" "s + frameHeaderSize format > length file"
    | (look) "s < lastStart" "s + frameHeaderSize format \<le> length file" by linarith
  then show ?case
  proof cases
    case finished
    then show ?thesis by (subst (1 2 3) scan_window.simps) (auto simp: no_frame_def)
  next
    case beyond
    then have "scan_window file format (length file) lastStart s = Some False"
      by (subst scan_window.simps) simp
    then show ?thesis using no_frame_beyond [OF beyond(2)] by blast
  next
    case look
    show ?thesis
    proof (cases "valid_frame_at file format s")
      case True
      with look scan_window_step [OF look] show ?thesis by auto
    next
      case False
      with scan_window_step [OF look] have eq: "scan_window file format (length file) lastStart s =
          scan_window file format (length file) lastStart (Suc s)" by simp
      have "lastStart - Suc s < lastStart - s" using look(1) by simp
      from less [OF this] show ?thesis
        unfolding eq using no_frame_Suc [OF False] Suc_leD by blast
    qed
  qed
qed

text \<open>The windowed search finds a frame exactly when one starts in the range.\<close>

lemma validFrameBetween_iff:
  "validFrameBetween file format (length file) start stop \<longleftrightarrow>
   (\<exists>t. start \<le> t \<and> t < stop \<and> valid_frame_at file format t)"
proof (induction "stop - start" arbitrary: start rule: less_induct)
  case less
  show ?case
  proof (cases "start < stop")
    case True
    let ?upto = "min (start + bufferBytes) stop"
    have IH: "validFrameBetween file format (length file) (start + bufferBytes) stop \<longleftrightarrow>
        (\<exists>t. start + bufferBytes \<le> t \<and> t < stop \<and> valid_frame_at file format t)"
      using True by (intro less) (simp add: bufferBytes_def)
    from scan_window_cases [of "file" "format" "?upto" "start"] show ?thesis
    proof (elim disjE conjE)
      assume "scan_window file format (length file) ?upto start = Some True"
        "\<exists>t. start \<le> t \<and> t < ?upto \<and> valid_frame_at file format t"
      then show ?thesis using True by (subst validFrameBetween.simps) auto
    next
      assume "scan_window file format (length file) ?upto start = Some False" "\<forall>b. no_frame file format start b"
      then show ?thesis using True by (subst validFrameBetween.simps) (auto simp: no_frame_def)
    next
      assume w: "scan_window file format (length file) ?upto start = None" "no_frame file format start ?upto"
      then have "validFrameBetween file format (length file) start stop =
          validFrameBetween file format (length file) (start + bufferBytes) stop"
        using True by (subst validFrameBetween.simps) simp
      also have "\<dots> \<longleftrightarrow> (\<exists>t. start \<le> t \<and> t < stop \<and> valid_frame_at file format t)"
        unfolding IH using w(2) by (auto simp: no_frame_def) (metis not_le_imp_less)
      finally show ?thesis .
    qed
  qed (subst validFrameBetween.simps, simp)
qed

lemma scan_back_spec:
  "(case scan_back chunk n of
      None \<Rightarrow> \<forall>i < n. chunk ! i = CHR 0x00
    | Some m \<Rightarrow> 0 < m \<and> m \<le> n \<and> (\<forall>i. m \<le> i \<and> i < n \<longrightarrow> chunk ! i = CHR 0x00))"
proof (induction n)
  case (Suc n)
  show ?case
  proof (cases "chunk ! n = CHR 0x00")
    case True
    with Suc show ?thesis
      by (auto simp: less_Suc_eq split: option.splits)
  qed auto
qed simp

lemma slice_bytes_nth: "b \<le> length file \<Longrightarrow> i < b - a \<Longrightarrow> slice_bytes file a b ! i = file ! (a + i)"
  by (simp add: slice_bytes_def)

definition zeros_between :: "bytes \<Rightarrow> nat \<Rightarrow> nat \<Rightarrow> bool" where
  "zeros_between file a b \<longleftrightarrow> (\<forall>i. a \<le> i \<and> i < b \<longrightarrow> file ! i = CHR 0x00)"

lemma content_end_loop_spec:
  assumes "chunkLen > 0"
  shows "offset \<le> chunkEnd \<Longrightarrow> chunkEnd \<le> length file \<Longrightarrow>
    offset \<le> content_end_loop file offset chunkLen chunkEnd \<and>
    content_end_loop file offset chunkLen chunkEnd \<le> chunkEnd \<and>
    zeros_between file (content_end_loop file offset chunkLen chunkEnd) chunkEnd"
proof (induction chunkEnd rule: less_induct)
  case (less e)
  show ?case
  proof (cases "e \<le> offset")
    case True
    with less.prems show ?thesis by (subst (1 2 3) content_end_loop.simps) (auto simp: zeros_between_def)
  next
    case False
    define c where "c = max offset (e - chunkLen)"
    define r where "r = scan_back (slice_bytes file c e) (e - c)"
    have c: "offset \<le> c" "c < e" using False assms by (auto simp: c_def)
    have step: "content_end_loop file offset chunkLen e =
        (case r of Some n \<Rightarrow> c + n | None \<Rightarrow> content_end_loop file offset chunkLen c)"
      using False assms unfolding r_def c_def by (subst content_end_loop.simps) (simp add: Let_def)
    have byte: "file ! i = slice_bytes file c e ! (i - c)" if "c \<le> i" "i < e" for i
      using that less.prems(2) by (simp add: slice_bytes_nth)
    show ?thesis
    proof (cases r)
      case None
      then have "zeros_between file c e"
        using scan_back_spec [where chunk = "slice_bytes file c e" and n = "e - c"] byte by (simp add: r_def zeros_between_def)
      with less.IH [OF c(2,1)] less.prems(2) c None step show ?thesis
        unfolding zeros_between_def by simp (meson not_le_imp_less)
    next
      case (Some n)
      then have n: "0 < n" "n \<le> e - c" "\<forall>i. n \<le> i \<and> i < e - c \<longrightarrow> slice_bytes file c e ! i = CHR 0x00"
        using scan_back_spec [where chunk = "slice_bytes file c e" and n = "e - c"] by (simp_all add: r_def)
      have "file ! i = CHR 0x00" if "c + n \<le> i" "i < e" for i
      proof -
        have "n \<le> i - c" "i - c < e - c" "c \<le> i" using that by linarith+
        with n(3) byte [of i] that(2) show ?thesis by simp
      qed
      moreover have "c + n \<le> e" using n(2) c(2) by simp
      ultimately show ?thesis using Some step c(1) by (simp add: zeros_between_def)
    qed
  qed
qed

lemma contentEnd_spec:
  assumes "offset \<le> length file"
  shows "contentEnd file offset (length file) \<le> length file"
    "zeros_between file (contentEnd file offset (length file)) (length file)"
proof -
  have "contentEnd file offset (length file) \<le> length file \<and>
      zeros_between file (contentEnd file offset (length file)) (length file)"
  proof (cases "offset = length file")
    case True
    then have "contentEnd file offset (length file) = offset"
      unfolding contentEnd_def by (subst content_end_loop.simps) simp
    with True show ?thesis by (auto simp: zeros_between_def)
  next
    case False
    with assms content_end_loop_spec [of "min bufferBytes (length file - offset)" offset "length file" "file"]
    show ?thesis by (simp add: contentEnd_def bufferBytes_def)
  qed
  then show "contentEnd file offset (length file) \<le> length file"
    "zeros_between file (contentEnd file offset (length file)) (length file)" by simp_all
qed

lemma le_value_zeros: "list_all (\<lambda>c. c = CHR 0x00) cs \<Longrightarrow> le_value cs = 0"
  by (induction cs) (simp_all add: byte_def)

lemma no_frame_in_zeros:
  assumes "zeros_between file a (length file)" "a \<le> t"
  shows "\<not> valid_frame_at file format t"
proof
  assume v: "valid_frame_at file format t"
  let ?h = "frameHeaderSize format"
  have h: "t + ?h \<le> length file" "4 \<le> ?h"
    using v by (auto simp: valid_frame_at_def frameHeaderSize_def frameHeaderBytes_def lengthCheckedFrameHeaderBytes_def)
  have "list_all (\<lambda>c. c = CHR 0x00) (take frameFieldBytes (slice_bytes file t (t + ?h)))"
    using assms h by (auto simp: list_all_length slice_bytes_def zeros_between_def frameFieldBytes_def)
  then have "le_value (take frameFieldBytes (slice_bytes file t (t + ?h))) = 0" by (rule le_value_zeros)
  with v show False by (simp add: valid_frame_at_def parseFrameHeader_def Let_def)
qed

text \<open>A damaged record is dropped exactly when no valid frame follows.\<close>

lemma rejectRecord_iff:
  assumes "offset \<le> length (rowsFile st)"
  shows "rejectRecord offset start cause st =
    (if \<exists>t \<ge> start. valid_frame_at (rowsFile st) (FrameFormat st) t then (Some cause, st)
     else (None, truncateRows offset st))"
proof -
  have "validFrameBetween (rowsFile st) (FrameFormat st) (length (rowsFile st)) start
        (contentEnd (rowsFile st) offset (length (rowsFile st))) \<longleftrightarrow>
      (\<exists>t \<ge> start. valid_frame_at (rowsFile st) (FrameFormat st) t)"
    unfolding validFrameBetween_iff
    using no_frame_in_zeros [OF contentEnd_spec(2) [OF assms]] by (metis not_le_imp_less)
  then show ?thesis by (simp only: rejectRecord_def Let_def if_not_P if_P if_distrib) simp
qed

section \<open>Replay drops nothing that is still readable\<close>

lemma remove_disk: "remove i st = Returns st' \<Longrightarrow> same_disk st st'"
  by (auto simp: remove_def same_disk_def Let_def split: option.splits if_splits)

lemma apply_record_disk: "apply_record r st = Returns (e, st') \<Longrightarrow> same_disk st st'"
  by (auto simp: apply_record_def apply_upsert_def same_disk_def and_then_eq_Returns Let_def
      split: option.splits if_splits prod.splits dest: remove_disk)

text \<open>Where the search for later frames starts after a record at \<open>offset\<close> turned out damaged.\<close>

definition damaged_end :: "bytes \<Rightarrow> int \<Rightarrow> nat \<Rightarrow> nat" where
  "damaged_end file format offset =
     (let (len, _, lengthValid) =
        parseFrameHeader format (slice_bytes file offset (offset + frameHeaderSize format))
      in if format = frameFormatLengthCRC \<and> lengthValid then offset + frameHeaderSize format + len else offset + 1)"

lemma replay_loop_cases:
  assumes "rowsFile st = file"
  obtains (finished) "offset \<ge> length file" "replay_loop file offset st = Returns (None, st)"
  | (partial) "offset < length file" "offset + frameHeaderSize (FrameFormat st) > length file"
      "replay_loop file offset st = Returns (None, truncateRows offset st)"
  | (damaged) cause where "offset < length file"
      "replay_loop file offset st = Returns (rejectRecord offset (damaged_end file (FrameFormat st) offset) cause st)"
  | (stopped) e st' where "same_disk st st'" "replay_loop file offset st = Returns (Some e, st')"
  | (panicked) "replay_loop file offset st = Panic"
  | (onward) stop st' where "offset < stop" "stop \<le> length file" "same_disk st st'"
      "replay_loop file offset st = replay_loop file stop (st'\<lparr>logSize := stop\<rparr>)"
proof -
  let ?h = "frameHeaderSize (FrameFormat st)"
  obtain len sum valid where p: "parseFrameHeader (FrameFormat st) (slice_bytes file offset (offset + ?h)) = (len, sum, valid)"
    by (rule prod_cases3)
  let ?stop = "offset + ?h + len"
  have start: "damaged_end file (FrameFormat st) offset =
      (if valid then searchStart (FrameFormat st) offset ?stop else offset + 1)"
    using p by (simp add: damaged_end_def searchStart_def)
  show ?thesis
  proof (cases "offset + ?h \<le> length file")
    case False
    have "replay_loop file offset st = Returns (None, if offset \<ge> length file then st else truncateRows offset st)"
      using False by (subst replay_loop.simps) (simp add: Let_def)
    with False finished partial show ?thesis by (cases "offset \<ge> length file") simp_all
  next
    case True
    then have inside: "offset < length file" using frameHeaderSize_pos [of "FrameFormat st"] by linarith
    show ?thesis
    proof (cases "valid \<and> ?stop \<le> length file")
      case False
      with True inside p have "replay_loop file offset st = Returns (rejectRecord offset
          (damaged_end file (FrameFormat st) offset) (if valid then UnexpectedEnd else LengthCorrupt) st)"
        unfolding start by (subst replay_loop.simps) (auto simp: Let_def)
      with inside show ?thesis by (rule damaged)
    next
      case good: True
      define c where "c = checkRecord offset ?stop (slice_bytes file (offset + ?h) ?stop) sum st"
      have loop: "replay_loop file offset st = (case c of Panic \<Rightarrow> Panic
          | Returns (Stop result) \<Rightarrow> Returns result
          | Returns (Accept r) \<Rightarrow> (case apply_record r st of
              Panic \<Rightarrow> Panic
            | Returns (Some e, st') \<Rightarrow> Returns (Some e, st')
            | Returns (None, st') \<Rightarrow> replay_loop file ?stop (st'\<lparr>logSize := ?stop\<rparr>)))"
        using True inside good p unfolding c_def by (subst replay_loop.simps) (simp add: Let_def)
      have stops: "result = rejectRecord offset (damaged_end file (FrameFormat st) offset) RecordCorrupt st \<or>
          (\<exists>e. result = (Some e, st))" if "c = Returns (Stop result)" for result
        using that good
        by (auto simp: c_def checkRecord_def start and_then_eq_Returns split: if_splits option.splits)
      show ?thesis
      proof (cases c)
        case Panic
        with loop panicked show ?thesis by simp
      next
        case (Returns x)
        show ?thesis
        proof (cases x)
          case (Stop result)
          with Returns stops [of result] loop damaged [OF inside] stopped [of st] show ?thesis by auto
        next
          case (Accept r)
          show ?thesis
          proof (cases "apply_record r st")
            case Panic
            with loop Returns Accept panicked show ?thesis by simp
          next
            case applied: (Returns y)
            obtain e st' where y: "y = (e, st')" by (cases y)
            with applied have disk: "same_disk st st'" using apply_record_disk by blast
            show ?thesis
            proof (cases e)
              case None
              with loop Returns Accept applied y disk good onward [of ?stop st'] frameHeaderSize_pos
              show ?thesis by simp
            next
              case (Some err)
              with loop Returns Accept applied y disk stopped [of st' err] show ?thesis by simp
            qed
          qed
        qed
      qed
    qed
  qed
qed

lemma replay_loop_safe:
  "rowsFile st = file \<Longrightarrow> replay_loop file offset st = Returns (e, st') \<Longrightarrow>
   (if e = None
    then \<exists>n. rowsFile st' = take n file \<and> (\<forall>t \<ge> damaged_end file (FrameFormat st) n. \<not> valid_frame_at file (FrameFormat st) t)
    else rowsFile st' = file)"
proof (induction "length file - offset" arbitrary: offset st rule: less_induct)
  case less
  have after: "n < damaged_end file (FrameFormat st) n" for n
    by (simp add: damaged_end_def split_beta frameHeaderSize_pos)
  have beyond: "\<forall>t \<ge> damaged_end file (FrameFormat st) n. \<not> valid_frame_at file (FrameFormat st) t"
    if "n + frameHeaderSize (FrameFormat st) \<ge> length file" for n
    using that after [of n] by (auto simp: valid_frame_at_def)
  from less.prems(1) show ?case
  proof (cases rule: replay_loop_cases [where offset = offset])
    case finished
    with less.prems beyond [of "length file"] show ?thesis by (auto intro!: exI [of _ "length file"])
  next
    case partial
    with less.prems beyond [of offset] show ?thesis by (auto simp: truncateRows_def)
  next
    case (damaged cause)
    with less.prems have "rejectRecord offset (damaged_end file (FrameFormat st) offset) cause st = (e, st')"
      "offset \<le> length (rowsFile st)" by simp_all
    with less.prems(1) rejectRecord_iff [of offset st] show ?thesis
      by (auto simp: truncateRows_def split: if_splits)
  next
    case (stopped err st1)
    with less.prems show ?thesis by (auto simp: same_disk_def)
  next
    case panicked
    with less.prems show ?thesis by simp
  next
    case (onward stop st1)
    let ?st = "st1\<lparr>logSize := stop\<rparr>"
    have same: "FrameFormat ?st = FrameFormat st" "rowsFile ?st = file"
      using onward(3) less.prems(1) by (simp_all add: same_disk_def)
    have "length file - stop < length file - offset" using onward(1,2) by linarith
    from less.hyps [OF this same(2)] onward(4) less.prems(2) show ?thesis unfolding same(1) by simp
  qed
qed

text \<open>
  Replay never throws away a readable record. Whatever bytes the row log holds, when replay
  ends without an error it has at most cut a tail off the log, and no frame with matching
  checksums starts in that tail beyond the damaged record; when it reports an error, the log
  is left as it was.
\<close>

lemma replay_keeps_valid_frames:
  assumes "replay st = Returns (e, st')"
  shows "if e = None
    then \<exists>n. rowsFile st' = take n (rowsFile st) \<and>
      (\<forall>t \<ge> damaged_end (rowsFile st) (FrameFormat st) n. \<not> valid_frame_at (rowsFile st) (FrameFormat st) t)
    else rowsFile st' = rowsFile st"
  using replay_loop_safe [OF refl] assms by (simp add: replay_def)

section \<open>Replaying what was written\<close>

definition frame :: "int \<Rightarrow> bytes \<Rightarrow> bytes" where
  "frame format payload =
     le_bytes 4 (length payload) @
     (if format = frameFormatLengthCRC then le_bytes 4 (ChecksumIEEE (le_bytes 4 (length payload))) else []) @
     le_bytes 4 (ChecksumIEEE payload) @ payload"

lemma appendFrame_frame:
  "length payload \<le> MaxUint32 \<Longrightarrow> appendFrame buffer payload format = Some (buffer @ frame format payload)"
  by (simp add: appendFrame_def frame_def Let_def)

lemma length_frame [simp]: "length (frame format payload) = frameHeaderSize format + length payload"
  by (simp add: frame_def frameHeaderSize_def frameHeaderBytes_def lengthCheckedFrameHeaderBytes_def)

lemma frame_header:
  assumes "length payload \<le> MaxUint32"
  shows "parseFrameHeader format (take (frameHeaderSize format) (frame format payload)) =
    (length payload, ChecksumIEEE payload, True)"
proof -
  have crc: "ChecksumIEEE x mod 4294967296 = ChecksumIEEE x" for x
    using ChecksumIEEE_less [of x] by simp
  show ?thesis
    using assms by (simp add: parseFrameHeader_def frame_def frameHeaderSize_def frameHeaderBytes_def
        lengthCheckedFrameHeaderBytes_def frameFieldBytes_def slice_bytes_def crc Let_def)
qed

lemma slice_append: "slice_bytes (pre @ xs @ rest) (length pre) (length pre + length xs) = xs"
  by (simp add: slice_bytes_def)

text \<open>A record that fits its frame and whose data lies in the data file.\<close>

definition stored_ok :: "ScalarColumn list \<Rightarrow> nat \<Rightarrow> rowRecord \<Rightarrow> bool" where
  "stored_ok columns n r \<longleftrightarrow> record_ok columns r \<and> length (record_bytes columns r) \<le> MaxUint32 \<and>
     int n \<le> MaxInt64 \<and> rec_dataOffset r + rec_dataLength r \<le> int n"

definition log_bytes :: "int \<Rightarrow> ScalarColumn list \<Rightarrow> rowRecord list \<Rightarrow> bytes" where
  "log_bytes format columns rs = concat (map (\<lambda>r. frame format (record_bytes columns r)) rs)"

lemma log_bytes_simps [simp]:
  "log_bytes format columns [] = []"
  "log_bytes format columns (r # rs) = frame format (record_bytes columns r) @ log_bytes format columns rs"
  "log_bytes format columns (rs @ rs') = log_bytes format columns rs @ log_bytes format columns rs'"
  by (simp_all add: log_bytes_def)

lemma checkRecord_accepts:
  assumes "stored_ok (Scalars st) (dataSize st) r"
  shows "checkRecord offset stop (record_bytes (Scalars st) r) (ChecksumIEEE (record_bytes (Scalars st) r)) st =
    Returns (Accept r)"
proof -
  have ok: "record_ok (Scalars st) r" and le: "rec_dataOffset r + rec_dataLength r \<le> int (dataSize st)"
    "int (dataSize st) \<le> MaxInt64"
    using assms by (simp_all add: stored_ok_def)
  have "0 \<le> rec_dataOffset r + rec_dataLength r" if "rec_kind r = recordUpsert"
    using ok that by (simp add: record_ok_def record_constants)
  with le have "wrap64 (rec_dataOffset r + rec_dataLength r) = rec_dataOffset r + rec_dataLength r"
    if "rec_kind r = recordUpsert" using that by (simp add: wrap64_def)
  with le have "\<not> (rec_kind r = recordUpsert \<and> wrap64 (rec_dataOffset r + rec_dataLength r) > int (dataSize st))"
    by auto
  moreover have "record_bytes (Scalars st) r \<noteq> []" by (simp add: record_bytes_def)
  ultimately show ?thesis
    using decodeRecord_bytes [OF ok] by (auto simp: checkRecord_def)
qed

lemma replay_one:
  assumes "stored_ok (Scalars st) (dataSize st) r" "apply_record r st = Returns (None, st')"
    and "file = pre @ frame (FrameFormat st) (record_bytes (Scalars st) r) @ rest"
  defines "stop \<equiv> length pre + length (frame (FrameFormat st) (record_bytes (Scalars st) r))"
  shows "replay_loop file (length pre) st = replay_loop file stop (st'\<lparr>logSize := stop\<rparr>)"
proof -
  let ?p = "record_bytes (Scalars st) r" and ?h = "frameHeaderSize (FrameFormat st)"
  let ?f = "frame (FrameFormat st) ?p"
  have len: "length ?p \<le> MaxUint32" using assms(1) by (simp add: stored_ok_def)
  have split: "?f = take ?h ?f @ ?p"
    by (simp add: frame_def frameHeaderSize_def frameHeaderBytes_def lengthCheckedFrameHeaderBytes_def)
  have "file = pre @ take ?h ?f @ ?p @ rest" using assms(3) split by (metis append.assoc)
  then have header: "slice_bytes file (length pre) (length pre + ?h) = take ?h ?f"
    using slice_append [of pre "take ?h ?f" "?p @ rest"] by simp
  have "file = (pre @ take ?h ?f) @ ?p @ rest" using \<open>file = pre @ take ?h ?f @ ?p @ rest\<close> by simp
  then have body: "slice_bytes file (length pre + ?h) (length pre + ?h + length ?p) = ?p"
    using slice_append [of "pre @ take ?h ?f" ?p rest] by simp
  have len_file: "length file = length pre + ?h + length ?p + length rest" using assms(3) by simp
  show ?thesis
    using frame_header [OF len, of "FrameFormat st"] header body len_file checkRecord_accepts [OF assms(1)] assms(2)
      frameHeaderSize_pos [of "FrameFormat st"]
    by (subst replay_loop.simps) (simp add: Let_def stop_def add.assoc)
qed

lemma file_updates [simp]:
  "collection_inv k (st\<lparr>logSize := n\<rparr>) = collection_inv k st" "view (st\<lparr>logSize := n\<rparr>) = view st"
  "collection_inv k (st\<lparr>rowsFile := f\<rparr>) = collection_inv k st" "view (st\<lparr>rowsFile := f\<rparr>) = view st"
  "collection_inv k (st\<lparr>dataFile := f\<rparr>) = collection_inv k st" "view (st\<lparr>dataFile := f\<rparr>) = view st"
  "collection_inv k (st\<lparr>dataSize := n\<rparr>) = collection_inv k st" "view (st\<lparr>dataSize := n\<rparr>) = view st"
  by (simp_all add: collection_inv_def index_ok_def cells_ok_def rows_ok_def view_def fun_eq_iff)

lemma replay_records:
  "collection_inv (cells_total rs + k) st \<Longrightarrow> list_all (stored_ok (Scalars st) (dataSize st)) rs \<Longrightarrow>
   file = pre @ log_bytes (FrameFormat st) (Scalars st) rs @ rest \<Longrightarrow> logSize st = length pre \<Longrightarrow>
   \<exists>st'. replay_loop file (length pre) st =
        replay_loop file (length pre + length (log_bytes (FrameFormat st) (Scalars st) rs)) st' \<and>
     collection_inv k st' \<and>
     same_disk (st\<lparr>logSize := length pre + length (log_bytes (FrameFormat st) (Scalars st) rs)\<rparr>) st' \<and>
     view st' = fold (record_effect (length (Scalars st))) rs (view st)"
proof (induction rs arbitrary: st pre)
  case Nil
  then show ?case by (intro exI [of _ st]) (simp add: same_disk_def)
next
  case (Cons r rs)
  let ?f = "frame (FrameFormat st) (record_bytes (Scalars st) r)"
  let ?stop = "length pre + length ?f"
  obtain st1 where st1: "apply_record r st = Returns (None, st1)" "collection_inv (cells_total rs + k) st1"
    "same_disk st st1" "view st1 = record_effect (length (Scalars st)) r (view st)"
    using apply_record_correct [of r "cells_total rs + k" st] Cons.prems(1,2)
    by (auto simp: add.assoc stored_ok_def)
  define st2 where "st2 = st1\<lparr>logSize := ?stop\<rparr>"
  have same: "Scalars st2 = Scalars st" "FrameFormat st2 = FrameFormat st" "dataSize st2 = dataSize st"
    "logSize st2 = length (pre @ ?f)"
    using st1(3) by (simp_all add: st2_def same_disk_def)
  have whole: "file = pre @ ?f @ log_bytes (FrameFormat st) (Scalars st) rs @ rest" using Cons.prems(3) by simp
  have one: "replay_loop file (length pre) st = replay_loop file ?stop st2"
    using replay_one [OF _ st1(1) whole] Cons.prems(2) by (simp add: st2_def)
  have "\<exists>st'. replay_loop file (length (pre @ ?f)) st2 =
        replay_loop file (length (pre @ ?f) + length (log_bytes (FrameFormat st2) (Scalars st2) rs)) st' \<and>
     collection_inv k st' \<and>
     same_disk (st2\<lparr>logSize := length (pre @ ?f) + length (log_bytes (FrameFormat st2) (Scalars st2) rs)\<rparr>) st' \<and>
     view st' = fold (record_effect (length (Scalars st2))) rs (view st2)"
    by (rule Cons.IH) (use st1(2) Cons.prems(2) same whole in \<open>simp_all add: st2_def\<close>)
  then obtain st' where st': "replay_loop file ?stop st2 =
        replay_loop file (?stop + length (log_bytes (FrameFormat st) (Scalars st) rs)) st'"
    "collection_inv k st'" "same_disk (st2\<lparr>logSize := ?stop + length (log_bytes (FrameFormat st) (Scalars st) rs)\<rparr>) st'"
    "view st' = fold (record_effect (length (Scalars st))) rs (view st2)"
    unfolding same by auto
  moreover have "view st2 = record_effect (length (Scalars st)) r (view st)" using st1(4) by (simp add: st2_def)
  ultimately show ?case
    using one st1(3) by (intro exI [of _ st']) (simp add: same_disk_def st2_def add.assoc)
qed

lemma replay_torn:
  assumes "FrameFormat st = frameFormatLengthCRC" "length payload \<le> MaxUint32"
    and "n < length (frame frameFormatLengthCRC payload)" "logSize st = length pre"
    and whole: "rowsFile st = pre @ take n (frame frameFormatLengthCRC payload)"
  shows "replay_loop (rowsFile st) (length pre) st = Returns (None, st\<lparr>rowsFile := pre\<rparr>)"
proof -
  let ?f = "frame frameFormatLengthCRC payload" and ?h = "frameHeaderSize frameFormatLengthCRC"
  have len: "length (rowsFile st) = length pre + n" using whole assms(3) by simp
  have cut: "truncateRows (length pre) st = st\<lparr>rowsFile := pre\<rparr>"
    using whole assms(4) by (simp add: truncateRows_def)
  consider (none) "n = 0" | (header) "0 < n" "n < ?h" | (body) "?h \<le> n" by linarith
  then show ?thesis
  proof cases
    case none
    with whole have "st = st\<lparr>rowsFile := pre\<rparr>" by simp
    then show ?thesis using none len by (subst replay_loop.simps) (simp add: Let_def)
  next
    case header
    with len assms(1) cut show ?thesis by (subst replay_loop.simps) (simp add: Let_def)
  next
    case body
    then have "take n ?f = take ?h ?f @ drop ?h (take n ?f)"
      by (metis append_take_drop_id min.absorb1 take_take)
    then have "rowsFile st = pre @ take ?h ?f @ drop ?h (take n ?f)" using whole by simp
    moreover have "length (take ?h ?f) = ?h" by simp
    ultimately have slice: "slice_bytes (rowsFile st) (length pre) (length pre + ?h) = take ?h ?f"
      using slice_append [of pre "take ?h ?f" "drop ?h (take n ?f)"] by simp
    let ?stop = "length pre + ?h + length payload"
    have "\<not> (\<exists>t \<ge> ?stop. valid_frame_at (rowsFile st) (FrameFormat st) t)"
      using len assms(3) by (auto simp: valid_frame_at_def)
    then have "rejectRecord (length pre) ?stop UnexpectedEnd st = (None, st\<lparr>rowsFile := pre\<rparr>)"
      using len cut by (simp add: rejectRecord_iff)
    with slice frame_header [OF assms(2)] len assms(1,3) body frameHeaderSize_pos [of frameFormatLengthCRC]
    show ?thesis
      by (subst replay_loop.simps) (simp add: Let_def searchStart_def)
  qed
qed

text \<open>A prefix of a log is some of its records and a part of the next one.\<close>

lemma take_log_bytes:
  obtains j where "j \<le> length rs" "length (log_bytes f columns (take j rs)) \<le> n \<or> n \<ge> length (log_bytes f columns rs)"
    "j = length rs \<Longrightarrow> take n (log_bytes f columns rs) = log_bytes f columns rs"
    "j < length rs \<Longrightarrow> \<exists>m < length (frame f (record_bytes columns (rs ! j))).
       n = length (log_bytes f columns (take j rs)) + m \<and>
       take n (log_bytes f columns rs) = log_bytes f columns (take j rs) @ take m (frame f (record_bytes columns (rs ! j)))"
proof (induction rs arbitrary: n thesis)
  case Nil
  then show ?case by simp
next
  case (Cons r rs)
  let ?f = "frame f (record_bytes columns r)"
  show ?case
  proof (cases "n < length ?f")
    case True
    then show ?thesis by (intro Cons.prems [of 0]) (auto intro!: exI [of _ n])
  next
    case False
    obtain j where j: "j \<le> length rs"
      "length (log_bytes f columns (take j rs)) \<le> n - length ?f \<or> n - length ?f \<ge> length (log_bytes f columns rs)"
      "j = length rs \<Longrightarrow> take (n - length ?f) (log_bytes f columns rs) = log_bytes f columns rs"
      "j < length rs \<Longrightarrow> \<exists>m < length (frame f (record_bytes columns (rs ! j))).
         n - length ?f = length (log_bytes f columns (take j rs)) + m \<and>
         take (n - length ?f) (log_bytes f columns rs) =
           log_bytes f columns (take j rs) @ take m (frame f (record_bytes columns (rs ! j)))"
      using Cons.IH by blast
    have n: "n = length ?f + (n - length ?f)" using False by simp
    show ?thesis
    proof (rule Cons.prems [of "Suc j"])
      show "Suc j \<le> length (r # rs)" using j(1) by simp
      show "length (log_bytes f columns (take (Suc j) (r # rs))) \<le> n \<or> n \<ge> length (log_bytes f columns (r # rs))"
        using j(2) False by auto
      show "take n (log_bytes f columns (r # rs)) = log_bytes f columns (r # rs)" if "Suc j = length (r # rs)"
        using j(3) that False by simp
      show "\<exists>m < length (frame f (record_bytes columns ((r # rs) ! Suc j))).
          n = length (log_bytes f columns (take (Suc j) (r # rs))) + m \<and>
          take n (log_bytes f columns (r # rs)) = log_bytes f columns (take (Suc j) (r # rs)) @
            take m (frame f (record_bytes columns ((r # rs) ! Suc j)))"
        if "Suc j < length (r # rs)"
        using j(4) that False n by fastforce
    qed
  qed
qed

lemma cells_total_take: "cells_total (take j rs) \<le> cells_total rs"
proof -
  have "cells_total rs = cells_total (take j rs) + cells_total (drop j rs)"
    by (metis append_take_drop_id map_append sum_list_append)
  then show ?thesis by simp
qed

text \<open>Replaying a prefix of a log behind what is already held.\<close>

lemma replay_prefix:
  assumes inv: "collection_inv (cells_total rs + k) st" and ok: "list_all (stored_ok (Scalars st) (dataSize st)) rs"
    and format: "FrameFormat st = frameFormatLengthCRC" and size: "logSize st = length pre"
  defines "logOf \<equiv> log_bytes frameFormatLengthCRC (Scalars st)"
  assumes whole: "rowsFile st = pre @ take n (logOf rs)"
  obtains j st' where "j \<le> length rs" "j < length rs \<Longrightarrow> n < length (logOf (take (Suc j) rs))"
    "replay st = Returns (None, st')" "collection_inv k st'"
    "view st' = fold (record_effect (length (Scalars st))) (take j rs) (view st)"
    "same_disk (st\<lparr>rowsFile := pre @ logOf (take j rs), logSize := length pre + length (logOf (take j rs))\<rparr>) st'"
    "n \<ge> length (logOf rs) \<Longrightarrow> j = length rs" "length (logOf (take j rs)) \<le> n"
proof -
  obtain j where j: "j \<le> length rs" "j = length rs \<Longrightarrow> take n (logOf rs) = logOf rs"
    "j < length rs \<Longrightarrow> \<exists>m < length (frame frameFormatLengthCRC (record_bytes (Scalars st) (rs ! j))).
       n = length (logOf (take j rs)) + m \<and>
       take n (logOf rs) = logOf (take j rs) @ take m (frame frameFormatLengthCRC (record_bytes (Scalars st) (rs ! j)))"
    unfolding logOf_def using take_log_bytes [of rs frameFormatLengthCRC "Scalars st" n] by metis
  have "\<exists>rest. take n (logOf rs) = logOf (take j rs) @ rest"
  proof (cases "j = length rs")
    case True
    then show ?thesis using j(2) by simp
  next
    case False
    then show ?thesis using j(1,3) by fastforce
  qed
  then obtain rest where "take n (logOf rs) = logOf (take j rs) @ rest" ..
  then have rest: "rowsFile st = pre @ log_bytes (FrameFormat st) (Scalars st) (take j rs) @ rest"
    using whole format by (simp add: logOf_def)
  have "list_all (stored_ok (Scalars st) (dataSize st)) (take j rs)"
    using ok by (auto simp: list_all_iff dest: in_set_takeD)
  moreover have "collection_inv (cells_total (take j rs) + k) st"
    using inv cells_total_take [of j rs] by (auto simp: collection_inv_def room_def)
  ultimately obtain st1 where st1: "replay_loop (rowsFile st) (length pre) st =
      replay_loop (rowsFile st) (length pre + length (logOf (take j rs))) st1" "collection_inv k st1"
    "same_disk (st\<lparr>logSize := length pre + length (logOf (take j rs))\<rparr>) st1"
    "view st1 = fold (record_effect (length (Scalars st))) (take j rs) (view st)"
    using replay_records [OF _ _ rest size] format unfolding logOf_def by metis
  have disk: "rowsFile st1 = rowsFile st" "FrameFormat st1 = frameFormatLengthCRC"
    "logSize st1 = length (pre @ logOf (take j rs))"
    using st1(3) format by (simp_all add: same_disk_def)
  have run: "replay st = replay_loop (rowsFile st1) (length (pre @ logOf (take j rs))) st1"
    using st1(1) disk(1) size by (simp add: replay_def)
  show ?thesis
  proof (cases "j = length rs")
    case True
    then have "rowsFile st1 = pre @ logOf (take j rs)" using disk(1) j(2) whole by simp
    then have "replay st = Returns (None, st1)" "same_disk (st\<lparr>rowsFile := pre @ logOf (take j rs), logSize := length pre + length (logOf (take j rs))\<rparr>) st1"
      using run disk st1(3) by (simp_all add: replay_loop.simps same_disk_def)
    moreover have "length (logOf rs) \<le> n" using j(2) [OF True] by (metis length_take min.cobounded2)
    ultimately show ?thesis using st1 True j(1) that [of j st1] by simp
  next
    case False
    with j obtain m where m: "m < length (frame frameFormatLengthCRC (record_bytes (Scalars st) (rs ! j)))"
      "n = length (logOf (take j rs)) + m"
      "take n (logOf rs) = logOf (take j rs) @ take m (frame frameFormatLengthCRC (record_bytes (Scalars st) (rs ! j)))"
      by fastforce
    have "length (record_bytes (Scalars st) (rs ! j)) \<le> MaxUint32"
      using ok False j(1) by (simp add: list_all_length stored_ok_def)
    moreover have "rowsFile st1 = (pre @ logOf (take j rs)) @ take m (frame frameFormatLengthCRC (record_bytes (Scalars st) (rs ! j)))"
      using disk(1) whole m(3) by simp
    ultimately have "replay st = Returns (None, st1\<lparr>rowsFile := pre @ logOf (take j rs)\<rparr>)"
      using run replay_torn [OF disk(2) _ m(1) disk(3)] by simp
    moreover have "length (logOf (take j rs)) \<le> n" using m(2) by simp
    moreover have next_record: "n < length (logOf (take (Suc j) rs))"
      using m(1,2) False j(1) by (simp add: logOf_def take_Suc_conv_app_nth)
    moreover have "length (logOf (take (Suc j) rs)) \<le> length (logOf rs)"
    proof -
      have "logOf rs = logOf (take (Suc j) rs) @ logOf (drop (Suc j) rs)"
        unfolding logOf_def by (metis append_take_drop_id log_bytes_simps(3))
      then show ?thesis by simp
    qed
    ultimately show ?thesis
      using that [of j "st1\<lparr>rowsFile := pre @ logOf (take j rs)\<rparr>"] st1(2-4) j(1) by (simp add: same_disk_def)
  qed
qed

lemma load_prefix:
  assumes ok: "list_all (stored_ok columns (length dataBytes)) rs" and cells: "cells_total rs \<le> MaxUint32"
  defines "logOf \<equiv> log_bytes frameFormatLengthCRC columns"
  obtains j st where "j \<le> length rs" "j < length rs \<Longrightarrow> n < length (logOf (take (Suc j) rs))"
    "loadCollection e columns gen frameFormatLengthCRC (take n (logOf rs)) dataBytes = Returns (None, st)"
    "collection_inv 0 st" "view st = fold (record_effect (length columns)) (take j rs) Map.empty"
    "rowsFile st = logOf (take j rs)" "logSize st = length (rowsFile st)" "dataFile st = dataBytes"
    "n \<ge> length (logOf rs) \<Longrightarrow> j = length rs" "length (logOf (take j rs)) \<le> n" "dataSize st = length dataBytes"
proof -
  let ?st = "emptyCollection e columns gen frameFormatLengthCRC (take n (logOf rs)) dataBytes"
  have inv: "collection_inv (cells_total rs + 0) ?st" using cells by (simp add: emptyCollection_inv)
  obtain j st' where "j \<le> length rs" "j < length rs \<Longrightarrow> n < length (logOf (take (Suc j) rs))"
    "replay ?st = Returns (None, st')" "collection_inv 0 st'"
    "view st' = fold (record_effect (length columns)) (take j rs) Map.empty"
    "same_disk (?st\<lparr>rowsFile := logOf (take j rs), logSize := length (logOf (take j rs))\<rparr>) st'"
    "n \<ge> length (logOf rs) \<Longrightarrow> j = length rs" "length (logOf (take j rs)) \<le> n"
    by (rule replay_prefix [OF inv, of "[]" n]) (use ok in \<open>simp_all add: logOf_def\<close>)
  then show ?thesis using that [of j st'] by (simp add: loadCollection_def same_disk_def)
qed

text \<open>
  C37. An interrupted append loses only what was not completely written. If the row log ends
  anywhere inside the bytes that writing a sequence of records produces, loading succeeds,
  holds exactly the effect of the records whose frames are complete, and leaves the log at the
  end of the last of them, ready for the next append.
\<close>

theorem loadCollection_recovers_torn_log:
  assumes "list_all (stored_ok columns (length dataBytes)) rs" and "cells_total rs \<le> MaxUint32"
  shows "\<exists>j st. j \<le> length rs \<and>
    loadCollection e columns gen frameFormatLengthCRC (take n (log_bytes frameFormatLengthCRC columns rs)) dataBytes =
      Returns (None, st) \<and>
    view st = fold (record_effect (length columns)) (take j rs) Map.empty \<and>
    rowsFile st = log_bytes frameFormatLengthCRC columns (take j rs) \<and> logSize st = length (rowsFile st) \<and>
    (j < length rs \<longrightarrow> n < length (log_bytes frameFormatLengthCRC columns (take (Suc j) rs)))"
  by (rule load_prefix [OF assms, of n e gen]) blast

lemma demo_stored_ok: "stored_ok demo_columns 0 (demo_record ''r'')"
proof -
  have "length (record_bytes demo_columns (demo_record ''r'')) \<le> MaxUint32"
    by (simp add: record_bytes_def demo_record_def demo_columns_def emptyRecord_def record_constants null_scalar_def
        appendString_def AppendVarint_def zigzag_def AppendUvarint.simps length_concat sum_list_replicate)
  then show ?thesis
    using demo_record_ok [of "''r''"] by (simp add: stored_ok_def demo_record_def emptyRecord_def)
qed

theorem loadCollection_recovers_torn_log_witness:
  "\<exists>j st. j \<le> length [demo_record ''r'', demo_record ''r''] \<and>
    loadCollection (null_scalar ScalarTypeString) demo_columns 0 frameFormatLengthCRC
      (take 70 (log_bytes frameFormatLengthCRC demo_columns [demo_record ''r'', demo_record ''r''])) [] = Returns (None, st) \<and>
    view st = fold (record_effect (length demo_columns)) (take j [demo_record ''r'', demo_record ''r'']) Map.empty \<and>
    rowsFile st = log_bytes frameFormatLengthCRC demo_columns (take j [demo_record ''r'', demo_record ''r'']) \<and>
    logSize st = length (rowsFile st) \<and>
    (j < length [demo_record ''r'', demo_record ''r''] \<longrightarrow>
      70 < length (log_bytes frameFormatLengthCRC demo_columns (take (Suc j) [demo_record ''r'', demo_record ''r''])))"
  by (rule loadCollection_recovers_torn_log)
     (simp_all add: demo_stored_ok, simp add: demo_record_def emptyRecord_def)

text \<open>
  A witness for the safety of replay: a log of four zero bytes is a cut-off header and is
  truncated.
\<close>

lemma replay_keeps_valid_frames_witness:
  "let st = emptyCollection (null_scalar ScalarTypeString) [] 0 1 (replicate 4 (CHR 0x00)) [];
       st' = st\<lparr>rowsFile := [], logSize := 0\<rparr>
   in replay st = Returns (None, st') \<and>
      (\<exists>n. rowsFile st' = take n (rowsFile st) \<and>
        (\<forall>t \<ge> damaged_end (rowsFile st) (FrameFormat st) n. \<not> valid_frame_at (rowsFile st) (FrameFormat st) t))"
proof -
  let ?st = "emptyCollection (null_scalar ScalarTypeString) [] 0 1 (replicate 4 (CHR 0x00)) []"
  have "replay ?st = Returns (None, ?st\<lparr>rowsFile := [], logSize := 0\<rparr>)"
    unfolding replay_def
    by (subst replay_loop.simps)
       (simp add: Let_def frameHeaderSize_def frameFormatLengthCRC_def lengthCheckedFrameHeaderBytes_def truncateRows_def)
  with replay_keeps_valid_frames [OF this] show ?thesis by (auto simp: Let_def min_def split: if_splits)
qed

end
