(* ===== verification/Codestore_Write.thy ===== *)
theory Codestore_Write
  imports Codestore_Log
begin

text \<open>
  Writing to a code collection (\<open>codestore/collection.go\<close>, \<open>codestore/compact.go\<close>): the
  append of records and their data with the failures of the file operations, the compaction of
  a generation, and reading a row's data back. A failing write leaves any part of its bytes in
  the file; whether the truncation after it succeeds is part of the fault.
\<close>

section \<open>Files\<close>

definition write_at :: "bytes \<Rightarrow> nat \<Rightarrow> bytes \<Rightarrow> bytes" where
  "write_at file pos bs =
     take pos file @ replicate (pos - length file) (CHR 0x00) @ bs @ drop (pos + length bs) file"

text \<open>\<open>ReadAt\<close> into a fresh buffer: a negative length panics, a short read is an error.\<close>

definition read_at :: "bytes \<Rightarrow> int \<Rightarrow> int \<Rightarrow> bytes option outcome" where
  "read_at file offset len =
     (if len < 0 then Panic
      else if offset < 0 \<or> (0 < len \<and> offset + len > int (length file)) then Returns None
      else Returns (Some (take (nat len) (drop (nat offset) file))))"

datatype fault =
    NoFault | DataWriteFault nat | DataSyncFault | LogSeekFault | LogWriteFault nat bool | LogSyncFault bool

section \<open>Appending records\<close>

fun place_blobs :: "nat \<Rightarrow> bytes \<Rightarrow> (rowRecord \<times> bytes option) list \<Rightarrow> rowRecord list \<times> bytes" where
  "place_blobs base buffer [] = ([], buffer)"
| "place_blobs base buffer ((r, None) # rest) =
     (let (rs, out) = place_blobs base buffer rest in (r # rs, out))"
| "place_blobs base buffer ((r, Some blob) # rest) =
     (if rec_kind r \<noteq> recordUpsert
      then let (rs, out) = place_blobs base buffer rest in (r # rs, out)
      else let r' = r\<lparr>rec_dataOffset := int (base + length buffer), rec_dataLength := int (length blob)\<rparr>;
               (rs, out) = place_blobs base (buffer @ blob) rest
           in (r' # rs, out))"

fun encode_log :: "ScalarColumn list \<Rightarrow> int \<Rightarrow> rowRecord list \<Rightarrow> bytes \<Rightarrow> (store_error + bytes) outcome" where
  "encode_log columns format [] buffer = Returns (Inr buffer)"
| "encode_log columns format (r # rs) buffer =
     and_then (encodeRecord r columns) (\<lambda>payload.
       case payload of
         None \<Rightarrow> Returns (Inl EncodeFailed)
       | Some payload \<Rightarrow>
           (case appendFrame buffer payload format of
              None \<Rightarrow> Returns (Inl FrameTooLong)
            | Some buffer \<Rightarrow> encode_log columns format rs buffer))"

definition write_data :: "fault \<Rightarrow> bytes \<Rightarrow> codeCollection \<Rightarrow> store_error option \<times> codeCollection" where
  "write_data fault dataBuffer st =
     (if dataBuffer = [] then (None, st)
      else case fault of
        DataWriteFault n \<Rightarrow>
          (Some DataWriteFailed, st\<lparr>dataFile := write_at (dataFile st) (dataSize st) (take n dataBuffer)\<rparr>)
      | DataSyncFault \<Rightarrow>
          (Some DataSyncFailed, st\<lparr>dataFile := write_at (dataFile st) (dataSize st) dataBuffer\<rparr>)
      | _ \<Rightarrow> (None, st\<lparr>dataFile := write_at (dataFile st) (dataSize st) dataBuffer,
                     dataSize := dataSize st + length dataBuffer\<rparr>))"

definition append_rows :: "fault \<Rightarrow> bytes \<Rightarrow> codeCollection \<Rightarrow> store_error option \<times> codeCollection" where
  "append_rows fault rowBuffer st =
     (let logEnd = length (rowsFile st);
          failed = (\<lambda>written truncated. (Some LogAppendFailed,
            st\<lparr>rowsFile := (if truncated then take logEnd (rowsFile st @ written) else rowsFile st @ written)\<rparr>))
      in case fault of
        LogSeekFault \<Rightarrow> (Some LogSeekFailed, st)
      | LogWriteFault n truncated \<Rightarrow> failed (take n rowBuffer) truncated
      | LogSyncFault truncated \<Rightarrow> failed rowBuffer truncated
      | _ \<Rightarrow> (None, st\<lparr>rowsFile := rowsFile st @ rowBuffer, logSize := logEnd + length rowBuffer\<rparr>))"

definition write_records ::
    "fault \<Rightarrow> (rowRecord \<times> bytes option) list \<Rightarrow> codeCollection \<Rightarrow> (store_error option \<times> codeCollection) outcome" where
  "write_records fault records st =
     (let (rs, dataBuffer) = place_blobs (dataSize st) [] records in
      and_then (encode_log (Scalars st) (FrameFormat st) rs []) (\<lambda>encoded.
        case encoded of
          Inl e \<Rightarrow> Returns (Some e, st)
        | Inr rowBuffer \<Rightarrow>
            (case write_data fault dataBuffer st of
               (Some e, st) \<Rightarrow> Returns (Some e, st)
             | (None, st) \<Rightarrow>
                 (case append_rows fault rowBuffer st of
                    (Some e, st) \<Rightarrow> Returns (Some e, st)
                  | (None, st) \<Rightarrow> apply_each apply_record rs st))))"

section \<open>Compaction\<close>

definition compactMinimumDead :: nat where "compactMinimumDead = 10000"

text \<open>The compacted row log, the compacted data and the new offsets of the rows read so far.\<close>

fun writeCompacted ::
    "codeCollection \<Rightarrow> nat list \<Rightarrow> bytes \<Rightarrow> bytes \<Rightarrow> int list \<Rightarrow> (bytes \<times> bytes \<times> int list) option outcome" where
  "writeCompacted st [] rowsOut dataOut offsets = Returns (Some (rowsOut, dataOut, offsets))"
| "writeCompacted st (position # rest) rowsOut dataOut offsets =
     and_then (recordOf position st) (\<lambda>r.
     and_then (read_at (dataFile st) (rec_dataOffset r) (rec_dataLength r)) (\<lambda>blob.
       case blob of
         None \<Rightarrow> Returns None
       | Some blob \<Rightarrow>
           (let offset = int (length dataOut); r = r\<lparr>rec_dataOffset := offset\<rparr> in
            and_then (encodeRecord r (Scalars st)) (\<lambda>payload.
              case payload of
                None \<Rightarrow> Returns None
              | Some payload \<Rightarrow>
                  (case appendFrame rowsOut payload frameFormatLengthCRC of
                     None \<Rightarrow> Returns None
                   | Some rowsOut \<Rightarrow>
                       writeCompacted st rest rowsOut (dataOut @ blob) (offsets @ [offset]))))))"

text \<open>
  The flag tells whether the operations on the new files up to the replacement of the header
  succeed; otherwise the new files are abandoned. What fails after the replacement changes the
  returned error only, which the caller ignores.
\<close>

definition compact :: "bool \<Rightarrow> codeCollection \<Rightarrow> (bool \<times> codeCollection) outcome" where
  "compact filesOk st =
     (if \<not> filesOk then Returns (False, st)
      else and_then (writeCompacted st [0..<length (rows st)] [] [] []) (\<lambda>written.
        case written of
          None \<Rightarrow> Returns (False, st)
        | Some (rowsOut, dataOut, offsets) \<Rightarrow>
            Returns (True, st\<lparr>Generation := Generation st + 1, FrameFormat := frameFormatLengthCRC,
              rowsFile := rowsOut, dataFile := dataOut, dataSize := length dataOut, logSize := length rowsOut,
              rows := map (\<lambda>(r, offset). r\<lparr>row_dataOffset := offset\<rparr>) (zip (rows st) offsets),
              dead := 0\<rparr>)))"

definition collection_write ::
    "fault \<Rightarrow> bool \<Rightarrow> (rowRecord \<times> bytes option) list \<Rightarrow> codeCollection \<Rightarrow> (store_error option \<times> codeCollection) outcome" where
  "collection_write fault filesOk records st =
     and_then (write_records fault records st) (\<lambda>(e, st).
       if e = None \<and> dead st > compactMinimumDead \<and> dead st > length (rows st)
       then and_then (compact filesOk st) (\<lambda>(_, st). Returns (None, st))
       else Returns (e, st))"

definition readBlob :: "nat \<Rightarrow> codeCollection \<Rightarrow> (store_error + bytes \<times> bytes) outcome" where
  "readBlob position st =
     (if position \<ge> length (rows st) then Panic
      else let current = rows st ! position in
        and_then (read_at (dataFile st) (row_dataOffset current) (row_dataLength current)) (\<lambda>blob.
          case blob of
            None \<Rightarrow> Returns (Inl BlobUnreadable)
          | Some blob \<Rightarrow>
              and_then (decodeBlob blob) (\<lambda>decoded.
                Returns (case decoded of None \<Rightarrow> Inl BlobMalformed | Some texts \<Rightarrow> Inr texts))))"

section \<open>Placed records\<close>

lemma appendFrame_eq:
  "appendFrame buffer payload format =
     (if length payload \<le> MaxUint32 then Some (buffer @ frame format payload) else None)"
  by (simp add: appendFrame_frame) (simp add: appendFrame_def)

lemma encode_log_cases:
  assumes "list_all (record_ok columns) rs"
  shows "encode_log columns format rs buffer =
    Returns (if list_all (\<lambda>r. length (record_bytes columns r) \<le> MaxUint32) rs
             then Inr (buffer @ log_bytes format columns rs) else Inl FrameTooLong)"
  using assms
  by (induction rs arbitrary: buffer)
     (auto simp: encodeRecord_bytes appendFrame_eq)

definition blob_of :: "bytes \<Rightarrow> rowRecord \<Rightarrow> bytes" where
  "blob_of file r = take (nat (rec_dataLength r)) (drop (nat (rec_dataOffset r)) file)"

definition blobs_length :: "(rowRecord \<times> bytes option) list \<Rightarrow> nat" where
  "blobs_length ps = sum_list (map (\<lambda>(r, blob). case blob of None \<Rightarrow> 0 | Some b \<Rightarrow> length b) ps)"

text \<open>A record as the store hands it to \<open>write\<close>: with new data, or referring to data it has.\<close>

definition writable :: "ScalarColumn list \<Rightarrow> nat \<Rightarrow> rowRecord \<times> bytes option \<Rightarrow> bool" where
  "writable columns n p \<longleftrightarrow> record_ok columns (fst p) \<and>
     (case snd p of None \<Rightarrow> rec_dataOffset (fst p) + rec_dataLength (fst p) \<le> int n
      | Some _ \<Rightarrow> rec_kind (fst p) = recordUpsert)"

lemma blobs_length_simps [simp]:
  "blobs_length [] = 0" "blobs_length ((r, None) # ps) = blobs_length ps"
  "blobs_length ((r, Some b) # ps) = length b + blobs_length ps"
  by (simp_all add: blobs_length_def)

text \<open>Where a placed record lies, relative to the buffer the blobs were collected in.\<close>

definition placed :: "nat \<Rightarrow> bytes \<Rightarrow> rowRecord \<times> bytes option \<Rightarrow> rowRecord \<Rightarrow> bool" where
  "placed base out p r \<longleftrightarrow>
     (case snd p of
        None \<Rightarrow> r = fst p
      | Some b \<Rightarrow> \<exists>n. r = (fst p)\<lparr>rec_dataOffset := int (base + n), rec_dataLength := int (length b)\<rparr> \<and>
          n + length b \<le> length out \<and> take (length b) (drop n out) = b)"

lemma place_blobs_placed:
  "list_all (\<lambda>p. snd p \<noteq> None \<longrightarrow> rec_kind (fst p) = recordUpsert) ps \<Longrightarrow>
   place_blobs base buffer ps = (rs, out) \<Longrightarrow>
   (\<exists>tail. out = buffer @ tail \<and> length tail = blobs_length ps) \<and> list_all2 (placed base out) ps rs"
proof (induction ps arbitrary: buffer rs out)
  case Nil
  then show ?case by simp
next
  case (Cons p ps)
  obtain r blob where p: "p = (r, blob)" by (cases p)
  show ?case
  proof (cases blob)
    case None
    obtain rs1 where "place_blobs base buffer ps = (rs1, out)" "rs = r # rs1"
      using Cons.prems(2) p None by (auto split: prod.splits)
    with Cons.IH [of buffer rs1 out] Cons.prems(1) p None show ?thesis by (auto simp: placed_def)
  next
    case (Some b)
    let ?r = "r\<lparr>rec_dataOffset := int (base + length buffer), rec_dataLength := int (length b)\<rparr>"
    have "rec_kind r = recordUpsert" using Cons.prems(1) p Some by simp
    then obtain rs1 where r1: "place_blobs base (buffer @ b) ps = (rs1, out)" "rs = ?r # rs1"
      using Cons.prems(2) p Some by (auto simp: Let_def split: prod.splits)
    from Cons.IH [OF _ r1(1)] Cons.prems(1) obtain tail where tail: "out = (buffer @ b) @ tail"
      "length tail = blobs_length ps" "list_all2 (placed base out) ps rs1" by auto
    then have "placed base out p ?r" using p Some by (auto simp: placed_def)
    with tail r1(2) p Some show ?thesis by simp
  qed
qed

lemma placed_ok:
  assumes "placed base out p r" "writable columns base p" "int (base + length out) \<le> MaxInt64"
  shows "record_ok columns r" "rec_dataOffset r + rec_dataLength r \<le> int (base + length out)"
    "rec_cells r = rec_cells (fst p)"
proof -
  have "record_ok columns r \<and> rec_dataOffset r + rec_dataLength r \<le> int (base + length out) \<and>
      rec_cells r = rec_cells (fst p)"
  proof (cases "snd p")
    case None
    with assms show ?thesis by (auto simp: placed_def writable_def)
  next
    case (Some b)
    with assms(1) obtain n where r: "r = (fst p)\<lparr>rec_dataOffset := int (base + n), rec_dataLength := int (length b)\<rparr>"
      "n + length b \<le> length out" by (auto simp: placed_def)
    have "record_ok columns (fst p)" "rec_kind (fst p) = recordUpsert"
      using assms(2) Some by (simp_all add: writable_def)
    with r assms(3) show ?thesis by (simp add: record_ok_def record_constants)
  qed
  then show "record_ok columns r" "rec_dataOffset r + rec_dataLength r \<le> int (base + length out)"
    "rec_cells r = rec_cells (fst p)" by simp_all
qed

lemma place_blobs_ok:
  assumes "list_all (writable columns base) ps" "int (base + blobs_length ps) \<le> MaxInt64"
    and "place_blobs base [] ps = (rs, out)"
  shows "length out = blobs_length ps" "list_all2 (placed base out) ps rs" "list_all (record_ok columns) rs"
    "list_all (\<lambda>r. rec_dataOffset r + rec_dataLength r \<le> int (base + length out)) rs"
    "cells_total rs = cells_total (map fst ps)"
proof -
  have up: "list_all (\<lambda>p. snd p \<noteq> None \<longrightarrow> rec_kind (fst p) = recordUpsert) ps"
    using assms(1) by (auto simp: list_all_iff writable_def split: option.splits)
  from place_blobs_placed [OF up assms(3)] show out: "length out = blobs_length ps"
    and pl: "list_all2 (placed base out) ps rs" by auto
  have each: "record_ok columns r \<and> rec_dataOffset r + rec_dataLength r \<le> int (base + length out) \<and>
      rec_cells r = rec_cells (fst p)" if "placed base out p r" "p \<in> set ps" for p r
  proof -
    have "writable columns base p" using assms(1) that(2) by (simp add: list_all_iff)
    moreover have "int (base + length out) \<le> MaxInt64" using assms(2) out by simp
    ultimately show ?thesis using placed_ok [OF that(1)] by blast
  qed
  have idx: "\<exists>p \<in> set ps. placed base out p r" if "r \<in> set rs" for r
    using pl that by (metis in_set_conv_nth list_all2_conv_all_nth)
  show "list_all (record_ok columns) rs"
    "list_all (\<lambda>r. rec_dataOffset r + rec_dataLength r \<le> int (base + length out)) rs"
    unfolding list_all_iff using each idx by blast+
  have "list_all2 (\<lambda>p r. rec_cells r = rec_cells (fst p)) ps rs"
    using list.rel_mono_strong [OF pl, of "\<lambda>p r. rec_cells r = rec_cells (fst p)"] each by blast
  then show "cells_total rs = cells_total (map fst ps)"
    by (induction rule: list_all2_induct) simp_all
qed

section \<open>What a write leaves on disk\<close>

lemma write_at_facts:
  assumes "pos \<le> length f"
  shows "take pos (write_at f pos bs) = take pos f" "length (write_at f pos bs) = max (length f) (pos + length bs)"
    "write_at f pos bs = take pos f @ bs @ drop (pos + length bs) f" "write_at f pos [] = f"
  using assms by (simp_all add: write_at_def)

text \<open>The data file after a write of \<open>out\<close> at \<open>base\<close>, complete or not.\<close>

definition data_after :: "bytes \<Rightarrow> nat \<Rightarrow> bytes \<Rightarrow> bytes \<Rightarrow> bool" where
  "data_after f base out f' \<longleftrightarrow> take base f' = take base f \<and> length f \<le> length f' \<and>
     length f' \<le> max (length f) (base + length out)"

lemma write_data_after:
  assumes "dataSize st \<le> length (dataFile st)" "write_data fault out st = (e, st')"
  shows "\<exists>f' d'. st' = st\<lparr>dataFile := f', dataSize := d'\<rparr> \<and> data_after (dataFile st) (dataSize st) out f' \<and>
    dataSize st \<le> d' \<and> d' \<le> length f' \<and>
    (e = None \<longrightarrow> f' = write_at (dataFile st) (dataSize st) out \<and> d' = dataSize st + length out)"
proof (cases "out = []")
  case True
  with assms show ?thesis
    by (intro exI [of _ "dataFile st"] exI [of _ "dataSize st"]) (auto simp: write_data_def data_after_def write_at_facts)
next
  case False
  have after: "data_after (dataFile st) (dataSize st) out (write_at (dataFile st) (dataSize st) (take n out))" for n
    unfolding data_after_def write_at_facts(1,2) [OF assms(1)] by auto
  note all = after [of "length out"]
  have long: "dataSize st \<le> length (write_at (dataFile st) (dataSize st) bs)"
    "dataSize st + length bs \<le> length (write_at (dataFile st) (dataSize st) bs)" for bs
    unfolding write_at_facts(2) [OF assms(1)] by simp_all
  have same: "st\<lparr>dataFile := f'\<rparr> = st\<lparr>dataFile := f', dataSize := dataSize st\<rparr>" for f' by simp
  show ?thesis
  proof (cases fault)
    case (DataWriteFault n)
    then show ?thesis
      using False assms(2) after [of n] same [of "write_at (dataFile st) (dataSize st) (take n out)"] long(1)
      by (intro exI [of _ "write_at (dataFile st) (dataSize st) (take n out)"] exI [of _ "dataSize st"]) (auto simp: write_data_def)
  next
    case DataSyncFault
    then show ?thesis
      using False assms(2) all same [of "write_at (dataFile st) (dataSize st) out"] long(1)
      by (intro exI [of _ "write_at (dataFile st) (dataSize st) out"] exI [of _ "dataSize st"]) (auto simp: write_data_def)
  qed (use False assms(2) all long(2) [of out] in \<open>auto simp: write_data_def\<close>)
qed

lemma append_rows_after:
  assumes "append_rows fault buf st = (e, st')"
  shows "\<exists>n l. st' = st\<lparr>rowsFile := rowsFile st @ take n buf, logSize := l\<rparr> \<and>
    (e = None \<longrightarrow> take n buf = buf \<and> l = length (rowsFile st) + length buf)"
proof -
  have part: "\<exists>n' l. st\<lparr>rowsFile := rowsFile st @ take n buf\<rparr> = st\<lparr>rowsFile := rowsFile st @ take n' buf, logSize := l\<rparr>" for n
    by (intro exI [of _ n] exI [of _ "logSize st"]) simp
  have none: "\<exists>n l. st = st\<lparr>rowsFile := rowsFile st @ take n buf, logSize := l\<rparr>"
    by (intro exI [of _ 0] exI [of _ "logSize st"]) simp
  show ?thesis
  proof (cases fault)
    case LogSeekFault
    with assms have "st' = st" "e \<noteq> None" by (auto simp: append_rows_def)
    with none show ?thesis by metis
  next
    case (LogWriteFault n truncated)
    with assms have "st' = (if truncated then st else st\<lparr>rowsFile := rowsFile st @ take n buf\<rparr>)" "e \<noteq> None"
      by (auto simp: append_rows_def Let_def)
    with none part [of n] show ?thesis by (cases truncated) (simp_all only: if_True if_False, metis+)
  next
    case (LogSyncFault truncated)
    with assms have "st' = (if truncated then st else st\<lparr>rowsFile := rowsFile st @ take (length buf) buf\<rparr>)" "e \<noteq> None"
      by (auto simp: append_rows_def Let_def)
    with none part [of "length buf"] show ?thesis by (cases truncated) (simp_all only: if_True if_False, metis+)
  qed (use assms in \<open>auto simp: append_rows_def Let_def intro!: exI [of _ "length buf"]\<close>)
qed

text \<open>The records whose frames make up the row log, and which the collection holds.\<close>

definition on_disk :: "rowRecord list \<Rightarrow> codeCollection \<Rightarrow> bool" where
  "on_disk rs st \<longleftrightarrow> rowsFile st = log_bytes (FrameFormat st) (Scalars st) rs \<and>
     dataSize st \<le> length (dataFile st) \<and> list_all (stored_ok (Scalars st) (dataSize st)) rs \<and>
     view st = fold (record_effect (length (Scalars st))) rs Map.empty"

lemma collection_inv_less: "collection_inv m st \<Longrightarrow> k \<le> m \<Longrightarrow> collection_inv k st"
  by (auto simp: collection_inv_def room_def)

lemma write_records_outcome:
  assumes inv: "collection_inv (cells_total (map fst ps) + k) st"
    and base: "dataSize st \<le> length (dataFile st)" and ok: "list_all (writable (Scalars st) (dataSize st)) ps"
    and fits: "int (dataSize st + blobs_length ps) \<le> MaxInt64"
    and pl: "place_blobs (dataSize st) [] ps = (new, out)"
  obtains e st' n where "write_records fault ps st = Returns (e, st')"
    "rowsFile st' = rowsFile st @ take n (log_bytes (FrameFormat st) (Scalars st) new)"
    "data_after (dataFile st) (dataSize st) out (dataFile st')"
    "Scalars st' = Scalars st" "FrameFormat st' = FrameFormat st" "Generation st' = Generation st"
    "n > 0 \<Longrightarrow> list_all (\<lambda>r. length (record_bytes (Scalars st) r) \<le> MaxUint32) new"
    "n > 0 \<Longrightarrow> dataFile st' = write_at (dataFile st) (dataSize st) out"
    "e \<noteq> None \<Longrightarrow> view st' = view st"
    "collection_inv k st'" "columnIndex st' = columnIndex st" "dataSize st \<le> dataSize st'" "dataSize st' \<le> length (dataFile st')"
    "fault = NoFault \<Longrightarrow> e = None \<or> e = Some FrameTooLong"
    "e = None \<Longrightarrow> n = Suc (length (log_bytes (FrameFormat st) (Scalars st) new)) \<and> collection_inv k st' \<and>
       dataSize st' = dataSize st + length out \<and> dataFile st' = write_at (dataFile st) (dataSize st) out \<and>
       logSize st' = length (rowsFile st') \<and> view st' = fold (record_effect (length (Scalars st))) new (view st)"
proof -
  note pk = place_blobs_ok [OF ok fits pl]
  let ?small = "list_all (\<lambda>r. length (record_bytes (Scalars st) r) \<le> MaxUint32) new"
  let ?buf = "log_bytes (FrameFormat st) (Scalars st) new"
  note enc = encode_log_cases [OF pk(3), of "FrameFormat st" "[]"]
  have refl_after: "data_after (dataFile st) (dataSize st) out (dataFile st)" by (simp add: data_after_def)
  have inv_k: "collection_inv k st" using inv by (rule collection_inv_less) simp
  have no_fault: "fst (write_data NoFault bs s) = None" "fst (append_rows NoFault bs s) = None" for bs s
    by (simp_all add: write_data_def append_rows_def Let_def)
  show ?thesis
  proof (cases ?small)
    case False
    then have "write_records fault ps st = Returns (Some FrameTooLong, st)"
      using enc pl by (simp add: write_records_def)
    then show ?thesis using refl_after inv_k base by (intro that [of "Some FrameTooLong" st 0]) simp_all
  next
    case small: True
    obtain e1 st1 where w1: "write_data fault out st = (e1, st1)" by (cases "write_data fault out st")
    obtain f' d' where st1: "st1 = st\<lparr>dataFile := f', dataSize := d'\<rparr>" "data_after (dataFile st) (dataSize st) out f'"
      "dataSize st \<le> d'" "d' \<le> length f'"
      "e1 = None \<Longrightarrow> f' = write_at (dataFile st) (dataSize st) out \<and> d' = dataSize st + length out"
      using write_data_after [OF base w1] by blast
    show ?thesis
    proof (cases e1)
      case (Some err)
      then have "write_records fault ps st = Returns (Some err, st1)"
        using enc pl small w1 by (simp add: write_records_def)
      then show ?thesis using st1 inv_k w1 Some no_fault(1) [of out st] by (intro that [of "Some err" st1 0]) auto
    next
      case None
      obtain e2 st2 where w2: "append_rows fault ?buf st1 = (e2, st2)" by (cases "append_rows fault ?buf st1")
      obtain n l where st2: "st2 = st1\<lparr>rowsFile := rowsFile st1 @ take n ?buf, logSize := l\<rparr>"
        "e2 = None \<Longrightarrow> take n ?buf = ?buf \<and> l = length (rowsFile st1) + length ?buf"
        using append_rows_after [OF w2] by blast
      show ?thesis
      proof (cases e2)
        case (Some err)
        then have "write_records fault ps st = Returns (Some err, st2)"
          using enc pl small w1 None w2 by (simp add: write_records_def)
        then show ?thesis using st1 st2 None small inv_k w2 Some no_fault(2) [of ?buf st1]
          by (intro that [of "Some err" st2 n]) auto
      next
        case ok2: None
        have "collection_inv (cells_total new + k) st2" using inv pk(5) by (simp add: st2(1) st1(1))
        moreover have "list_all (record_ok (Scalars st2)) new" using pk(3) by (simp add: st2(1) st1(1))
        ultimately obtain st3 where st3: "apply_each apply_record new st2 = Returns (None, st3)" "collection_inv k st3"
          "same_disk st2 st3" "view st3 = fold (record_effect (length (Scalars st2))) new (view st2)"
          using records.run by blast
        have "write_records fault ps st = Returns (None, st3)"
          using enc pl small w1 None w2 ok2 st3(1) by (simp add: write_records_def)
        then show ?thesis
          using st1 st2 st3 None ok2 small
          by (intro that [of None st3 "Suc (length ?buf)"]) (simp_all add: same_disk_def)
      qed
    qed
  qed
qed

lemma fold_effect_source:
  "fold (record_effect m) rs f i = Some r \<Longrightarrow>
   f i = Some r \<or> (\<exists>r0 \<in> set rs. rec_dataOffset r = rec_dataOffset r0 \<and> rec_dataLength r = rec_dataLength r0)"
proof (induction rs arbitrary: f)
  case (Cons r0 rs)
  then have "record_effect m r0 f i = Some r \<or>
      (\<exists>r1 \<in> set rs. rec_dataOffset r = rec_dataOffset r1 \<and> rec_dataLength r = rec_dataLength r1)" by simp
  then show ?case by (auto simp: record_effect_def split: if_splits)
qed simp

lemma on_disk_within:
  assumes "on_disk rs st" "view st i = Some r"
  shows "rec_dataOffset r + rec_dataLength r \<le> int (dataSize st)"
  using assms fold_effect_source [of "length (Scalars st)" rs Map.empty i r]
  by (fastforce simp: on_disk_def list_all_iff stored_ok_def)

lemma blob_of_same_prefix:
  assumes "take base f' = take base f" "rec_dataOffset r + rec_dataLength r \<le> int base"
    "0 \<le> rec_dataOffset r" "0 \<le> rec_dataLength r"
  shows "blob_of f' r = blob_of f r"
proof -
  let ?o = "nat (rec_dataOffset r)" and ?l = "nat (rec_dataLength r)"
  have "?l \<le> base - ?o" using assms(2-4) by linarith
  then have "take ?l (drop ?o g) = take ?l (drop ?o (take base g))" for g :: bytes
    by (simp add: drop_take min.absorb1)
  then show ?thesis unfolding blob_of_def using assms(1) by metis
qed

lemma view_record_ok:
  assumes "collection_inv k st" "view st i = Some r"
  shows "record_ok (Scalars st) r" "rec_id r = i" "rec_kind r = recordUpsert"
proof -
  from assms(2) obtain p where p: "map_of (byID st) i = Some p"
    "r = row_record (dictionaries st) (rows st ! p) (codes st ! p)" by (auto simp: view_def)
  have ix: "index_ok st" and rk: "rows_ok st" using assms(1) by (simp_all add: collection_inv_def)
  have q: "p < length (rows st)" "row_id (rows st ! p) = i" using index_okD(2) [OF ix] p(1) by auto
  from q(1) rk show "record_ok (Scalars st) r" unfolding p(2) rows_ok_def by simp
  from q(2) show "rec_id r = i" "rec_kind r = recordUpsert"
    unfolding p(2) by (simp_all add: row_record_def emptyRecord_def)
qed

lemma upsert_ranges:
  "record_ok columns r \<Longrightarrow> 0 \<le> rec_dataOffset r \<and> 0 \<le> rec_dataLength r"
proof (cases "rec_kind r = recordDelete")
  case True
  assume "record_ok columns r"
  with True have r: "r = emptyRecord recordDelete (rec_id r)" by (simp add: record_ok_def)
  show ?thesis by (subst (1 2) r) (simp add: emptyRecord_def)
qed (simp add: record_ok_def)

lemma stored_ok_mono: "stored_ok columns a r \<Longrightarrow> a \<le> b \<Longrightarrow> int b \<le> MaxInt64 \<Longrightarrow> stored_ok columns b r"
  by (simp add: stored_ok_def)

lemma load_appended:
  assumes "list_all (stored_ok columns (length dataBytes)) (rs @ new)" "cells_total (rs @ new) \<le> MaxUint32"
    and "rowBytes = log_bytes frameFormatLengthCRC columns rs @ take n (log_bytes frameFormatLengthCRC columns new)"
  obtains j st where "j \<le> length new"
    "loadCollection e columns gen frameFormatLengthCRC rowBytes dataBytes = Returns (None, st)"
    "view st = fold (record_effect (length columns)) (take j new) (fold (record_effect (length columns)) rs Map.empty)"
    "n \<ge> length (log_bytes frameFormatLengthCRC columns new) \<Longrightarrow> j = length new"
proof -
  let ?log = "log_bytes frameFormatLengthCRC columns"
  define N where "N = length (?log rs) + n"
  have rows: "rowBytes = take N (?log (rs @ new))" using assms(3) by (simp add: N_def)
  obtain j st where j: "j \<le> length (rs @ new)" "j < length (rs @ new) \<Longrightarrow> N < length (?log (take (Suc j) (rs @ new)))"
    "loadCollection e columns gen frameFormatLengthCRC (take N (?log (rs @ new))) dataBytes = Returns (None, st)"
    "view st = fold (record_effect (length columns)) (take j (rs @ new)) Map.empty"
    "N \<ge> length (?log (rs @ new)) \<Longrightarrow> j = length (rs @ new)"
    by (rule load_prefix [OF assms(1,2), of N e gen]) blast
  have "j \<ge> length rs"
  proof (rule ccontr)
    assume less: "\<not> length rs \<le> j"
    then have t: "take (Suc j) (rs @ new) = take (Suc j) rs" by simp
    have "?log rs = ?log (take (Suc j) rs) @ ?log (drop (Suc j) rs)"
      by (metis append_take_drop_id log_bytes_simps(3))
    from arg_cong [OF this, of length] have "length (?log (take (Suc j) (rs @ new))) \<le> length (?log rs)"
      unfolding t by simp
    with j(2) less show False by (simp add: N_def)
  qed
  then have "take j (rs @ new) = rs @ take (j - length rs) new" by simp
  with j rows show ?thesis
    by (intro that [of "j - length rs" st]) (simp_all add: N_def)
qed

lemma load_after_write:
  assumes log: "rowsFile st' = log_bytes frameFormatLengthCRC cols rs @ take n (log_bytes frameFormatLengthCRC cols new)"
    and rs_ok: "list_all (stored_ok cols (length (dataFile st'))) rs"
    and new_ok: "0 < n \<Longrightarrow> list_all (stored_ok cols (length (dataFile st'))) new"
    and cells: "cells_total rs + cells_total new \<le> MaxUint32"
  obtains j st'' where "j \<le> length new"
    "loadCollection emptyScalar cols gen frameFormatLengthCRC (rowsFile st') (dataFile st') = Returns (None, st'')"
    "view st'' = fold (record_effect (length cols)) (take j new) (fold (record_effect (length cols)) rs Map.empty)"
    "0 < n \<Longrightarrow> n \<ge> length (log_bytes frameFormatLengthCRC cols new) \<Longrightarrow> j = length new"
proof (cases "n = 0")
  case True
  have "list_all (stored_ok cols (length (dataFile st'))) (rs @ [])" "cells_total (rs @ []) \<le> MaxUint32"
    using cells rs_ok by simp_all
  note cond = this
  obtain j st'' where "j \<le> length ([] :: rowRecord list)"
    "loadCollection emptyScalar cols gen frameFormatLengthCRC (rowsFile st') (dataFile st') = Returns (None, st'')"
    "view st'' = fold (record_effect (length cols)) (take j []) (fold (record_effect (length cols)) rs Map.empty)"
    by (rule load_appended [OF cond, of "rowsFile st'" 0 emptyScalar gen]) (use log True in auto)
  then show ?thesis using that [of 0 st''] True by simp
next
  case False
  have "list_all (stored_ok cols (length (dataFile st'))) (rs @ new)" "cells_total (rs @ new) \<le> MaxUint32"
    using cells rs_ok new_ok False by simp_all
  then show ?thesis
    by (rule load_appended [of cols "dataFile st'" rs new "rowsFile st'" n emptyScalar gen]) (use log that in auto)
qed



section \<open>Compaction keeps the contents\<close>

text \<open>What a reader of the collection sees of a row: everything but the place of its data.\<close>

definition contents :: "codeCollection \<Rightarrow> bytes \<Rightarrow> (rowRecord \<times> bytes) option" where
  "contents st i = map_option (\<lambda>r. (r\<lparr>rec_dataOffset := 0\<rparr>, blob_of (dataFile st) r)) (view st i)"

abbreviation record_at :: "codeCollection \<Rightarrow> nat \<Rightarrow> rowRecord" where
  "record_at st p \<equiv> row_record (dictionaries st) (rows st ! p) (codes st ! p)"

fun compacted :: "codeCollection \<Rightarrow> nat list \<Rightarrow> nat \<Rightarrow> rowRecord list" where
  "compacted st [] base = []"
| "compacted st (p # ps) base =
     (record_at st p)\<lparr>rec_dataOffset := int base\<rparr> # compacted st ps (base + nat (rec_dataLength (record_at st p)))"

definition compacted_data :: "codeCollection \<Rightarrow> nat list \<Rightarrow> bytes" where
  "compacted_data st ps = concat (map (\<lambda>p. blob_of (dataFile st) (record_at st p)) ps)"

text \<open>Every row can be read: its record is well-formed and its data lies in the data file.\<close>

definition readable :: "codeCollection \<Rightarrow> nat \<Rightarrow> bool" where
  "readable st p \<longleftrightarrow> p < length (rows st) \<and> recordOf p st = Returns (record_at st p) \<and>
     record_ok (Scalars st) (record_at st p) \<and>
     rec_dataOffset (record_at st p) + rec_dataLength (record_at st p) \<le> int (length (dataFile st))"

lemma length_compacted [simp]: "length (compacted st ps base) = length ps"
  by (induction ps arbitrary: base) simp_all

lemma readable_read:
  assumes "readable st p"
  shows "read_at (dataFile st) (rec_dataOffset (record_at st p)) (rec_dataLength (record_at st p)) =
      Returns (Some (blob_of (dataFile st) (record_at st p)))"
    "length (blob_of (dataFile st) (record_at st p)) = nat (rec_dataLength (record_at st p))"
proof -
  have "0 \<le> rec_dataOffset (record_at st p)" "0 \<le> rec_dataLength (record_at st p)"
    using assms upsert_ranges by (auto simp: readable_def)
  then show "read_at (dataFile st) (rec_dataOffset (record_at st p)) (rec_dataLength (record_at st p)) =
      Returns (Some (blob_of (dataFile st) (record_at st p)))"
    "length (blob_of (dataFile st) (record_at st p)) = nat (rec_dataLength (record_at st p))"
    using assms by (auto simp: readable_def read_at_def blob_of_def min_def)
qed

lemma compacted_ok:
  "list_all (readable st) ps \<Longrightarrow> int (base + length (compacted_data st ps)) \<le> MaxInt64 \<Longrightarrow>
   list_all (record_ok (Scalars st)) (compacted st ps base) \<and>
   list_all (\<lambda>r. rec_dataOffset r + rec_dataLength r \<le> int (base + length (compacted_data st ps))) (compacted st ps base)"
proof (induction ps arbitrary: base)
  case (Cons p ps)
  let ?r = "record_at st p"
  have p: "readable st p" using Cons.prems(1) by simp
  have len: "length (blob_of (dataFile st) ?r) = nat (rec_dataLength ?r)" using readable_read(2) [OF p] .
  have up: "rec_kind ?r = recordUpsert" by (simp add: row_record_def emptyRecord_def)
  have ok: "record_ok (Scalars st) ?r" "0 \<le> rec_dataLength ?r" using p upsert_ranges by (auto simp: readable_def)
  have "record_ok (Scalars st) (?r\<lparr>rec_dataOffset := int base\<rparr>)"
    using ok(1) up Cons.prems(2) by (simp add: record_ok_def record_constants compacted_data_def)
  moreover have "int base + rec_dataLength ?r \<le> int (base + length (compacted_data st (p # ps)))"
    using len ok(2) by (simp add: compacted_data_def)
  moreover have eq: "base + nat (rec_dataLength ?r) + length (compacted_data st ps) =
      base + length (compacted_data st (p # ps))"
    using len by (simp add: compacted_data_def)
  have "int (base + nat (rec_dataLength ?r) + length (compacted_data st ps)) \<le> MaxInt64"
    unfolding eq by (rule Cons.prems(2))
  with Cons.IH [of "base + nat (rec_dataLength ?r)"] Cons.prems(1)
  have "list_all (record_ok (Scalars st)) (compacted st ps (base + nat (rec_dataLength ?r))) \<and>
      list_all (\<lambda>r. rec_dataOffset r + rec_dataLength r \<le> int (base + length (compacted_data st (p # ps))))
        (compacted st ps (base + nat (rec_dataLength ?r)))"
    unfolding eq by simp
  ultimately show ?case by simp
qed simp

lemma writeCompacted_result:
  "list_all (readable st) ps \<Longrightarrow> int (length dataOut + length (compacted_data st ps)) \<le> MaxInt64 \<Longrightarrow>
   writeCompacted st ps rowsOut dataOut offsets =
     Returns (if list_all (\<lambda>r. length (record_bytes (Scalars st) r) \<le> MaxUint32) (compacted st ps (length dataOut))
       then Some (rowsOut @ log_bytes frameFormatLengthCRC (Scalars st) (compacted st ps (length dataOut)),
                  dataOut @ compacted_data st ps, offsets @ map rec_dataOffset (compacted st ps (length dataOut)))
       else None)"
proof (induction ps arbitrary: rowsOut dataOut offsets)
  case Nil
  then show ?case by (simp add: compacted_data_def)
next
  case (Cons p ps)
  let ?r = "record_at st p" and ?b = "blob_of (dataFile st) (record_at st p)"
  let ?r' = "?r\<lparr>rec_dataOffset := int (length dataOut)\<rparr>"
  have p: "readable st p" using Cons.prems(1) by simp
  note rd = readable_read [OF p]
  have data: "compacted_data st (p # ps) = ?b @ compacted_data st ps" by (simp add: compacted_data_def)
  have "record_ok (Scalars st) ?r'"
    using compacted_ok [OF Cons.prems] by simp
  note enc = encodeRecord_bytes [OF this]
  have IH: "writeCompacted st ps rowsOut' (dataOut @ ?b) offsets' =
     Returns (if list_all (\<lambda>r. length (record_bytes (Scalars st) r) \<le> MaxUint32) (compacted st ps (length (dataOut @ ?b)))
       then Some (rowsOut' @ log_bytes frameFormatLengthCRC (Scalars st) (compacted st ps (length (dataOut @ ?b))),
                  (dataOut @ ?b) @ compacted_data st ps, offsets' @ map rec_dataOffset (compacted st ps (length (dataOut @ ?b))))
       else None)" for rowsOut' offsets'
    by (rule Cons.IH) (use Cons.prems data in simp_all)
  have "recordOf p st = Returns ?r" using p by (simp add: readable_def)
  then show ?case
    using rd enc IH data by (simp add: appendFrame_eq Let_def)
qed

lemma compacted_nth:
  "i < length ps \<Longrightarrow> \<exists>b. compacted st ps base ! i = (record_at st (ps ! i))\<lparr>rec_dataOffset := int b\<rparr>"
proof (induction ps arbitrary: base i)
  case (Cons p ps)
  then show ?case by (cases i) auto
qed simp

lemma blob_of_here:
  "length b = nat (rec_dataLength r) \<Longrightarrow> blob_of (pre @ b @ rest) (r\<lparr>rec_dataOffset := int (length pre)\<rparr>) = b"
  by (simp add: blob_of_def)

lemma compacted_blob:
  "list_all (readable st) ps \<Longrightarrow> i < length ps \<Longrightarrow>
   blob_of (pre @ compacted_data st ps) (compacted st ps (length pre) ! i) = blob_of (dataFile st) (record_at st (ps ! i))"
proof (induction ps arbitrary: pre i)
  case (Cons p ps)
  let ?b = "blob_of (dataFile st) (record_at st p)"
  have len: "length ?b = nat (rec_dataLength (record_at st p))"
    using Cons.prems(1) readable_read(2) by simp
  have data: "pre @ compacted_data st (p # ps) = (pre @ ?b) @ compacted_data st ps" by (simp add: compacted_data_def)
  show ?case
  proof (cases i)
    case 0
    then show ?thesis unfolding data using blob_of_here [OF len] by simp
  next
    case (Suc n)
    with Cons.IH [of n "pre @ ?b"] Cons.prems len show ?thesis unfolding data by simp
  qed
qed simp

lemma inv_readable:
  assumes inv: "collection_inv k st" and p: "p < length (rows st)"
    and within: "\<And>i r. view st i = Some r \<Longrightarrow> rec_dataOffset r + rec_dataLength r \<le> int (length (dataFile st))"
  shows "readable st p"
proof -
  have ix: "index_ok st" and ck: "cells_ok st" and rk: "rows_ok st" using inv by (simp_all add: collection_inv_def)
  have "view st (row_id (rows st ! p)) = Some (record_at st p)"
    using index_okD(3) [OF ix p] by (simp add: view_def)
  note w = within [OF this]
  have rok: "row_ok (dictionaries st) (rows st ! p)" using ck p by (simp add: cells_ok_def list_all_length)
  have "\<not> list_ex (\<lambda>(column, i). i \<noteq> 0 \<and>
      (column \<ge> length (dictionaries st) \<or> i \<ge> length (dict_values (dictionaries st ! column))))
    (enumerate 0 (row_cells (rows st ! p)))"
    using rok by (auto simp: list_ex_iff in_set_enumerate_eq row_ok_def)
  then have "recordOf p st = Returns (record_at st p)"
    using p index_okD(1) [OF ix] unfolding recordOf_def by simp
  with w p rk show ?thesis by (simp add: readable_def rows_ok_def)
qed

lemma last_cell_notin: "c \<notin> cell_column ` set xs \<Longrightarrow> last_cell xs c = None"
  by (induction xs) auto

lemma last_cell_distinct:
  "distinct (map cell_column xs) \<Longrightarrow> x \<in> set xs \<Longrightarrow> last_cell xs (cell_column x) = Some (cell_scalar x)"
proof (induction xs)
  case (Cons a xs)
  show ?case
  proof (cases "x \<in> set xs")
    case True
    with Cons show ?thesis by simp
  next
    case False
    with Cons.prems have "x = a" "cell_column a \<notin> cell_column ` set xs" by auto
    then show ?thesis using last_cell_notin [of "cell_column a" xs] by simp
  qed
qed simp

lemma stored_cells_form:
  "stored_cells dicts cells =
     map (\<lambda>c. \<lparr>cell_column = c, cell_scalar = dict_values (dicts ! c) ! (cells ! c)\<rparr>)
       (filter (\<lambda>c. cells ! c \<noteq> 0) [0..<length cells])"
proof -
  have e: "enumerate 0 cells = map (\<lambda>c. (c, cells ! c)) [0..<length cells]"
    by (rule nth_equalityI) (simp_all add: nth_enumerate_eq)
  show ?thesis unfolding stored_cells_def e by (simp add: filter_map comp_def)
qed

lemma last_cell_stored:
  assumes "c < length cells"
  shows "last_cell (stored_cells dicts cells) c =
    (if cells ! c \<noteq> 0 then Some (dict_values (dicts ! c) ! (cells ! c)) else None)"
proof -
  let ?xs = "stored_cells dicts cells"
  have cols: "map cell_column ?xs = filter (\<lambda>c. cells ! c \<noteq> 0) [0..<length cells]"
    by (simp add: stored_cells_form comp_def)
  then have dist: "distinct (map cell_column ?xs)" by simp
  show ?thesis
  proof (cases "cells ! c = 0")
    case True
    have "c \<notin> set (map cell_column ?xs)" unfolding cols using True by simp
    then have "last_cell ?xs c = None" by (intro last_cell_notin) simp
    with True show ?thesis by simp
  next
    case False
    with assms have "\<lparr>cell_column = c, cell_scalar = dict_values (dicts ! c) ! (cells ! c)\<rparr> \<in> set ?xs"
      by (auto simp: stored_cells_form)
    from last_cell_distinct [OF dist this] False show ?thesis by simp
  qed
qed

lemma canon_stored_cells: "canon_cells (length cells) (stored_cells dicts cells) = stored_cells dicts cells"
proof -
  let ?xs = "stored_cells dicts cells"
  have "filter (\<lambda>c. last_cell ?xs c \<noteq> None) [0..<length cells] = filter (\<lambda>c. cells ! c \<noteq> 0) [0..<length cells]"
    by (rule filter_cong) (auto simp: last_cell_stored)
  then show ?thesis
    unfolding canon_cells_def by (subst (2) stored_cells_form) (auto simp: last_cell_stored)
qed

text \<open>A log of upserts with distinct IDs holds exactly its records.\<close>

lemma fold_upserts_notin:
  "i \<notin> rec_id ` set rs \<Longrightarrow> fold (record_effect n) rs m i = m i"
  by (induction rs arbitrary: m) (auto simp: record_effect_def)

lemma fold_upserts_in:
  "list_all (\<lambda>r. rec_kind r \<noteq> recordDelete) rs \<Longrightarrow> distinct (map rec_id rs) \<Longrightarrow> r \<in> set rs \<Longrightarrow>
   fold (record_effect n) rs m (rec_id r) = Some (r\<lparr>rec_cells := canon_cells n (rec_cells r)\<rparr>)"
proof (induction rs arbitrary: m)
  case (Cons a rs)
  show ?case
  proof (cases "r = a")
    case True
    then have "rec_id r \<notin> rec_id ` set rs" using Cons.prems(2) by auto
    with True Cons.prems(1) show ?thesis by (simp add: fold_upserts_notin) (simp add: record_effect_def)
  next
    case False
    with Cons show ?thesis by simp
  qed
qed simp

lemma row_record_simps [simp]:
  "rec_id (row_record d current code) = row_id current" "rec_kind (row_record d current code) = recordUpsert"
  "rec_cells (row_record d current code) = stored_cells d (row_cells current)"
  by (simp_all add: row_record_def emptyRecord_def)

lemma view_of_rows:
  assumes inv: "collection_inv k st"
  shows "view st = fold (record_effect (length (Scalars st))) (map (record_at st) [0..<length (rows st)]) Map.empty"
proof
  fix i
  let ?rs = "map (record_at st) [0..<length (rows st)]"
  have ix: "index_ok st" and ck: "cells_ok st" using inv by (simp_all add: collection_inv_def)
  have up: "list_all (\<lambda>r. rec_kind r \<noteq> recordDelete) ?rs" by (simp add: list_all_iff record_constants)
  have "inj_on (\<lambda>p. row_id (rows st ! p)) {0..<length (rows st)}"
    using index_okD(3) [OF ix] by (intro inj_onI) (metis atLeastLessThan_iff option.inject)
  then have dist: "distinct (map rec_id ?rs)" by (simp add: distinct_map comp_def)
  show "view st i = fold (record_effect (length (Scalars st))) ?rs Map.empty i"
  proof (cases "map_of (byID st) i")
    case None
    have "i \<notin> rec_id ` set ?rs"
    proof
      assume "i \<in> rec_id ` set ?rs"
      then obtain p where "p < length (rows st)" "i = row_id (rows st ! p)" by auto
      with None index_okD(3) [OF ix] show False by simp
    qed
    from fold_upserts_notin [OF this] None show ?thesis by (simp add: view_def)
  next
    case (Some p)
    then have p: "p < length (rows st)" "row_id (rows st ! p) = i" using index_okD(2) [OF ix] by auto
    then have "record_at st p \<in> set ?rs" by simp
    note f = fold_upserts_in [OF up dist this, of "length (Scalars st)" Map.empty]
    have "length (row_cells (rows st ! p)) = length (Scalars st)"
      using ck p(1) by (simp add: cells_ok_def list_all_length row_ok_def)
    then have "canon_cells (length (Scalars st)) (rec_cells (record_at st p)) = rec_cells (record_at st p)"
      using canon_stored_cells [of "row_cells (rows st ! p)" "dictionaries st"] by simp
    then have "(record_at st p)\<lparr>rec_cells := canon_cells (length (Scalars st)) (rec_cells (record_at st p))\<rparr> = record_at st p"
      by simp
    with f p(2) Some show ?thesis by (simp add: view_def)
  qed
qed

text \<open>The collection after the switch to a new generation.\<close>

definition compacted_state :: "codeCollection \<Rightarrow> codeCollection" where
  "compacted_state st =
     (let rs = compacted st [0..<length (rows st)] 0; out = compacted_data st [0..<length (rows st)];
          log = log_bytes frameFormatLengthCRC (Scalars st) rs
      in st\<lparr>Generation := Generation st + 1, FrameFormat := frameFormatLengthCRC,
           rowsFile := log, dataFile := out, dataSize := length out, logSize := length log,
           rows := map (\<lambda>(r, offset). r\<lparr>row_dataOffset := offset\<rparr>) (zip (rows st) (map rec_dataOffset rs)), dead := 0\<rparr>)"

lemma compacted_state_same:
  "Scalars (compacted_state st) = Scalars st" "dictionaries (compacted_state st) = dictionaries st"
  "byID (compacted_state st) = byID st" "codes (compacted_state st) = codes st"
  "columnIndex (compacted_state st) = columnIndex st"
  "length (rows (compacted_state st)) = length (rows st)"
  "dataFile (compacted_state st) = compacted_data st [0..<length (rows st)]"
  by (simp_all add: compacted_state_def Let_def)

lemma compacted_state_row:
  "p < length (rows st) \<Longrightarrow> rows (compacted_state st) ! p =
     (rows st ! p)\<lparr>row_dataOffset := rec_dataOffset (compacted st [0..<length (rows st)] 0 ! p)\<rparr>"
  by (simp add: compacted_state_def Let_def)

lemma compacted_state_record:
  assumes "p < length (rows st)"
  shows "record_at (compacted_state st) p = compacted st [0..<length (rows st)] 0 ! p"
proof -
  from compacted_nth [of p "[0..<length (rows st)]" st 0] assms obtain b where
    "compacted st [0..<length (rows st)] 0 ! p = (record_at st p)\<lparr>rec_dataOffset := int b\<rparr>" by auto
  then show ?thesis
    using compacted_state_row [OF assms] by (simp add: row_record_def compacted_state_same)
qed

lemma compacted_state_inv:
  assumes inv: "collection_inv k st" and ok: "list_all (record_ok (Scalars st)) (compacted st [0..<length (rows st)] 0)"
  shows "collection_inv k (compacted_state st)"
proof -
  have "row_id (rows (compacted_state st) ! p) = row_id (rows st ! p)" if "p < length (rows st)" for p
    using compacted_state_row [OF that] by simp
  then have "index_ok (compacted_state st)"
    using inv unfolding collection_inv_def index_ok_def compacted_state_same by auto
  moreover have "cells_ok (compacted_state st)"
    using inv compacted_state_row unfolding collection_inv_def cells_ok_def compacted_state_same list_all_length
    by (auto simp: row_ok_def)
  moreover have "rows_ok (compacted_state st)"
    using ok compacted_state_record unfolding rows_ok_def compacted_state_same by (simp add: list_all_length)
  ultimately show ?thesis using inv by (simp add: collection_inv_def compacted_state_same)
qed

lemma compacted_state_contents:
  assumes ix: "index_ok st" and rd: "list_all (readable st) [0..<length (rows st)]"
  shows "contents (compacted_state st) = contents st"
proof
  fix i
  let ?rs = "compacted st [0..<length (rows st)] 0"
  have pos: "p < length (rows st)" if "map_of (byID st) i = Some p" for p using index_okD(2) [OF ix] that by simp
  then have view': "view (compacted_state st) i = map_option (\<lambda>p. ?rs ! p) (map_of (byID st) i)"
    using compacted_state_record by (auto simp: view_def compacted_state_same map_option_case split: option.splits)
  show "contents (compacted_state st) i = contents st i"
  proof (cases "map_of (byID st) i")
    case (Some p)
    have p: "p < length (rows st)" using pos Some .
    with compacted_nth [of p "[0..<length (rows st)]" st 0] obtain b where
      b: "?rs ! p = (record_at st p)\<lparr>rec_dataOffset := int b\<rparr>" by auto
    have "blob_of (compacted_data st [0..<length (rows st)]) (?rs ! p) = blob_of (dataFile st) (record_at st p)"
      using compacted_blob [OF rd, of p "[]"] p by simp
    then show ?thesis using Some view' b by (simp add: contents_def view_def [of st] compacted_state_same)
  qed (simp add: contents_def view' view_def [of st])
qed

lemma compacted_state_on_disk:
  assumes inv: "collection_inv k (compacted_state st)"
    and ok: "list_all (stored_ok (Scalars st) (length (compacted_data st [0..<length (rows st)]))) (compacted st [0..<length (rows st)] 0)"
  shows "on_disk (compacted st [0..<length (rows st)] 0) (compacted_state st)"
proof -
  have "map (record_at (compacted_state st)) [0..<length (rows (compacted_state st))] = compacted st [0..<length (rows st)] 0"
    using compacted_state_record by (intro nth_equalityI) (simp_all add: compacted_state_same)
  with view_of_rows [OF inv]
  have "view (compacted_state st) = fold (record_effect (length (Scalars st))) (compacted st [0..<length (rows st)] 0) Map.empty"
    by (simp only: compacted_state_same)
  with ok show ?thesis by (simp add: on_disk_def compacted_state_same) (simp add: compacted_state_def Let_def)
qed

lemma compact_result:
  assumes inv: "collection_inv k st"
    and within: "\<And>i r. view st i = Some r \<Longrightarrow> rec_dataOffset r + rec_dataLength r \<le> int (length (dataFile st))"
    and fits: "int (length (compacted_data st [0..<length (rows st)])) \<le> MaxInt64"
  shows "\<exists>switched. compact True st = Returns (switched, if switched then compacted_state st else st) \<and>
    (switched \<longrightarrow> collection_inv k (compacted_state st) \<and> contents (compacted_state st) = contents st \<and>
       on_disk (compacted st [0..<length (rows st)] 0) (compacted_state st)) \<and>
    (list_all (\<lambda>r. length (record_bytes (Scalars st) r) \<le> MaxUint32) (compacted st [0..<length (rows st)] 0) \<longrightarrow> switched)"
proof -
  let ?n = "length (rows st)"
  let ?rs = "compacted st [0..<?n] 0" and ?out = "compacted_data st [0..<?n]"
  let ?small = "list_all (\<lambda>r. length (record_bytes (Scalars st) r) \<le> MaxUint32) ?rs"
  have rd: "list_all (readable st) [0..<?n]"
    using inv_readable [OF inv _ within] by (simp add: list_all_iff)
  have "int (0 + length ?out) \<le> MaxInt64" using fits by simp
  note ok = compacted_ok [OF rd this]
  have result: "writeCompacted st [0..<?n] [] [] [] = Returns (if ?small
      then Some (log_bytes frameFormatLengthCRC (Scalars st) ?rs, ?out, map rec_dataOffset ?rs) else None)"
    using writeCompacted_result [OF rd, of "[]" "[]" "[]"] fits by simp
  show ?thesis
  proof (cases ?small)
    case False
    then have "compact True st = Returns (False, st)" using result by (simp add: compact_def)
    with False show ?thesis by (intro exI [of _ False]) simp
  next
    case True
    have run: "compact True st = Returns (True, compacted_state st)"
      using result True by (simp add: compact_def compacted_state_def Let_def)
    have "list_all (record_ok (Scalars st)) ?rs" using ok by (auto simp: list_all_iff)
    note inv' = compacted_state_inv [OF inv this]
    have "list_all (stored_ok (Scalars st) (length ?out)) ?rs"
      using ok True fits by (auto simp: list_all_iff stored_ok_def)
    note disk = compacted_state_on_disk [OF inv' this]
    have "contents (compacted_state st) = contents st"
      using inv rd by (intro compacted_state_contents) (simp_all add: collection_inv_def)
    with run inv' disk show ?thesis by (intro exI [of _ True]) simp
  qed
qed

text \<open>
  C38. Compaction changes no row. It always returns; either it leaves the collection as it was,
  or it switches to a new generation that holds, for every row ID, the same record with the
  same data, keeps the invariant, has no dead records, and consists on disk of exactly the
  frames of the live rows. It succeeds when every rewritten record fits its frame.
\<close>

theorem compact_keeps_contents:
  assumes inv: "collection_inv k st"
    and within: "\<And>i r. view st i = Some r \<Longrightarrow> rec_dataOffset r + rec_dataLength r \<le> int (length (dataFile st))"
    and fits: "int (length (compacted_data st [0..<length (rows st)])) \<le> MaxInt64"
  shows "\<exists>switched st'. compact True st = Returns (switched, st') \<and> collection_inv k st' \<and>
    contents st' = contents st \<and>
    (if switched then on_disk (compacted st [0..<length (rows st)] 0) st' \<and> dead st' = 0 \<and>
       FrameFormat st' = frameFormatLengthCRC \<and> logSize st' = length (rowsFile st') else st' = st) \<and>
    (list_all (\<lambda>r. length (record_bytes (Scalars st) r) \<le> MaxUint32) (compacted st [0..<length (rows st)] 0) \<longrightarrow> switched)"
proof -
  obtain switched where "compact True st = Returns (switched, if switched then compacted_state st else st)"
    "switched \<longrightarrow> collection_inv k (compacted_state st) \<and> contents (compacted_state st) = contents st \<and>
       on_disk (compacted st [0..<length (rows st)] 0) (compacted_state st)"
    "list_all (\<lambda>r. length (record_bytes (Scalars st) r) \<le> MaxUint32) (compacted st [0..<length (rows st)] 0) \<longrightarrow> switched"
    using compact_result [OF inv _ fits] within by blast
  moreover have "dead (compacted_state st) = 0 \<and> FrameFormat (compacted_state st) = frameFormatLengthCRC \<and>
      logSize (compacted_state st) = length (rowsFile (compacted_state st))"
    by (simp add: compacted_state_def Let_def)
  ultimately show ?thesis
    using inv by (intro exI [of _ switched] exI [of _ "if switched then compacted_state st else st"]) simp
qed

definition demo_collection :: codeCollection where
  "demo_collection =
     (emptyCollection (null_scalar ScalarTypeString) [] 0 frameFormatLengthCRC [] ''xblob'')
       \<lparr>rows := [\<lparr>row_id = ''a'', row_relativePath = ''p'', row_splitPart = 0, row_splitRecorded = True,
                 row_dataOffset = 1, row_dataLength = 4, row_cells = []\<rparr>],
        codes := [replicate codeWords 7], byID := [(''a'', 0)], dead := 3\<rparr>"

lemma demo_collection_inv: "collection_inv 0 demo_collection"
  by (auto simp: collection_inv_def demo_collection_def index_ok_def cells_ok_def dicts_ok_def row_ok_def
      rows_ok_def room_def row_record_def stored_cells_def record_ok_def emptyRecord_def record_constants)

lemma demo_collection_view:
  "view demo_collection i = Some r \<Longrightarrow> rec_dataOffset r + rec_dataLength r \<le> int (length (dataFile demo_collection))"
  by (auto simp: view_def demo_collection_def row_record_def emptyRecord_def split: if_splits)

theorem compact_keeps_contents_witness:
  "collection_inv 0 demo_collection \<and>
   (\<exists>switched st'. compact True demo_collection = Returns (switched, st') \<and> collection_inv 0 st' \<and>
     contents st' = contents demo_collection \<and>
     (if switched then on_disk (compacted demo_collection [0..<length (rows demo_collection)] 0) st' \<and> dead st' = 0 \<and>
        FrameFormat st' = frameFormatLengthCRC \<and> logSize st' = length (rowsFile st') else st' = demo_collection) \<and>
     (list_all (\<lambda>r. length (record_bytes (Scalars demo_collection) r) \<le> MaxUint32)
        (compacted demo_collection [0..<length (rows demo_collection)] 0) \<longrightarrow> switched))"
proof -
  have "int (length (compacted_data demo_collection [0..<length (rows demo_collection)])) \<le> MaxInt64"
    by (simp add: compacted_data_def demo_collection_def blob_of_def row_record_def emptyRecord_def)
  note kept = compact_keeps_contents [OF demo_collection_inv demo_collection_view this]
  show ?thesis by (rule conjI [OF demo_collection_inv kept])
qed

end
