(* ===== verification/Codestore_Filter.thy ===== *)
theory Codestore_Filter
  imports Codestore_Collection
begin

text \<open>
  The filters of a code collection (\<open>codestore/filter.go\<close>). A filter is compiled to a
  predicate on row positions with three truth values; a leaf decides each value of its column's
  dictionary once. The filter type belongs to the collection package and is modelled by the
  fields the code reads. A predicate that indexes out of range panics.
\<close>

section \<open>Filters\<close>

datatype truth = truthFalse | truthTrue | truthUnknown

datatype FilterKind =
    FilterAll | FilterAny | FilterNot | FilterEquals | FilterIn | FilterRange | FilterIsNull | FilterIsPresent
  | OtherFilterKind bytes

datatype Filter =
  Filter (Filter_Kind: FilterKind) (Filter_Column: bytes) (Filter_Values: "ScalarValue list")
    (Filter_Lower: "int option") (Filter_Upper: "int option") (Filter_Children: "Filter list")

type_synonym predicate = "nat \<Rightarrow> truth outcome"

datatype filter_error =
    NotFilterChildren nat | UndeclaredColumn bytes | UnsupportedKind FilterKind | KindNotLeaf FilterKind

fun all_from :: "predicate list \<Rightarrow> nat \<Rightarrow> truth \<Rightarrow> truth outcome" where
  "all_from [] position result = Returns result"
| "all_from (child # children) position result =
     and_then (child position) (\<lambda>t.
       case t of
         truthFalse \<Rightarrow> Returns truthFalse
       | truthUnknown \<Rightarrow> all_from children position truthUnknown
       | truthTrue \<Rightarrow> all_from children position result)"

definition allOf :: "predicate list \<Rightarrow> predicate" where
  "allOf children = (\<lambda>position. all_from children position truthTrue)"

fun any_from :: "predicate list \<Rightarrow> nat \<Rightarrow> truth \<Rightarrow> truth outcome" where
  "any_from [] position result = Returns result"
| "any_from (child # children) position result =
     and_then (child position) (\<lambda>t.
       case t of
         truthTrue \<Rightarrow> Returns truthTrue
       | truthUnknown \<Rightarrow> any_from children position truthUnknown
       | truthFalse \<Rightarrow> any_from children position result)"

definition anyOf :: "predicate list \<Rightarrow> predicate" where
  "anyOf children = (\<lambda>position. any_from children position truthFalse)"

fun negate :: "truth \<Rightarrow> truth" where
  "negate truthTrue = truthFalse"
| "negate truthFalse = truthTrue"
| "negate truthUnknown = truthUnknown"

definition below :: "int \<Rightarrow> int option \<Rightarrow> bool" where
  "below n bound \<longleftrightarrow> (case bound of None \<Rightarrow> False | Some b \<Rightarrow> n < b)"

definition reaches :: "int \<Rightarrow> int option \<Rightarrow> bool" where
  "reaches n bound \<longleftrightarrow> (case bound of None \<Rightarrow> False | Some b \<Rightarrow> n \<ge> b)"

definition leafDecision :: "Filter \<Rightarrow> filter_error + (ScalarValue \<Rightarrow> bool \<Rightarrow> truth)" where
  "leafDecision f =
     (case Filter_Kind f of
        FilterIsNull \<Rightarrow> Inr (\<lambda>_ present. if present then truthFalse else truthTrue)
      | FilterIsPresent \<Rightarrow> Inr (\<lambda>_ present. if present then truthTrue else truthFalse)
      | FilterRange \<Rightarrow> Inr (\<lambda>value present.
          if \<not> present then truthUnknown
          else if below (scalar_int64 value) (Filter_Lower f) \<or> reaches (scalar_int64 value) (Filter_Upper f)
          then truthFalse else truthTrue)
      | FilterEquals \<Rightarrow> Inr (\<lambda>value present.
          if \<not> present then truthUnknown else if value \<in> set (Filter_Values f) then truthTrue else truthFalse)
      | FilterIn \<Rightarrow> Inr (\<lambda>value present.
          if \<not> present then truthUnknown else if value \<in> set (Filter_Values f) then truthTrue else truthFalse)
      | OtherFilterKind k \<Rightarrow> Inl (UnsupportedKind (Filter_Kind f))
      | _ \<Rightarrow> Inl (KindNotLeaf (Filter_Kind f)))"

text \<open>The decision of every value of the column, by its number.\<close>

definition leaf_decisions :: "ScalarValue \<Rightarrow> (ScalarValue \<Rightarrow> bool \<Rightarrow> truth) \<Rightarrow> ScalarValue list \<Rightarrow> truth list" where
  "leaf_decisions emptyScalar decide vs =
     decide emptyScalar False # map (\<lambda>v. decide v (\<not> scalar_null v)) (drop 1 vs)"

definition compileLeaf :: "ScalarValue \<Rightarrow> codeCollection \<Rightarrow> Filter \<Rightarrow> filter_error + predicate" where
  "compileLeaf emptyScalar st f =
     (case map_of (columnIndex st) (Filter_Column f) of
        None \<Rightarrow> Inl (UndeclaredColumn (Filter_Column f))
      | Some column \<Rightarrow>
          (case leafDecision f of
             Inl e \<Rightarrow> Inl e
           | Inr decide \<Rightarrow>
               (let decisions = leaf_decisions emptyScalar decide (dict_values (dictionaries st ! column)) in
                Inr (\<lambda>position.
                  if position \<ge> length (rows st) \<or> column \<ge> length (row_cells (rows st ! position)) \<or>
                     row_cells (rows st ! position) ! column \<ge> length decisions
                  then Panic
                  else Returns (decisions ! (row_cells (rows st ! position) ! column))))))"

fun compileFilter :: "ScalarValue \<Rightarrow> codeCollection \<Rightarrow> Filter \<Rightarrow> filter_error + predicate"
  and compile_children :: "ScalarValue \<Rightarrow> codeCollection \<Rightarrow> Filter list \<Rightarrow> filter_error + predicate list" where
  "compileFilter emptyScalar st (Filter kind column vals lower upper children) =
     (case kind of
        FilterAll \<Rightarrow> map_sum (\<lambda>e. e) allOf (compile_children emptyScalar st children)
      | FilterAny \<Rightarrow> map_sum (\<lambda>e. e) anyOf (compile_children emptyScalar st children)
      | FilterNot \<Rightarrow>
          (case children of
             [child] \<Rightarrow>
               (case compileFilter emptyScalar st child of
                  Inl e \<Rightarrow> Inl e
                | Inr p \<Rightarrow> Inr (\<lambda>position. and_then (p position) (\<lambda>t. Returns (negate t))))
           | _ \<Rightarrow> Inl (NotFilterChildren (length children)))
      | OtherFilterKind k \<Rightarrow> Inl (UnsupportedKind kind)
      | _ \<Rightarrow> compileLeaf emptyScalar st (Filter kind column vals lower upper children))"
| "compile_children emptyScalar st [] = Inr []"
| "compile_children emptyScalar st (f # fs) =
     (case compileFilter emptyScalar st f of
        Inl e \<Rightarrow> Inl e
      | Inr p \<Rightarrow> map_sum (\<lambda>e. e) (\<lambda>ps. p # ps) (compile_children emptyScalar st fs))"

text \<open>A missing filter selects every row.\<close>

definition compile_optional :: "ScalarValue \<Rightarrow> codeCollection \<Rightarrow> Filter option \<Rightarrow> filter_error + predicate" where
  "compile_optional emptyScalar st f =
     (case f of None \<Rightarrow> Inr (\<lambda>_. Returns truthTrue) | Some f \<Rightarrow> compileFilter emptyScalar st f)"

section \<open>The meaning of a filter\<close>

text \<open>The value a row has in a column; null and absent values count as none.\<close>

definition row_value :: "codeCollection \<Rightarrow> nat \<Rightarrow> bytes \<Rightarrow> ScalarValue option" where
  "row_value st position name =
     (case map_of (columnIndex st) name of
        None \<Rightarrow> None
      | Some column \<Rightarrow>
          (let i = row_cells (rows st ! position) ! column; v = dict_values (dictionaries st ! column) ! i
           in if i = 0 \<or> scalar_null v then None else Some v))"

definition truth_of :: "bool \<Rightarrow> truth" where
  "truth_of b = (if b then truthTrue else truthFalse)"

text \<open>Conjunction and disjunction of the strong three-valued logic.\<close>

definition conj_truth :: "truth list \<Rightarrow> truth" where
  "conj_truth ts = (if truthFalse \<in> set ts then truthFalse else if truthUnknown \<in> set ts then truthUnknown else truthTrue)"

definition disj_truth :: "truth list \<Rightarrow> truth" where
  "disj_truth ts = (if truthTrue \<in> set ts then truthTrue else if truthUnknown \<in> set ts then truthUnknown else truthFalse)"

definition leaf_meaning :: "Filter \<Rightarrow> ScalarValue option \<Rightarrow> truth" where
  "leaf_meaning f value =
     (case Filter_Kind f of
        FilterIsNull \<Rightarrow> truth_of (value = None)
      | FilterIsPresent \<Rightarrow> truth_of (value \<noteq> None)
      | FilterRange \<Rightarrow>
          (case value of None \<Rightarrow> truthUnknown
           | Some v \<Rightarrow> truth_of ((\<forall>l \<in> set_option (Filter_Lower f). l \<le> scalar_int64 v) \<and>
               (\<forall>u \<in> set_option (Filter_Upper f). scalar_int64 v < u)))
      | _ \<Rightarrow> (case value of None \<Rightarrow> truthUnknown | Some v \<Rightarrow> truth_of (v \<in> set (Filter_Values f))))"

fun eval_filter :: "(bytes \<Rightarrow> ScalarValue option) \<Rightarrow> Filter \<Rightarrow> truth" where
  "eval_filter value (Filter kind column vals lower upper children) =
     (case kind of
        FilterAll \<Rightarrow> conj_truth (map (eval_filter value) children)
      | FilterAny \<Rightarrow> disj_truth (map (eval_filter value) children)
      | FilterNot \<Rightarrow> (case map (eval_filter value) children of [t] \<Rightarrow> negate t | _ \<Rightarrow> truthUnknown)
      | _ \<Rightarrow> leaf_meaning (Filter kind column vals lower upper children) (value column))"

text \<open>A filter fits a collection when it names declared columns and known kinds only.\<close>

fun fits_collection :: "codeCollection \<Rightarrow> Filter \<Rightarrow> bool" where
  "fits_collection st (Filter kind column vals lower upper children) \<longleftrightarrow>
     (case kind of
        FilterAll \<Rightarrow> list_all (fits_collection st) children
      | FilterAny \<Rightarrow> list_all (fits_collection st) children
      | FilterNot \<Rightarrow> length children = 1 \<and> list_all (fits_collection st) children
      | OtherFilterKind k \<Rightarrow> False
      | _ \<Rightarrow> map_of (columnIndex st) column \<noteq> None)"

section \<open>Compiled filters\<close>

definition columns_ok :: "codeCollection \<Rightarrow> bool" where
  "columns_ok st \<longleftrightarrow> (\<forall>name c. map_of (columnIndex st) name = Some c \<longrightarrow>
     c < length (Scalars st) \<and> col_name (Scalars st ! c) = name)"

definition decides :: "codeCollection \<Rightarrow> predicate \<Rightarrow> Filter \<Rightarrow> bool" where
  "decides st p f \<longleftrightarrow> (\<forall>position < length (rows st). p position = Returns (eval_filter (row_value st position) f))"

lemma all_from_conj:
  "list_all2 (\<lambda>p t. p position = Returns t) ps ts \<Longrightarrow> result \<noteq> truthFalse \<Longrightarrow>
   all_from ps position result = Returns (conj_truth (result # ts))"
proof (induction arbitrary: result rule: list_all2_induct)
  case Nil
  then show ?case by (cases result) (auto simp: conj_truth_def)
qed (auto simp: conj_truth_def split: truth.splits)

lemma any_from_disj:
  "list_all2 (\<lambda>p t. p position = Returns t) ps ts \<Longrightarrow> result \<noteq> truthTrue \<Longrightarrow>
   any_from ps position result = Returns (disj_truth (result # ts))"
proof (induction arbitrary: result rule: list_all2_induct)
  case Nil
  then show ?case by (cases result) (auto simp: disj_truth_def)
qed (auto simp: disj_truth_def split: truth.splits)

lemma decides_children:
  "list_all2 (decides st) ps fs \<Longrightarrow> position < length (rows st) \<Longrightarrow>
   list_all2 (\<lambda>p t. p position = Returns t) ps (map (eval_filter (row_value st position)) fs)"
  by (simp add: list_all2_conv_all_nth decides_def)

lemma leaf_decisions_nth:
  "i < length vs \<Longrightarrow> leaf_decisions e decide vs ! i =
     (if i = 0 then decide e False else decide (vs ! i) (\<not> scalar_null (vs ! i)))"
  by (cases vs; cases i) (simp_all add: leaf_decisions_def)

lemma leaf_decision_meaning:
  assumes "leafDecision f = Inr decide"
  shows "decide v False = leaf_meaning f None" "decide v True = leaf_meaning f (Some v)"
  using assms unfolding leafDecision_def leaf_meaning_def
  by (auto simp: truth_of_def below_def reaches_def split: FilterKind.splits option.splits)

lemma compileLeaf_decides:
  assumes ok: "columns_ok st" "cells_ok st" and kind: "leafDecision f = Inr decide"
    and leaf: "\<And>val. eval_filter val f = leaf_meaning f (val (Filter_Column f))"
    and column: "map_of (columnIndex st) (Filter_Column f) = Some c"
  shows "\<exists>p. compileLeaf e st f = Inr p \<and> decides st p f"
proof -
  let ?vs = "dict_values (dictionaries st ! c)"
  have c: "c < length (dictionaries st)" using ok column by (auto simp: columns_ok_def cells_ok_def)
  have "leaf_decisions e decide ?vs ! (row_cells (rows st ! p) ! c) = eval_filter (row_value st p) f \<and>
      c < length (row_cells (rows st ! p)) \<and>
      row_cells (rows st ! p) ! c < length (leaf_decisions e decide ?vs)" if p: "p < length (rows st)" for p
  proof -
    have row: "length (row_cells (rows st ! p)) = length (dictionaries st)" "row_cells (rows st ! p) ! c < length ?vs"
      using ok(2) p c by (auto simp: cells_ok_def list_all_length row_ok_def)
    then have "leaf_decisions e decide ?vs ! (row_cells (rows st ! p) ! c) = eval_filter (row_value st p) f"
      using column leaf_decision_meaning [OF kind]
      by (auto simp: leaf leaf_decisions_nth row_value_def Let_def)
    with row c show ?thesis by (simp add: leaf_decisions_def)
  qed
  then show ?thesis
    using column kind by (fastforce simp: compileLeaf_def decides_def Let_def)
qed

lemma compileLeaf_undeclared:
  "map_of (columnIndex st) (Filter_Column f) = None \<Longrightarrow> \<exists>err. compileLeaf e st f = Inl err"
  by (simp add: compileLeaf_def)

lemma decides_allOf: "list_all2 (decides st) ps children \<Longrightarrow> decides st (allOf ps) (Filter FilterAll column vals lower upper children)"
  using all_from_conj [OF decides_children] unfolding decides_def [of st "allOf ps"]
  by (auto simp: allOf_def conj_truth_def)

lemma decides_anyOf: "list_all2 (decides st) ps children \<Longrightarrow> decides st (anyOf ps) (Filter FilterAny column vals lower upper children)"
  using any_from_disj [OF decides_children] unfolding decides_def [of st "anyOf ps"]
  by (auto simp: anyOf_def disj_truth_def)

lemma compile_leaf:
  assumes "columns_ok st" "cells_ok st" "leafDecision f = Inr decide"
    "\<And>val. eval_filter val f = leaf_meaning f (val (Filter_Column f))"
  shows "if map_of (columnIndex st) (Filter_Column f) \<noteq> None then \<exists>p. compileLeaf e st f = Inr p \<and> decides st p f
    else \<exists>err. compileLeaf e st f = Inl err"
  using compileLeaf_decides [OF assms, of _ e] compileLeaf_undeclared [of st f e] by auto

lemma compile_both:
  shows "columns_ok st \<Longrightarrow> cells_ok st \<Longrightarrow>
      if fits_collection st f then \<exists>p. compileFilter e st f = Inr p \<and> decides st p f
      else \<exists>err. compileFilter e st f = Inl err"
    and "columns_ok st \<Longrightarrow> cells_ok st \<Longrightarrow>
      if list_all (fits_collection st) fs then \<exists>ps. compile_children e st fs = Inr ps \<and> list_all2 (decides st) ps fs
      else \<exists>err. compile_children e st fs = Inl err"
proof (induction e st f and e st fs rule: compileFilter_compile_children.induct)
  case (1 e st kind column vals lower upper children)
  let ?f = "Filter kind column vals lower upper children"
  note leaf = compile_leaf [OF 1(4,5), where f = ?f and e = e]
  show ?case
  proof (cases kind)
    case FilterAll
    with 1(1) [OF FilterAll 1(4,5)] show ?thesis by (auto intro: decides_allOf split: if_splits)
  next
    case FilterAny
    with 1(2) [OF FilterAny 1(4,5)] show ?thesis by (auto intro: decides_anyOf split: if_splits)
  next
    case FilterNot
    show ?thesis
    proof (cases "length children = 1")
      case True
      then obtain child where child: "children = [child]" by (auto simp: length_Suc_conv)
      from 1(3) [OF FilterNot child refl 1(4,5)] FilterNot child show ?thesis
        by (auto simp: decides_def split: if_splits)
    next
      case False
      then show ?thesis using FilterNot by (auto split: list.splits)
    qed
  qed (use leaf in \<open>simp_all add: leafDecision_def split: if_splits\<close>)
next
  case (2 e st)
  then show ?case by simp
next
  case (3 e st f fs)
  then show ?case by (auto split: if_splits)
qed

section \<open>Properties\<close>

text \<open>
  C16. A filter compiles exactly when it fits the collection: it names declared columns and known
  kinds only and a negation has one child. The compiled predicate then never panics on a row and
  gives the value of the filter in three-valued logic on the row's own values, where null and
  absent values are unknown except to the presence tests, so deciding every dictionary value
  once is the same as deciding each row.
\<close>

theorem compileFilter_semantics:
  assumes "columns_ok st" "collection_inv k st"
  shows "if fits_collection st f
    then \<exists>p. compileFilter e st f = Inr p \<and>
      (\<forall>position < length (rows st). p position = Returns (eval_filter (row_value st position) f))
    else \<exists>err. compileFilter e st f = Inl err"
  using compile_both(1) [OF assms(1), of f e] assms(2) by (auto simp: collection_inv_def decides_def)

text \<open>Two rows, one with a value and one without, and the negation of a comparison.\<close>

definition demo_filter_collection :: codeCollection where
  "demo_filter_collection = (emptyCollection (null_scalar ScalarTypeString) [\<lparr>col_name = ''n'', col_type = ScalarTypeInt64\<rparr>] 0 1 [] [])
     \<lparr>rows := [\<lparr>row_id = ''a'', row_relativePath = [], row_splitPart = 0, row_splitRecorded = True,
                row_dataOffset = 0, row_dataLength = 0, row_cells = [1]\<rparr>,
               \<lparr>row_id = ''b'', row_relativePath = [], row_splitPart = 0, row_splitRecorded = True,
                row_dataOffset = 0, row_dataLength = 0, row_cells = [0]\<rparr>],
      codes := [replicate codeWords 0, replicate codeWords 0],
      byID := [(''a'', 0), (''b'', 1)],
      dictionaries := [\<lparr>dict_values = [null_scalar ScalarTypeString, (null_scalar ScalarTypeInt64)\<lparr>scalar_null := False, scalar_int64 := 5\<rparr>],
        dict_ids = [((null_scalar ScalarTypeInt64)\<lparr>scalar_null := False, scalar_int64 := 5\<rparr>, 1)]\<rparr>]\<rparr>"

definition demo_filter :: Filter where
  "demo_filter = Filter FilterNot [] [] None None [Filter FilterRange ''n'' [] (Some 7) None []]"

lemma demo_filter_columns: "columns_ok demo_filter_collection"
  by (auto simp: columns_ok_def demo_filter_collection_def emptyCollection_def setDeclaration_def split: if_splits)

lemma demo_filter_inv: "collection_inv 0 demo_filter_collection"
proof -
  have "index_ok demo_filter_collection"
    by (auto simp: index_ok_def demo_filter_collection_def nth_Cons split: nat.splits if_splits)
  moreover have "cells_ok demo_filter_collection"
    by (auto simp: cells_ok_def demo_filter_collection_def row_ok_def dicts_ok_def dict_ok_def column_value_def
        typed_scalar_def null_scalar_def less_Suc_eq)
  moreover have "rows_ok demo_filter_collection"
    by (auto simp: rows_ok_def demo_filter_collection_def row_record_def stored_cells_def record_ok_def emptyRecord_def
        record_constants less_Suc_eq cell_ok_def typed_scalar_def null_scalar_def)
  moreover have "room 0 (dictionaries demo_filter_collection)"
    by (simp add: room_def demo_filter_collection_def)
  ultimately show ?thesis by (simp add: collection_inv_def)
qed

theorem compileFilter_semantics_witness:
  "columns_ok demo_filter_collection \<and> collection_inv 0 demo_filter_collection \<and>
   (\<exists>p. compileFilter (null_scalar ScalarTypeString) demo_filter_collection demo_filter = Inr p \<and>
      p 0 = Returns truthTrue \<and> p 1 = Returns truthUnknown)"
proof -
  have fits: "fits_collection demo_filter_collection demo_filter"
    by (simp add: demo_filter_def demo_filter_collection_def emptyCollection_def setDeclaration_def)
  have v: "length (rows demo_filter_collection) = 2"
    "eval_filter (row_value demo_filter_collection 0) demo_filter = truthTrue"
    "eval_filter (row_value demo_filter_collection 1) demo_filter = truthUnknown"
    by (simp_all add: demo_filter_def demo_filter_collection_def emptyCollection_def setDeclaration_def row_value_def
        leaf_meaning_def truth_of_def null_scalar_def Let_def)
  from compileFilter_semantics [OF demo_filter_columns demo_filter_inv, of demo_filter "null_scalar ScalarTypeString"]
    fits v show ?thesis using demo_filter_columns demo_filter_inv by auto
qed

end
