(* ===== verification/Codestore_Contents.thy ===== *)
theory Codestore_Contents
  imports Codestore_Write Codestore_Filter
begin

text \<open>
  What a write does to the contents of a collection, as its readers see them: the records by row
  ID with their data, whatever the layout of the files. A write is atomic, also when it ends in
  a compaction.
\<close>

section \<open>Bytes held by the rows\<close>

definition live_bytes :: "(bytes \<Rightarrow> rowRecord option) \<Rightarrow> nat" where
  "live_bytes m = (\<Sum>i \<in> dom m. nat (rec_dataLength (the (m i))))"

lemma dom_view:
  assumes "index_ok st"
  shows "bij_betw (\<lambda>p. row_id (rows st ! p)) {..<length (rows st)} (dom (view st))"
proof (rule bij_betwI')
  fix p q assume "p \<in> {..<length (rows st)}" "q \<in> {..<length (rows st)}"
  then show "row_id (rows st ! p) = row_id (rows st ! q) \<longleftrightarrow> p = q"
    using index_okD(3) [OF assms] by (metis lessThan_iff option.inject)
next
  fix p assume "p \<in> {..<length (rows st)}"
  then show "row_id (rows st ! p) \<in> dom (view st)" using index_okD(3) [OF assms] by (simp add: view_def dom_def)
next
  fix i assume "i \<in> dom (view st)"
  then obtain p where "map_of (byID st) i = Some p" by (auto simp: view_def)
  then show "\<exists>p \<in> {..<length (rows st)}. i = row_id (rows st ! p)" using index_okD(2) [OF assms] by auto
qed

lemma finite_view: "index_ok st \<Longrightarrow> finite (dom (view st))"
  using bij_betw_finite [OF dom_view] by simp

lemma view_row: "index_ok st \<Longrightarrow> p < length (rows st) \<Longrightarrow> view st (row_id (rows st ! p)) = Some (record_at st p)"
  by (simp add: view_def index_okD(3))

lemma live_bytes_compacted:
  assumes "index_ok st" "list_all (readable st) [0..<length (rows st)]"
  shows "length (compacted_data st [0..<length (rows st)]) = live_bytes (view st)"
proof -
  have "live_bytes (view st) = (\<Sum>p < length (rows st). nat (rec_dataLength (the (view st (row_id (rows st ! p))))))"
    unfolding live_bytes_def by (rule sum.reindex_bij_betw [OF dom_view [OF assms(1)], symmetric])
  also have "\<dots> = (\<Sum>p < length (rows st). nat (rec_dataLength (record_at st p)))"
    using view_row [OF assms(1)] by simp
  also have "\<dots> = (\<Sum>p < length (rows st). length (blob_of (dataFile st) (record_at st p)))"
    using assms(2) readable_read(2) by (intro sum.cong) (auto simp: list_all_iff)
  also have "\<dots> = length (compacted_data st [0..<length (rows st)])"
    by (simp add: compacted_data_def length_concat comp_def interv_sum_list_conv_sum_set_nat atLeast0LessThan)
  finally show ?thesis by simp
qed

definition record_length :: "rowRecord \<Rightarrow> nat" where
  "record_length r = (if rec_kind r = recordDelete then 0 else nat (rec_dataLength r))"

lemma live_bytes_upd:
  assumes "finite (dom m)"
  shows "live_bytes (m(i \<mapsto> r)) \<le> live_bytes m + nat (rec_dataLength r)" "live_bytes (m(i := None)) \<le> live_bytes m"
proof -
  let ?f = "\<lambda>j. nat (rec_dataLength (the (m j)))"
  have le: "sum ?f (dom m - {i}) \<le> live_bytes m"
    unfolding live_bytes_def using assms by (intro sum_mono2) auto
  have rest: "(\<Sum>j \<in> dom m - {i}. nat (rec_dataLength (the ((m(i \<mapsto> r)) j)))) = sum ?f (dom m - {i})"
    "(\<Sum>j \<in> dom m - {i}. nat (rec_dataLength (the ((m(i := None)) j)))) = sum ?f (dom m - {i})"
    by (intro sum.cong; simp)+
  have dom: "dom (m(i \<mapsto> r)) = insert i (dom m - {i})" "dom (m(i := None)) = dom m - {i}" by auto
  have "live_bytes (m(i \<mapsto> r)) = nat (rec_dataLength r) + sum ?f (dom m - {i})"
    unfolding live_bytes_def dom using assms rest(1) by (subst sum.insert) auto
  with le show "live_bytes (m(i \<mapsto> r)) \<le> live_bytes m + nat (rec_dataLength r)" by simp
  have "live_bytes (m(i := None)) = sum ?f (dom m - {i})"
    unfolding live_bytes_def dom by (rule rest(2))
  with le show "live_bytes (m(i := None)) \<le> live_bytes m" by simp
qed

lemma live_bytes_effects:
  "finite (dom m) \<Longrightarrow> live_bytes (fold (record_effect n) rs m) \<le> live_bytes m + sum_list (map record_length rs)"
proof (induction rs arbitrary: m)
  case (Cons r rs)
  have "live_bytes (record_effect n r m) \<le> live_bytes m + record_length r"
    using live_bytes_upd(1) [OF Cons.prems, of "rec_id r" "r\<lparr>rec_cells := canon_cells n (rec_cells r)\<rparr>"]
      live_bytes_upd(2) [OF Cons.prems, of "rec_id r"]
    by (simp add: record_effect_def record_length_def)
  moreover have "finite (dom (record_effect n r m))" using Cons.prems by (simp add: record_effect_def)
  ultimately show ?case using Cons.IH [of "record_effect n r m"] by simp
qed simp

lemma live_bytes_contents:
  assumes "contents a = contents b"
  shows "live_bytes (view a) = live_bytes (view b)"
proof -
  have "map_option rec_dataLength (view a i) = map_option rec_dataLength (view b i)" for i
    using fun_cong [OF assms, of i] by (cases "view a i"; cases "view b i") (auto simp: contents_def dest: arg_cong [of _ _ rec_dataLength])
  then have dom: "dom (view a) = dom (view b)" and
    len: "\<And>i. map_option rec_dataLength (view a i) = map_option rec_dataLength (view b i)"
    by (auto simp: dom_def) (metis option.map_disc_iff option.distinct(1) not_None_eq)+
  show ?thesis
    unfolding live_bytes_def dom
  proof (rule sum.cong [OF refl])
    fix i assume "i \<in> dom (view b)"
    with len [of i] show "nat (rec_dataLength (the (view a i))) = nat (rec_dataLength (the (view b i)))" by auto
  qed
qed

section \<open>The effect of a write on the contents\<close>

text \<open>
  The invariant of an open collection: on top of the invariant in memory, every row's data lies in
  the part of the data file that was written, and sizes fit an \<open>int64\<close>.
\<close>

definition store_ok :: "nat \<Rightarrow> codeCollection \<Rightarrow> bool" where
  "store_ok k st \<longleftrightarrow> collection_inv k st \<and> columns_ok st \<and> dataSize st \<le> length (dataFile st) \<and>
     (\<forall>i r. view st i = Some r \<longrightarrow> rec_dataOffset r + rec_dataLength r \<le> int (dataSize st)) \<and>
     int (live_bytes (view st)) \<le> MaxInt64 \<and> int (length (dataFile st)) \<le> MaxInt64 \<and>
     int (length (Scalars st)) \<le> MaxInt64"

text \<open>What a record with its new data, or with the data it already has, means to a reader.\<close>

definition content_effect ::
    "bytes \<Rightarrow> nat \<Rightarrow> rowRecord \<times> bytes option \<Rightarrow> (bytes \<Rightarrow> (rowRecord \<times> bytes) option) \<Rightarrow> bytes \<Rightarrow> (rowRecord \<times> bytes) option" where
  "content_effect old n p m =
     (let r = fst p in
      if rec_kind r = recordDelete then m(rec_id r := None)
      else m(rec_id r \<mapsto>
        (r\<lparr>rec_dataLength := (case snd p of None \<Rightarrow> rec_dataLength r | Some b \<Rightarrow> int (length b)),
           rec_cells := canon_cells n (rec_cells r), rec_dataOffset := 0\<rparr>,
         case snd p of None \<Rightarrow> blob_of old r | Some b \<Rightarrow> b)))"

definition with_data :: "bytes \<Rightarrow> (bytes \<Rightarrow> rowRecord option) \<Rightarrow> bytes \<Rightarrow> (rowRecord \<times> bytes) option" where
  "with_data file m i = map_option (\<lambda>r. (r\<lparr>rec_dataOffset := 0\<rparr>, blob_of file r)) (m i)"

lemma contents_with_data: "contents st = with_data (dataFile st) (view st)"
  by (simp add: contents_def with_data_def fun_eq_iff)

lemma with_data_upd:
  "with_data file (m(i \<mapsto> r)) = (with_data file m)(i \<mapsto> (r\<lparr>rec_dataOffset := 0\<rparr>, blob_of file r))"
  "with_data file (m(i := None)) = (with_data file m)(i := None)"
  by (simp_all add: with_data_def fun_eq_iff)

lemma blob_of_cells: "blob_of file (r\<lparr>rec_cells := cs\<rparr>) = blob_of file r"
  by (simp add: blob_of_def)

lemma placed_blob:
  assumes "base \<le> length f" "n + length b \<le> length out" "take (length b) (drop n out) = b"
  shows "blob_of (write_at f base out) (r\<lparr>rec_dataOffset := int (base + n), rec_dataLength := int (length b)\<rparr>) = b"
proof -
  have "drop (base + n) (write_at f base out) = drop n (out @ drop (base + length out) f)"
    using assms(1) by (simp add: write_at_facts(3) add.commute flip: drop_drop)
  then show ?thesis using assms(2,3) by (simp add: blob_of_def nat_add_distrib)
qed

lemma placed_effect:
  assumes pl: "placed base out p r" and w: "writable columns base p" and base: "base \<le> length f"
  shows "with_data (write_at f base out) (record_effect n r m) = content_effect f n p (with_data (write_at f base out) m)"
proof (cases "snd p")
  case None
  then have r: "r = fst p" using pl by (simp add: placed_def)
  have "blob_of (write_at f base out) r = blob_of f r"
    using w None r upsert_ranges [of columns r] base
    by (intro blob_of_same_prefix [where base = base]) (auto simp: writable_def write_at_facts)
  then show ?thesis
    using None r by (simp add: record_effect_def content_effect_def Let_def with_data_upd blob_of_cells)
next
  case (Some b)
  then obtain j where r: "r = (fst p)\<lparr>rec_dataOffset := int (base + j), rec_dataLength := int (length b)\<rparr>"
    "j + length b \<le> length out" "take (length b) (drop j out) = b" using pl by (auto simp: placed_def)
  have kind: "rec_kind (fst p) \<noteq> recordDelete" using w Some by (simp add: writable_def record_constants)
  have "blob_of (write_at f base out) r = b" unfolding r(1) by (rule placed_blob [OF base r(2,3)])
  then have "blob_of (write_at f base out) (r\<lparr>rec_cells := canon_cells n (rec_cells r)\<rparr>) = b" by (simp only: blob_of_cells)
  then show ?thesis
    using Some kind by (simp add: record_effect_def content_effect_def Let_def with_data_upd r(1))
qed

lemma placed_effects:
  "list_all2 (placed base out) ps rs \<Longrightarrow> list_all (writable columns base) ps \<Longrightarrow> base \<le> length f \<Longrightarrow>
   with_data (write_at f base out) (fold (record_effect n) rs m) =
     fold (content_effect f n) ps (with_data (write_at f base out) m)"
  by (induction arbitrary: m rule: list_all2_induct) (simp_all add: placed_effect [where columns = columns])

lemma with_data_same_prefix:
  assumes "take base f' = take base f"
    and "\<And>i r. m i = Some r \<Longrightarrow> rec_dataOffset r + rec_dataLength r \<le> int base \<and> 0 \<le> rec_dataOffset r \<and> 0 \<le> rec_dataLength r"
  shows "with_data f' m = with_data f m"
  using assms(2) blob_of_same_prefix [OF assms(1)] by (fastforce simp: with_data_def fun_eq_iff map_option_case split: option.splits)

lemma placed_lengths:
  assumes "list_all2 (placed base out) ps rs"
  shows "sum_list (map record_length rs) \<le>
    sum_list (map (\<lambda>p. case snd p of None \<Rightarrow> record_length (fst p) | Some b \<Rightarrow> length b) ps)"
  using assms
proof (induction rule: list_all2_induct)
  case (Cons p ps r rs)
  then have "record_length r \<le> (case snd p of None \<Rightarrow> record_length (fst p) | Some b \<Rightarrow> length b)"
    by (auto simp: placed_def record_length_def split: option.splits)
  with Cons.IH show ?case by simp
qed simp

lemma store_okD:
  assumes "store_ok k st"
  shows "collection_inv k st" "index_ok st" "columns_ok st" "dataSize st \<le> length (dataFile st)"
    "view st i = Some r \<Longrightarrow> rec_dataOffset r + rec_dataLength r \<le> int (dataSize st) \<and> 0 \<le> rec_dataOffset r \<and> 0 \<le> rec_dataLength r"
    "int (live_bytes (view st)) \<le> MaxInt64" "int (length (dataFile st)) \<le> MaxInt64"
    "int (length (Scalars st)) \<le> MaxInt64"
proof -
  show inv: "collection_inv k st" using assms by (simp add: store_ok_def)
  then show "index_ok st" by (simp add: collection_inv_def)
  show "rec_dataOffset r + rec_dataLength r \<le> int (dataSize st) \<and> 0 \<le> rec_dataOffset r \<and> 0 \<le> rec_dataLength r"
    if "view st i = Some r"
    using assms that upsert_ranges [OF view_record_ok(1) [OF inv that]] by (auto simp: store_ok_def)
qed (use assms in \<open>simp_all add: store_ok_def\<close>)

lemma store_compactable:
  assumes "store_ok k st"
  shows "view st i = Some r \<Longrightarrow> rec_dataOffset r + rec_dataLength r \<le> int (length (dataFile st))"
    "list_all (readable st) [0..<length (rows st)]"
    "int (length (compacted_data st [0..<length (rows st)])) \<le> MaxInt64"
proof -
  note ok = store_okD [OF assms]
  show within: "rec_dataOffset r + rec_dataLength r \<le> int (length (dataFile st))" if "view st i = Some r" for i r
    using ok(4) ok(5) [OF that] by linarith
  show rd: "list_all (readable st) [0..<length (rows st)]"
    using inv_readable [OF ok(1) _ within] by (simp add: list_all_iff)
  show "int (length (compacted_data st [0..<length (rows st)])) \<le> MaxInt64"
    unfolding live_bytes_compacted [OF ok(2) rd] by (rule ok(6))
qed

lemma store_compact:
  assumes "store_ok k st"
  obtains switched where "compact filesOk st = Returns (switched, if switched then compacted_state st else st)"
    "switched \<Longrightarrow> collection_inv k (compacted_state st) \<and> contents (compacted_state st) = contents st \<and>
       on_disk (compacted st [0..<length (rows st)] 0) (compacted_state st)"
proof (cases filesOk)
  case True
  have "\<exists>switched. compact True st = Returns (switched, if switched then compacted_state st else st) \<and>
      (switched \<longrightarrow> collection_inv k (compacted_state st) \<and> contents (compacted_state st) = contents st \<and>
         on_disk (compacted st [0..<length (rows st)] 0) (compacted_state st))"
    using compact_result [OF store_okD(1) [OF assms] _ store_compactable(3) [OF assms]] store_compactable(1) [OF assms]
    by blast
  then show ?thesis using that True by auto
next
  case False
  then show ?thesis using that [of False] by (simp add: compact_def)
qed

lemma compacted_store_ok:
  assumes ok: "store_ok k st" and new: "collection_inv k (compacted_state st)" "contents (compacted_state st) = contents st"
    "on_disk (compacted st [0..<length (rows st)] 0) (compacted_state st)"
  shows "store_ok k (compacted_state st)"
proof -
  have "columns_ok (compacted_state st)"
    using store_okD(3) [OF ok] by (simp add: columns_ok_def compacted_state_def Let_def)
  moreover have "int (length (dataFile (compacted_state st))) \<le> MaxInt64"
    using store_compactable(3) [OF ok] by (simp add: compacted_state_same)
  moreover have "int (live_bytes (view (compacted_state st))) \<le> MaxInt64"
    using live_bytes_contents [OF new(2)] store_okD(6) [OF ok] by simp
  moreover have "dataSize (compacted_state st) \<le> length (dataFile (compacted_state st))"
    using new(3) by (simp add: on_disk_def)
  ultimately show ?thesis
    using new(1) on_disk_within [OF new(3)] store_okD(8) [OF ok]
    unfolding store_ok_def compacted_state_same(1) by blast
qed

text \<open>New bytes a write makes the rows hold.\<close>

definition payload_length :: "(rowRecord \<times> bytes option) list \<Rightarrow> nat" where
  "payload_length ps = sum_list (map (\<lambda>p. case snd p of None \<Rightarrow> record_length (fst p) | Some b \<Rightarrow> length b) ps)"

lemma write_records_atomic:
  assumes st: "store_ok (cells_total (map fst ps) + k) st"
    and ok: "list_all (writable (Scalars st) (dataSize st)) ps"
    and fits: "int (length (dataFile st) + blobs_length ps) \<le> MaxInt64"
    and live: "int (live_bytes (view st) + payload_length ps) \<le> MaxInt64"
  obtains e st' where "write_records fault ps st = Returns (e, st')" "store_ok k st'" "Scalars st' = Scalars st"
    "columnIndex st' = columnIndex st" "fault = NoFault \<Longrightarrow> e = None \<or> e = Some FrameTooLong"
    "contents st' = (if e = None then fold (content_effect (dataFile st) (length (Scalars st))) ps (contents st) else contents st)"
proof -
  note s = store_okD [OF st]
  obtain new out where pl: "place_blobs (dataSize st) [] ps = (new, out)" by (cases "place_blobs (dataSize st) [] ps")
  have fits': "int (dataSize st + blobs_length ps) \<le> MaxInt64" using fits s(4) by linarith
  note pk = place_blobs_ok [OF ok fits' pl]
  obtain e st' n where w: "write_records fault ps st = Returns (e, st')"
    "data_after (dataFile st) (dataSize st) out (dataFile st')" "Scalars st' = Scalars st" "columnIndex st' = columnIndex st"
    "collection_inv k st'" "dataSize st \<le> dataSize st'" "dataSize st' \<le> length (dataFile st')"
    "fault = NoFault \<Longrightarrow> e = None \<or> e = Some FrameTooLong" "e \<noteq> None \<Longrightarrow> view st' = view st"
    "e = None \<Longrightarrow> dataSize st' = dataSize st + length out \<and> dataFile st' = write_at (dataFile st) (dataSize st) out \<and>
       view st' = fold (record_effect (length (Scalars st))) new (view st)"
    by (rule write_records_outcome [OF s(1,4) ok fits' pl]) blast
  have old: "with_data (dataFile st') (view st) = contents st"
    unfolding contents_with_data using w(2) s(5) by (intro with_data_same_prefix [where base = "dataSize st"]) (auto simp: data_after_def)
  have contents': "contents st' = (if e = None then fold (content_effect (dataFile st) (length (Scalars st))) ps (contents st) else contents st)"
  proof (cases e)
    case None
    then show ?thesis
      using placed_effects [OF pk(2) ok s(4)] w(10) old by (simp add: contents_with_data [of st'])
  next
    case (Some err)
    then show ?thesis using w(9) old by (simp add: contents_with_data [of st'])
  qed
  have ranges: "rec_dataOffset r + rec_dataLength r \<le> int (dataSize st')" if v: "view st' i = Some r" for i r
  proof (cases "view st i = Some r")
    case True
    then show ?thesis using s(5) w(6) by fastforce
  next
    case False
    then have "e = None" using w(9) v by fastforce
    with v w(10) False fold_effect_source obtain r0 where "r0 \<in> set new" "rec_dataOffset r = rec_dataOffset r0"
      "rec_dataLength r = rec_dataLength r0" by metis
    with pk(4) \<open>e = None\<close> w(10) show ?thesis by (auto simp: list_all_iff)
  qed
  have "live_bytes (view st') \<le> live_bytes (view st) + payload_length ps"
  proof (cases e)
    case None
    have "live_bytes (view st') \<le> live_bytes (view st) + sum_list (map record_length new)"
      using w(10) None live_bytes_effects [OF finite_view [OF s(2)]] by simp
    with placed_lengths [OF pk(2)] show ?thesis by (simp add: payload_length_def)
  qed (use w(9) in simp)
  moreover have "int (length (dataFile st')) \<le> MaxInt64"
    using w(2) pk(1) fits s(4) by (auto simp: data_after_def)
  ultimately have "store_ok k st'"
    using w(3-7) ranges live s(3,8) unfolding store_ok_def columns_ok_def by auto
  with w(1,3,4,8) contents' that show ?thesis by blast
qed

lemma collection_write_atomic:
  assumes st: "store_ok (cells_total (map fst ps) + k) st"
    and ok: "list_all (writable (Scalars st) (dataSize st)) ps"
    and fits: "int (length (dataFile st) + blobs_length ps) \<le> MaxInt64"
    and live: "int (live_bytes (view st) + payload_length ps) \<le> MaxInt64"
  obtains e st' where "collection_write fault filesOk ps st = Returns (e, st')" "store_ok k st'" "Scalars st' = Scalars st"
    "columnIndex st' = columnIndex st" "fault = NoFault \<Longrightarrow> e = None \<or> e = Some FrameTooLong"
    "contents st' = (if e = None then fold (content_effect (dataFile st) (length (Scalars st))) ps (contents st) else contents st)"
proof -
  obtain e st1 where w: "write_records fault ps st = Returns (e, st1)" "store_ok k st1" "Scalars st1 = Scalars st"
    "columnIndex st1 = columnIndex st" "fault = NoFault \<Longrightarrow> e = None \<or> e = Some FrameTooLong"
    "contents st1 = (if e = None then fold (content_effect (dataFile st) (length (Scalars st))) ps (contents st) else contents st)"
    using write_records_atomic [OF assms] by blast
  show ?thesis
  proof (cases "e = None \<and> dead st1 > compactMinimumDead \<and> dead st1 > length (rows st1)")
    case True
    obtain switched where c: "compact filesOk st1 = Returns (switched, if switched then compacted_state st1 else st1)"
      "switched \<Longrightarrow> collection_inv k (compacted_state st1) \<and> contents (compacted_state st1) = contents st1 \<and>
         on_disk (compacted st1 [0..<length (rows st1)] 0) (compacted_state st1)"
      using store_compact [OF w(2)] by blast
    let ?st = "if switched then compacted_state st1 else st1"
    have "collection_write fault filesOk ps st = Returns (None, ?st)"
      using w(1) True c(1) by (simp add: collection_write_def)
    moreover have "store_ok k ?st" using c(2) compacted_store_ok [OF w(2)] w(2) by auto
    moreover have "contents ?st = contents st1" using c(2) by auto
    moreover have "Scalars ?st = Scalars st" "columnIndex ?st = columnIndex st"
      using w(3,4) by (simp_all add: compacted_state_same)
    ultimately show ?thesis using that [of None ?st] True w(6) by simp
  next
    case False
    then have "collection_write fault filesOk ps st = Returns (e, st1)"
      using w(1) by (auto simp: collection_write_def)
    with w that show ?thesis by blast
  qed
qed

section \<open>Reading a row\<close>

lemma readBlob_contents:
  assumes ok: "store_ok k st" and p: "map_of (byID st) i = Some p" "contents st i = Some (r, blob)"
  shows "readBlob p st = and_then (decodeBlob blob) (\<lambda>decoded.
    Returns (case decoded of None \<Rightarrow> Inl BlobMalformed | Some texts \<Rightarrow> Inr texts))"
proof -
  have len: "p < length (rows st)" using index_okD(2) [OF store_okD(2) [OF ok]] p(1) by simp
  have rd: "readable st p" using store_compactable(2) [OF ok] len by (simp add: list_all_iff)
  have "blob = blob_of (dataFile st) (record_at st p)" using p by (simp add: contents_def view_def)
  moreover have "rec_dataOffset (record_at st p) = row_dataOffset (rows st ! p)"
    "rec_dataLength (record_at st p) = row_dataLength (rows st ! p)" by (simp_all add: row_record_def)
  ultimately show ?thesis
    using readable_read(1) [OF rd] len by (simp add: readBlob_def Let_def)
qed

text \<open>The cell of a record in a column.\<close>

lemma record_cells:
  assumes ok: "store_ok k st" and p: "p < length (rows st)" and c: "map_of (columnIndex st) name = Some c"
  shows "c < length (dictionaries st)" "c < length (row_cells (rows st ! p))"
    "row_cells (rows st ! p) ! c < length (dict_values (dictionaries st ! c))"
    "last_cell (rec_cells (record_at st p)) c =
      (if row_cells (rows st ! p) ! c = 0 then None else Some (dict_values (dictionaries st ! c) ! (row_cells (rows st ! p) ! c)))"
proof -
  have ck: "cells_ok st" using store_okD(1) [OF ok] by (simp add: collection_inv_def)
  have row: "row_ok (dictionaries st) (rows st ! p)" using ck p by (simp add: cells_ok_def list_all_length)
  show c': "c < length (dictionaries st)"
    using store_okD(3) [OF ok] c ck by (auto simp: columns_ok_def cells_ok_def)
  show len: "c < length (row_cells (rows st ! p))" "row_cells (rows st ! p) ! c < length (dict_values (dictionaries st ! c))"
    using row c' by (simp_all add: row_ok_def)
  from last_cell_stored [OF len(1)] show "last_cell (rec_cells (record_at st p)) c =
      (if row_cells (rows st ! p) ! c = 0 then None else Some (dict_values (dictionaries st ! c) ! (row_cells (rows st ! p) ! c)))"
    by simp
qed

end
