(* ===== verification/Codestore_Rank.thy ===== *)
theory Codestore_Rank
  imports Complex_Main Codestore_Filter "HOL-Library.Multiset" "HOL-Library.List_Lexorder" "HOL-Library.Char_ord"
    "HOL-Library.Product_Lexorder"
begin

unbundle bit_operations_syntax

text \<open>
  Ranking the rows of a code collection (\<open>codestore/rank.go\<close>) by the Hamming distance of their
  sign codes (\<open>staticembed/model.go\<close>). Candidates are compared by distance and then by row ID;
  row IDs are distinct, so the sort has one result. Vector components are rational numbers,
  and the scores \<open>1 - d / 128\<close> are exact in floating point. The number of processors is an
  argument; the workers of a search do not interact.
\<close>

section \<open>Sign codes\<close>

definition Dimensions :: nat where "Dimensions = 256"

definition CodeOf :: "rat list \<Rightarrow> 64 word list" where
  "CodeOf vector =
     foldl (\<lambda>code d. if vector ! d > 0
         then code[d div 64 := (code ! (d div 64)) OR push_bit (d mod 64) 1] else code)
       (replicate codeWords 0) [0..<min (length vector) Dimensions]"

definition OnesCount64 :: "64 word \<Rightarrow> nat" where
  "OnesCount64 w = length (filter (bit w) [0..<64])"

definition Distance :: "64 word list \<Rightarrow> 64 word list \<Rightarrow> nat" where
  "Distance code other = foldl (\<lambda>d word. d + OnesCount64 (code ! word XOR other ! word)) 0 [0..<codeWords]"

definition Score :: "nat \<Rightarrow> rat" where
  "Score d = 1 - 2 * of_nat d / of_nat Dimensions"

fun max_distance_loop :: "rat \<Rightarrow> nat list \<Rightarrow> int \<Rightarrow> int" where
  "max_distance_loop minScore [] limit = limit"
| "max_distance_loop minScore (d # ds) limit =
     (if Score d < minScore then limit else max_distance_loop minScore ds (int d))"

definition maxDistanceFor :: "rat \<Rightarrow> int" where
  "maxDistanceFor minScore = max_distance_loop minScore [0..<Dimensions + 1] (- 1)"

section \<open>The ranking\<close>

definition rankingWorkerRows :: nat where "rankingWorkerRows = 4096"
definition selectionWindowFactor :: nat where "selectionWindowFactor = 2"
definition selectionMinimumCapacity :: nat where "selectionMinimumCapacity = 64"

record candidate =
  cand_position :: nat
  cand_distance :: nat

record rankingWalk =
  window :: nat
  maxDistance :: int
  grouped :: bool
  groupColumn :: nat
  perGroup :: nat

definition compareCandidates :: "codeCollection \<Rightarrow> candidate \<Rightarrow> candidate \<Rightarrow> int" where
  "compareCandidates st left right =
     (if cand_distance left \<noteq> cand_distance right then int (cand_distance left) - int (cand_distance right)
      else let a = row_id (rows st ! cand_position left); b = row_id (rows st ! cand_position right) in
        if a < b then - 1 else if a = b then 0 else 1)"

definition groupKey :: "codeCollection \<Rightarrow> nat \<Rightarrow> nat \<Rightarrow> nat" where
  "groupKey st position column =
     (let key = row_cells (rows st ! position) ! column in
      if key \<noteq> 0 \<and> scalar_null (dict_values (dictionaries st ! column) ! key) then 0 else key)"

fun walk_loop ::
    "(candidate \<Rightarrow> nat) \<Rightarrow> rankingWalk \<Rightarrow> candidate list \<Rightarrow> candidate list \<Rightarrow> (nat \<times> nat) list \<Rightarrow> candidate list" where
  "walk_loop key walk [] kept seen = kept"
| "walk_loop key walk (c # cs) kept seen =
     (if length kept = window walk then kept
      else if grouped walk then
        let n = (case map_of seen (key c) of None \<Rightarrow> 0 | Some n \<Rightarrow> n) in
        if n \<ge> perGroup walk then walk_loop key walk cs kept seen
        else walk_loop key walk cs (kept @ [c]) (AList.update (key c) (n + 1) seen)
      else walk_loop key walk cs (kept @ [c]) seen)"

definition walkRanking :: "codeCollection \<Rightarrow> candidate list \<Rightarrow> rankingWalk \<Rightarrow> candidate list" where
  "walkRanking st sorted_list walk =
     walk_loop (\<lambda>c. groupKey st (cand_position c) (groupColumn walk)) walk sorted_list [] []"

definition order_key :: "codeCollection \<Rightarrow> candidate \<Rightarrow> nat \<times> bytes" where
  "order_key st c = (cand_distance c, row_id (rows st ! cand_position c))"

definition sortCandidates :: "codeCollection \<Rightarrow> candidate list \<Rightarrow> candidate list" where
  "sortCandidates st cs = sort_key (order_key st) cs"

record selection =
  sel_capacity :: nat
  sel_items :: "candidate list"
  sel_full :: bool
  sel_threshold :: candidate

definition newSelection :: "rankingWalk \<Rightarrow> selection" where
  "newSelection walk =
     \<lparr>sel_capacity = max (window walk * selectionWindowFactor) selectionMinimumCapacity, sel_items = [],
      sel_full = False, sel_threshold = \<lparr>cand_position = 0, cand_distance = 0\<rparr>\<rparr>"

text \<open>With a window of zero the threshold would be read before the first item.\<close>

definition settle :: "codeCollection \<Rightarrow> rankingWalk \<Rightarrow> selection \<Rightarrow> selection outcome" where
  "settle st walk sel =
     (let items = walkRanking st (sortCandidates st (sel_items sel)) walk;
          sel = sel\<lparr>sel_items := items\<rparr>
      in if length items = window walk
         then (if items = [] then Panic else Returns (sel\<lparr>sel_full := True, sel_threshold := last items\<rparr>))
         else Returns sel)"

definition offer :: "codeCollection \<Rightarrow> rankingWalk \<Rightarrow> candidate \<Rightarrow> selection \<Rightarrow> selection outcome" where
  "offer st walk c sel =
     (if sel_full sel \<and> compareCandidates st c (sel_threshold sel) \<ge> 0 then Returns sel
      else let sel = sel\<lparr>sel_items := sel_items sel @ [c]\<rparr> in
        if length (sel_items sel) \<ge> sel_capacity sel then settle st walk sel else Returns sel)"

fun rank_worker ::
    "codeCollection \<Rightarrow> 64 word list \<Rightarrow> predicate \<Rightarrow> rankingWalk \<Rightarrow> nat list \<Rightarrow> selection \<Rightarrow> selection outcome" where
  "rank_worker st query matches walk [] best = settle st walk best"
| "rank_worker st query matches walk (position # rest) best =
     and_then (matches position) (\<lambda>t.
       if t \<noteq> truthTrue then rank_worker st query matches walk rest best
       else let d = Distance query (codes st ! position) in
         if int d > maxDistance walk then rank_worker st query matches walk rest best
         else and_then (offer st walk \<lparr>cand_position = position, cand_distance = d\<rparr> best)
                (rank_worker st query matches walk rest))"

text \<open>The result is \<open>None\<close> when a worker panicked.\<close>

definition rank ::
    "nat \<Rightarrow> codeCollection \<Rightarrow> 64 word list \<Rightarrow> predicate \<Rightarrow> rankingWalk \<Rightarrow> candidate list option" where
  "rank procs st query matches walk =
     (let total = length (rows st);
          workers = max (min procs (total div rankingWorkerRows)) 1;
          chunk = (total + workers - 1) div workers;
          partials = map (\<lambda>w. rank_worker st query matches walk [w * chunk..<min (w * chunk + chunk) total] (newSelection walk))
            [0..<workers]
      in if list_ex (\<lambda>p. p = Panic) partials then None
         else let merged = concat (map (\<lambda>p. case p of Returns sel \<Rightarrow> sel_items sel | Panic \<Rightarrow> []) partials)
              in Some (walkRanking st (sortCandidates st merged) walk))"

section \<open>Codes and scores\<close>

lemma Score_antimono: "d \<le> d' \<Longrightarrow> Score d' \<le> Score d"
  by (simp add: Score_def Dimensions_def)

lemma max_distance_loop_spec:
  "n \<le> m \<Longrightarrow> (\<forall>d < n. minScore \<le> Score d) \<Longrightarrow>
   d < m \<Longrightarrow> int d \<le> max_distance_loop minScore [n..<m] (int n - 1) \<longleftrightarrow> minScore \<le> Score d"
proof (induction "m - n" arbitrary: n)
  case 0
  then show ?case by simp
next
  case (Suc k)
  then have up: "[n..<m] = n # [Suc n..<m]" by (simp add: upt_conv_Cons)
  show ?case
  proof (cases "Score n < minScore")
    case True
    then have "\<not> minScore \<le> Score d" if "n \<le> d" using Score_antimono [OF that] by linarith
    moreover have "max_distance_loop minScore [n..<m] (int n - 1) = int n - 1" using True up by simp
    ultimately show ?thesis using Suc.prems(2) by (cases "d < n") auto
  next
    case False
    then have "\<forall>d < Suc n. minScore \<le> Score d" using Suc.prems(2) by (auto simp: less_Suc_eq)
    with Suc.hyps(1) [of "Suc n"] Suc.hyps(2) Suc.prems False up show ?thesis by simp
  qed
qed

lemma OnesCount64_le: "OnesCount64 w \<le> 64"
  unfolding OnesCount64_def by (metis diff_zero length_filter_le length_upt)

lemma Distance_sum: "Distance code other = (\<Sum>word < codeWords. OnesCount64 (code ! word XOR other ! word))"
proof -
  have "foldl (\<lambda>d word. d + f word) n ws = n + sum_list (map f ws)" for f :: "nat \<Rightarrow> nat" and n ws
    by (induction ws arbitrary: n) simp_all
  then show ?thesis by (simp add: Distance_def interv_sum_list_conv_sum_set_nat atLeast0LessThan)
qed

lemma Distance_le: "Distance code other \<le> Dimensions"
proof -
  have "Distance code other \<le> (\<Sum>word < codeWords. 64)"
    unfolding Distance_sum using OnesCount64_le by (intro sum_mono)
  then show ?thesis by (simp add: Dimensions_def codeWords_def)
qed

text \<open>The distance bound of a minimum score admits exactly the distances whose score reaches it.\<close>

lemma maxDistanceFor_exact:
  "int (Distance code other) \<le> maxDistanceFor minScore \<longleftrightarrow> minScore \<le> Score (Distance code other)"
  using max_distance_loop_spec [of 0 "Dimensions + 1" minScore "Distance code other"] Distance_le [of code other]
  by (simp add: maxDistanceFor_def del: upt_Suc)

text \<open>The bits of a sign code are the signs of the vector.\<close>

definition sign_at :: "rat list \<Rightarrow> nat \<Rightarrow> bool" where
  "sign_at vector d \<longleftrightarrow> d < length vector \<and> vector ! d > 0"

lemma CodeOf_prefix:
  "n \<le> 64 * codeWords \<Longrightarrow>
   let code = foldl (\<lambda>code d. if vector ! d > 0
         then code[d div 64 := (code ! (d div 64)) OR push_bit (d mod 64) 1] else code)
       (replicate codeWords (0 :: 64 word)) [0..<n]
   in length code = codeWords \<and>
      (\<forall>word < codeWords. \<forall>b < 64. bit (code ! word) b \<longleftrightarrow> 64 * word + b < n \<and> vector ! (64 * word + b) > 0)"
proof (induction n)
  case (Suc n)
  let ?step = "\<lambda>code d. if vector ! d > 0
         then code[d div 64 := (code ! (d div 64)) OR push_bit (d mod 64) 1] else code"
  define code where "code = foldl ?step (replicate codeWords (0 :: 64 word)) [0..<n]"
  have IH: "length code = codeWords"
    "\<And>word b. word < codeWords \<Longrightarrow> b < 64 \<Longrightarrow>
       bit (code ! word) b \<longleftrightarrow> 64 * word + b < n \<and> vector ! (64 * word + b) > 0"
    using Suc by (simp_all add: code_def Let_def)
  have at: "n div 64 < codeWords" using Suc.prems by (simp add: codeWords_def)
  have n: "n = 64 * word + b \<longleftrightarrow> n div 64 = word \<and> n mod 64 = b" if "b < 64" for word b
    using that by auto
  have step: "bit (?step code n ! word) b \<longleftrightarrow> 64 * word + b < Suc n \<and> vector ! (64 * word + b) > 0"
    if "word < codeWords" "b < 64" for word b
  proof (cases "n = 64 * word + b")
    case True
    with n [OF that(2), of word] IH that at show ?thesis
      by (auto simp: bit_or_iff bit_exp_iff)
  next
    case False
    then have less: "64 * word + b < Suc n \<longleftrightarrow> 64 * word + b < n" by auto
    from False n [OF that(2), of word] have "n div 64 \<noteq> word \<or> n mod 64 \<noteq> b" by simp
    with IH that at show ?thesis unfolding less
      by (cases "n div 64 = word") (auto simp: bit_or_iff bit_exp_iff)
  qed
  have len: "length (?step code n) = codeWords" using IH(1) by simp
  have "foldl ?step (replicate codeWords (0 :: 64 word)) [0..<Suc n] = ?step code n" by (simp add: code_def)
  then show ?case unfolding Let_def using step len by simp
qed simp

lemma bit_CodeOf:
  assumes "word < codeWords" "b < 64"
  shows "bit (CodeOf vector ! word) b = sign_at vector (64 * word + b)"
proof -
  have "min (length vector) Dimensions \<le> 64 * codeWords" by (simp add: Dimensions_def codeWords_def)
  from CodeOf_prefix [OF this, of vector] assms
  have "bit (CodeOf vector ! word) b \<longleftrightarrow>
      64 * word + b < min (length vector) Dimensions \<and> vector ! (64 * word + b) > 0"
    unfolding CodeOf_def Let_def by blast
  with assms show ?thesis by (auto simp: sign_at_def Dimensions_def codeWords_def)
qed

lemma filter_blocks: "length (filter P [0..<64 * n]) = (\<Sum>word < n. length (filter (\<lambda>b. P (64 * word + b)) [0..<64]))"
proof (induction n)
  case (Suc n)
  have "[0..<64 * Suc n] = [0..<64 * n] @ map (\<lambda>b. 64 * n + b) [0..<64]"
    using upt_add_eq_append [of 0 "64 * n" 64] map_add_upt [of "64 * n" 64] by (simp add: add.commute)
  with Suc show ?case by (simp add: filter_map o_def)
qed simp

section \<open>Keeping the first of each group\<close>

definition admits :: "nat option \<Rightarrow> nat \<Rightarrow> bool" where
  "admits limit n \<longleftrightarrow> (case limit of None \<Rightarrow> True | Some q \<Rightarrow> n < q)"

fun group_filter :: "('a \<Rightarrow> nat) \<Rightarrow> nat option \<Rightarrow> (nat \<Rightarrow> nat) \<Rightarrow> 'a list \<Rightarrow> 'a list" where
  "group_filter key limit seen [] = []"
| "group_filter key limit seen (x # xs) =
     (if admits limit (seen (key x)) then x # group_filter key limit (seen(key x := Suc (seen (key x)))) xs
      else group_filter key limit seen xs)"

fun group_counts :: "('a \<Rightarrow> nat) \<Rightarrow> nat option \<Rightarrow> (nat \<Rightarrow> nat) \<Rightarrow> 'a list \<Rightarrow> nat \<Rightarrow> nat" where
  "group_counts key limit seen [] = seen"
| "group_counts key limit seen (x # xs) =
     (if admits limit (seen (key x)) then group_counts key limit (seen(key x := Suc (seen (key x)))) xs
      else group_counts key limit seen xs)"

lemma group_filter_append:
  "group_filter key limit seen (xs @ ys) =
   group_filter key limit seen xs @ group_filter key limit (group_counts key limit seen xs) ys"
  by (induction xs arbitrary: seen) simp_all

lemma group_filter_None: "group_filter key None seen xs = xs"
  by (induction xs arbitrary: seen) (simp_all add: admits_def)

lemma group_filter_set: "set (group_filter key limit seen xs) \<subseteq> set xs"
  by (induction xs arbitrary: seen) auto

lemma group_filter_subseq: "subseq (group_filter key limit seen xs) xs"
  by (induction xs arbitrary: seen) auto

lemma group_filter_idem:
  "group_filter key limit seen (group_filter key limit seen xs) = group_filter key limit seen xs"
  by (induction xs arbitrary: seen) simp_all

lemma group_filter_take:
  "group_filter key limit seen ys = ys \<Longrightarrow> group_filter key limit seen (take n ys) = take n ys"
  by (induction ys arbitrary: seen n) (auto simp: take_Cons' split: if_splits,
      metis group_filter_set list.set_intros(1) group_filter_subseq list_emb_length Suc_n_not_le_n length_Cons)

lemma group_counts_closed:
  "group_counts key limit seen xs k =
     (let n = length (filter (\<lambda>x. key x = k) xs) in
      case limit of None \<Rightarrow> seen k + n | Some q \<Rightarrow> max (seen k) (min q (seen k + n)))"
  by (induction xs arbitrary: seen) (auto simp: admits_def Let_def split: option.splits)

lemma group_counts_mono: "subseq xs ys \<Longrightarrow> group_counts key limit seen xs k \<le> group_counts key limit seen ys k"
proof -
  assume "subseq xs ys"
  then have "subseq (filter (\<lambda>x. key x = k) xs) (filter (\<lambda>x. key x = k) ys)" by (rule subseq_filter)
  then have "length (filter (\<lambda>x. key x = k) xs) \<le> length (filter (\<lambda>x. key x = k) ys)" by (rule list_emb_length)
  then show ?thesis unfolding group_counts_closed Let_def by (auto split: option.splits)
qed

lemma group_filter_length:
  "finite K \<Longrightarrow> key ` set xs \<subseteq> K \<Longrightarrow>
   length (group_filter key limit seen xs) + sum seen K = sum (group_counts key limit seen xs) K"
proof (induction xs arbitrary: seen)
  case (Cons x xs)
  define more_seen where "more_seen = seen(key x := Suc (seen (key x)))"
  have "sum more_seen K = Suc (sum seen K)"
    using Cons.prems by (simp add: more_seen_def sum.remove [of K "key x"])
  with Cons.IH [of more_seen] Cons.IH [of seen] Cons.prems show ?case
    by (simp flip: more_seen_def)
qed simp

lemma group_filter_length_mono:
  assumes "subseq xs ys"
  shows "length (group_filter key limit seen xs) \<le> length (group_filter key limit seen ys)"
proof -
  let ?K = "key ` set ys"
  have "set xs \<subseteq> set ys" using assms by (auto elim: list_emb_set)
  then have "length (group_filter key limit seen xs) + sum seen ?K = sum (group_counts key limit seen xs) ?K"
    by (intro group_filter_length) auto
  moreover have "length (group_filter key limit seen ys) + sum seen ?K = sum (group_counts key limit seen ys) ?K"
    by (intro group_filter_length) auto
  moreover have "sum (group_counts key limit seen xs) ?K \<le> sum (group_counts key limit seen ys) ?K"
    using group_counts_mono [OF assms] by (intro sum_mono)
  ultimately show ?thesis by linarith
qed

text \<open>The walk over a sorted list: the first \<open>w\<close> of those kept.\<close>

definition top_walk :: "('a \<Rightarrow> nat) \<Rightarrow> nat option \<Rightarrow> nat \<Rightarrow> 'a list \<Rightarrow> 'a list" where
  "top_walk key limit w xs = take w (group_filter key limit (\<lambda>_. 0) xs)"

definition walk_limit :: "rankingWalk \<Rightarrow> nat option" where
  "walk_limit walk = (if grouped walk then Some (perGroup walk) else None)"

lemma walk_loop_eq:
  "length kept \<le> window walk \<Longrightarrow>
   walk_loop key walk cs kept seen =
     kept @ take (window walk - length kept)
       (group_filter key (walk_limit walk) (\<lambda>k. case map_of seen k of None \<Rightarrow> 0 | Some n \<Rightarrow> n) cs)"
proof (induction cs arbitrary: kept seen)
  case (Cons c cs)
  let ?seen = "\<lambda>k. case map_of seen k of None \<Rightarrow> 0 | Some n \<Rightarrow> n"
  have upd: "(\<lambda>k. case map_of (AList.update (key c) (Suc (?seen (key c))) seen) k of None \<Rightarrow> 0 | Some n \<Rightarrow> n) =
      ?seen(key c := Suc (?seen (key c)))"
    by (auto simp: update_conv' fun_eq_iff)
  show ?case
  proof (cases "length kept = window walk")
    case False
    with Cons.prems have less: "length (kept @ [c]) \<le> window walk" by simp
    have suc: "window walk - length kept = Suc (window walk - length (kept @ [c]))" using less by simp
    show ?thesis
    proof (cases "grouped walk")
      case True
      with False Cons.IH [OF less, of "AList.update (key c) (Suc (?seen (key c))) seen"] Cons.IH [OF Cons.prems] upd suc
      show ?thesis by (simp add: walk_limit_def admits_def Let_def)
    next
      case ungrouped: False
      from ungrouped False Cons.IH [OF less, of seen] suc show ?thesis
        by (simp add: walk_limit_def admits_def group_filter_None)
    qed
  qed simp
qed simp

lemma walkRanking_top:
  "walkRanking st cs walk =
     top_walk (\<lambda>c. groupKey st (cand_position c) (groupColumn walk)) (walk_limit walk) (window walk) cs"
  by (simp add: walkRanking_def walk_loop_eq top_walk_def)

section \<open>Dropping what cannot be ranked\<close>

definition outranked :: "('a \<Rightarrow> nat) \<Rightarrow> nat option \<Rightarrow> nat \<Rightarrow> 'a list \<Rightarrow> 'a \<Rightarrow> bool" where
  "outranked key limit w better x \<longleftrightarrow>
     \<not> admits limit (group_counts key limit (\<lambda>_. 0) better (key x)) \<or>
     w \<le> length (group_filter key limit (\<lambda>_. 0) better)"

lemma admits_antimono: "m \<le> n \<Longrightarrow> admits limit n \<Longrightarrow> admits limit m"
  by (auto simp: admits_def split: option.splits)

lemma top_walk_drop:
  assumes "subseq better us" "outranked key limit w better x"
  shows "top_walk key limit w (us @ x # vs) = top_walk key limit w (us @ vs)"
proof -
  have "outranked key limit w us x"
    using assms(2) group_counts_mono [OF assms(1)] group_filter_length_mono [OF assms(1)] admits_antimono
    unfolding outranked_def by (meson order_trans)
  then show ?thesis
    by (auto simp: outranked_def top_walk_def group_filter_append)
qed

lemma top_walk_snoc:
  "top_walk key limit w (xs @ [x]) =
     (if outranked key limit w xs x then top_walk key limit w xs else top_walk key limit w xs @ [x])"
  by (auto simp: outranked_def top_walk_def group_filter_append)

section \<open>Sorted lists without ties\<close>

definition ascending :: "('a \<Rightarrow> 'b :: linorder) \<Rightarrow> 'a list \<Rightarrow> bool" where
  "ascending f xs \<longleftrightarrow> sorted_wrt (\<lambda>a b. f a < f b) xs"

lemma ascending_unique:
  assumes "ascending f xs" "ascending f ys" "set xs = set ys"
  shows "xs = ys"
proof -
  have s: "sorted_wrt (<) (map f xs)" "sorted_wrt (<) (map f ys)"
    using assms(1,2) by (simp_all add: ascending_def sorted_wrt_map)
  have "set (map f xs) = set (map f ys)" using assms(3) by simp
  with s have "map f xs = map f ys" by (metis strict_sorted_equal)
  moreover have "inj_on f (set xs)"
    using s(1) by (metis distinct_map strict_sorted_iff)
  ultimately show ?thesis using assms(3) by (metis map_inj_on sup.idem)
qed

lemma ascending_sort_key:
  assumes "distinct (map f xs)"
  shows "ascending f (sort_key f xs)"
proof -
  have "distinct (map f (sort_key f xs))"
    using assms by (metis mset_map mset_sort distinct_count_atmost_1 mset_eq_imp_distinct_iff)
  then show ?thesis
    by (simp add: ascending_def strict_sorted_iff flip: sorted_wrt_map)
qed

lemma ascending_filter: "ascending f xs \<Longrightarrow> ascending f (filter P xs)"
  by (simp add: ascending_def sorted_wrt_filter)

lemma ascending_append: "ascending f (xs @ ys) \<longleftrightarrow>
    ascending f xs \<and> ascending f ys \<and> (\<forall>x \<in> set xs. \<forall>y \<in> set ys. f x < f y)"
  by (simp add: ascending_def sorted_wrt_append)

lemma ascending_Cons: "ascending f (x # xs) \<longleftrightarrow> (\<forall>y \<in> set xs. f x < f y) \<and> ascending f xs"
  by (simp add: ascending_def)

lemma ascending_subset_subseq:
  assumes "ascending f xs" "ascending f ys" "set xs \<subseteq> set ys"
  shows "subseq xs ys"
proof -
  have "xs = filter (\<lambda>y. y \<in> set xs) ys"
    using assms by (intro ascending_unique [where f = f]) (auto intro: ascending_filter)
  then show ?thesis by (metis subseq_filter_left)
qed

lemma sort_key_perm:
  assumes "distinct (map f xs)" "distinct (map f ys)" "set xs = set ys"
  shows "sort_key f xs = sort_key f ys"
  using assms by (intro ascending_unique [where f = f] ascending_sort_key) simp_all

lemma sort_key_insert:
  assumes "distinct (map f (x # zs))"
  obtains us vs where "sort_key f zs = us @ vs" "sort_key f (x # zs) = us @ x # vs"
    "\<And>y. y \<in> set zs \<Longrightarrow> f y < f x \<Longrightarrow> y \<in> set us"
proof -
  let ?ys = "sort_key f zs"
  let ?us = "filter (\<lambda>y. f y < f x) ?ys" and ?vs = "filter (\<lambda>y. \<not> f y < f x) ?ys"
  have asc: "ascending f ?ys" using assms by (intro ascending_sort_key) simp
  have gt: "f x < f y" if "y \<in> set zs" "\<not> f y < f x" for y
    using assms that by (metis distinct.simps(2) image_eqI list.set_map list.simps(9) linorder_neqE)
  have "ascending f (?us @ ?vs)"
    using asc by (auto simp: ascending_append intro: ascending_filter)
  moreover have "set (?us @ ?vs) = set ?ys" by auto
  ultimately have 1: "?ys = ?us @ ?vs" using asc ascending_unique by metis
  have "ascending f (?us @ x # ?vs)"
    using asc gt by (fastforce simp: ascending_append ascending_Cons intro: ascending_filter)
  moreover have "ascending f (sort_key f (x # zs))" using assms by (rule ascending_sort_key)
  moreover have "set (?us @ x # ?vs) = set (sort_key f (x # zs))" unfolding set_sort by auto
  ultimately have 2: "sort_key f (x # zs) = ?us @ x # ?vs" using ascending_unique by metis
  from that [OF 1 2] show ?thesis by simp
qed

text \<open>An outranked candidate makes no difference, whatever else is ranked.\<close>

lemma ranking_drop:
  assumes "distinct (map f (x # zs))" "ascending f better" "set better \<subseteq> set zs"
    and "\<forall>b \<in> set better. f b < f x" "outranked key limit w better x"
  shows "top_walk key limit w (sort_key f (x # zs)) = top_walk key limit w (sort_key f zs)"
proof -
  obtain us vs where s: "sort_key f zs = us @ vs" "sort_key f (x # zs) = us @ x # vs"
    and us: "\<And>y. y \<in> set zs \<Longrightarrow> f y < f x \<Longrightarrow> y \<in> set us"
    using sort_key_insert [OF assms(1)] by blast
  have "ascending f (us @ vs)" unfolding s(1) [symmetric] using assms(1) by (intro ascending_sort_key) simp
  then have "ascending f us" by (simp add: ascending_append)
  then have "subseq better us" using assms(2,3,4) us by (intro ascending_subset_subseq) auto
  with assms(5) show ?thesis unfolding s by (intro top_walk_drop)
qed

text \<open>The ranking of some candidates stands for all of them.\<close>

definition stands_for :: "('a \<Rightarrow> 'b :: linorder) \<Rightarrow> ('a \<Rightarrow> nat) \<Rightarrow> nat option \<Rightarrow> nat \<Rightarrow> 'a list \<Rightarrow> 'a list \<Rightarrow> bool" where
  "stands_for f key limit w items all_items \<longleftrightarrow> set items \<subseteq> set all_items \<and> distinct (map f items) \<and>
     (\<forall>ys. distinct (map f (all_items @ ys)) \<longrightarrow>
        top_walk key limit w (sort_key f (items @ ys)) = top_walk key limit w (sort_key f (all_items @ ys)))"

lemma distinct_map_sub:
  assumes "distinct (map f (xs @ ys))" "set zs \<subseteq> set xs" "distinct (map f zs)"
  shows "distinct (map f (zs @ ys))"
  using assms image_mono [OF assms(2), of f] by (simp only: map_append distinct_append set_map) blast

lemma top_walk_stands_for:
  "ascending f xs \<Longrightarrow> stands_for f key limit w (top_walk key limit w xs) xs"
proof (induction xs rule: rev_induct)
  case Nil
  then show ?case by (simp add: stands_for_def top_walk_def)
next
  case (snoc x xs)
  have asc: "ascending f xs" "\<forall>y \<in> set xs. f y < f x" using snoc.prems by (simp_all add: ascending_append)
  have dist: "distinct (map f zs)" if "ascending f zs" for zs :: "'a list"
    using that by (simp add: ascending_def strict_sorted_iff flip: sorted_wrt_map)
  have IH: "set (top_walk key limit w xs) \<subseteq> set xs" "distinct (map f (top_walk key limit w xs))"
    "\<And>ys. distinct (map f (xs @ ys)) \<Longrightarrow>
       top_walk key limit w (sort_key f (top_walk key limit w xs @ ys)) = top_walk key limit w (sort_key f (xs @ ys))"
    using snoc.IH [OF asc(1)] by (simp_all add: stands_for_def)
  have perm: "sort_key f (x # xs @ ys) = sort_key f ((xs @ [x]) @ ys)"
    if "distinct (map f ((xs @ [x]) @ ys))" for ys
    by (rule sort_key_perm) (use that in auto)
  show ?case
  proof (cases "outranked key limit w xs x")
    case True
    have "top_walk key limit w (sort_key f (top_walk key limit w xs @ ys)) =
        top_walk key limit w (sort_key f ((xs @ [x]) @ ys))" if "distinct (map f ((xs @ [x]) @ ys))" for ys
    proof -
      have "top_walk key limit w (sort_key f (x # xs @ ys)) = top_walk key limit w (sort_key f (xs @ ys))"
        using that asc True by (intro ranking_drop [where better = xs]) auto
      moreover have "distinct (map f (xs @ ys))" using that by auto
      ultimately show ?thesis using IH(3) perm [OF that] by simp
    qed
    with True IH(1,2) show ?thesis by (auto simp: stands_for_def top_walk_snoc)
  next
    case False
    have "top_walk key limit w (sort_key f ((top_walk key limit w xs @ [x]) @ ys)) =
        top_walk key limit w (sort_key f ((xs @ [x]) @ ys))" if "distinct (map f ((xs @ [x]) @ ys))" for ys
    proof -
      have "distinct (map f (xs @ x # ys))" using that by simp
      from IH(3) [OF this] show ?thesis by simp
    qed
    moreover have "distinct (map f (top_walk key limit w xs @ [x]))"
      using IH(1,2) asc(2) by auto
    ultimately show ?thesis using False IH(1) by (auto simp: stands_for_def top_walk_snoc)
  qed
qed

lemma stands_for_refl: "distinct (map f xs) \<Longrightarrow> stands_for f key limit w xs xs"
  by (simp add: stands_for_def)

lemma stands_for_trans:
  assumes "stands_for f key limit w a b" "stands_for f key limit w b c"
  shows "stands_for f key limit w a c"
proof -
  have "distinct (map f (b @ ys))" if "distinct (map f (c @ ys))" for ys
    using assms(2) that by (intro distinct_map_sub [OF that]) (simp_all add: stands_for_def)
  then show ?thesis using assms unfolding stands_for_def by (metis subset_trans)
qed

lemma stands_for_append:
  assumes "stands_for f key limit w a b" "distinct (map f (b @ ys))"
  shows "stands_for f key limit w (a @ ys) (b @ ys)"
proof -
  have "distinct (map f (a @ ys))"
    using assms by (intro distinct_map_sub [OF assms(2)]) (simp_all add: stands_for_def)
  moreover have "top_walk key limit w (sort_key f ((a @ ys) @ zs)) = top_walk key limit w (sort_key f ((b @ ys) @ zs))"
    if "distinct (map f ((b @ ys) @ zs))" for zs
  proof -
    have "distinct (map f (b @ ys @ zs))" using that by simp
    then have "top_walk key limit w (sort_key f (a @ ys @ zs)) = top_walk key limit w (sort_key f (b @ ys @ zs))"
      using assms(1) unfolding stands_for_def by blast
    then show ?thesis by simp
  qed
  moreover have "set (a @ ys) \<subseteq> set (b @ ys)" using assms(1) by (auto simp: stands_for_def)
  ultimately show ?thesis unfolding stands_for_def by blast
qed

lemma stands_for_perm:
  assumes "set a = set b" "distinct (map f a)" "distinct (map f b)"
  shows "stands_for f key limit w a b"
proof -
  have "sort_key f (a @ ys) = sort_key f (b @ ys)" if "distinct (map f (b @ ys))" for ys
    using that assms by (intro sort_key_perm distinct_map_sub [OF that]) auto
  then show ?thesis using assms by (simp add: stands_for_def)
qed

lemma stands_for_join:
  assumes "stands_for f key limit w a b" "stands_for f key limit w a' b'" "distinct (map f (b @ b'))"
  shows "stands_for f key limit w (a @ a') (b @ b')"
proof -
  have d: "distinct (map f (b' @ b))" using assms(3) by auto
  have d': "distinct (map f (a' @ b))"
    using assms(2) by (intro distinct_map_sub [OF d]) (simp_all add: stands_for_def)
  then have "distinct (map f (b @ a'))" by auto
  with assms(1) have "stands_for f key limit w (a @ a') (b @ a')" by (intro stands_for_append)
  moreover have "stands_for f key limit w (b @ a') (a' @ b)" using d' by (intro stands_for_perm) auto
  moreover have "stands_for f key limit w (a' @ b) (b' @ b)" using assms(2) d by (rule stands_for_append)
  moreover have "stands_for f key limit w (b' @ b) (b @ b')" using d assms(3) by (intro stands_for_perm) auto
  ultimately show ?thesis using stands_for_trans by metis
qed

lemma stands_for_drop:
  assumes "stands_for f key limit w items seen" "distinct (map f (seen @ [x]))"
    and "ascending f better" "set better \<subseteq> set items" "\<forall>b \<in> set better. f b < f x" "outranked key limit w better x"
  shows "stands_for f key limit w items (seen @ [x])"
proof -
  have "stands_for f key limit w items (items @ [x])"
    unfolding stands_for_def
  proof (intro conjI allI impI)
    fix ys assume d: "distinct (map f ((items @ [x]) @ ys))"
    have "top_walk key limit w (sort_key f (x # items @ ys)) = top_walk key limit w (sort_key f (items @ ys))"
      using d assms(3-6) by (intro ranking_drop [where better = better]) auto
    moreover have "sort_key f (x # items @ ys) = sort_key f ((items @ [x]) @ ys)"
      by (rule sort_key_perm) (use d in auto)
    ultimately show "top_walk key limit w (sort_key f (items @ ys)) = top_walk key limit w (sort_key f ((items @ [x]) @ ys))"
      by simp
  qed (use assms(1) in \<open>auto simp: stands_for_def\<close>)
  moreover have "stands_for f key limit w (items @ [x]) (seen @ [x])" using assms(1,2) by (rule stands_for_append)
  ultimately show ?thesis by (rule stands_for_trans)
qed

section \<open>The bounded selection\<close>

abbreviation group_of :: "codeCollection \<Rightarrow> rankingWalk \<Rightarrow> candidate \<Rightarrow> nat" where
  "group_of st walk \<equiv> \<lambda>c. groupKey st (cand_position c) (groupColumn walk)"

abbreviation represents :: "codeCollection \<Rightarrow> rankingWalk \<Rightarrow> candidate list \<Rightarrow> candidate list \<Rightarrow> bool" where
  "represents st walk \<equiv> stands_for (order_key st) (group_of st walk) (walk_limit walk) (window walk)"

text \<open>The first items of a full selection fill the window up to its threshold.\<close>

definition full_window :: "codeCollection \<Rightarrow> rankingWalk \<Rightarrow> candidate list \<Rightarrow> candidate \<Rightarrow> bool" where
  "full_window st walk items threshold \<longleftrightarrow>
     (let first = take (window walk) items in
      length first = window walk \<and> ascending (order_key st) first \<and>
      group_filter (group_of st walk) (walk_limit walk) (\<lambda>_. 0) first = first \<and> last first = threshold)"

definition sel_ok :: "codeCollection \<Rightarrow> rankingWalk \<Rightarrow> candidate list \<Rightarrow> selection \<Rightarrow> bool" where
  "sel_ok st walk seen sel \<longleftrightarrow> represents st walk (sel_items sel) seen \<and>
     (sel_full sel \<longrightarrow> full_window st walk (sel_items sel) (sel_threshold sel))"

lemma ascending_subseq:
  assumes "ascending f xs" "subseq ys xs"
  shows "ascending f ys"
  using assms(2,1)
proof (induction rule: list_emb.induct)
  case (list_emb_Cons2 x y xs ys)
  then show ?case by (auto simp: ascending_Cons elim: list_emb_set)
qed (simp_all add: ascending_Cons ascending_def)

lemma compareCandidates_order_key: "compareCandidates st a b \<ge> 0 \<longleftrightarrow> order_key st b \<le> order_key st a"
  by (auto simp: compareCandidates_def order_key_def Let_def)

lemma full_window_append:
  "full_window st walk items threshold \<Longrightarrow> full_window st walk (items @ ys) threshold"
  by (auto simp: full_window_def Let_def)

lemma full_window_settled:
  assumes "distinct (map (order_key st) items)"
    and "length (walkRanking st (sortCandidates st items) walk) = window walk"
  shows "full_window st walk (walkRanking st (sortCandidates st items) walk)
    (last (walkRanking st (sortCandidates st items) walk))"
proof -
  let ?g = "group_filter (group_of st walk) (walk_limit walk) (\<lambda>_. 0) (sortCandidates st items)"
  have w: "walkRanking st (sortCandidates st items) walk = take (window walk) ?g"
    by (simp add: walkRanking_top top_walk_def)
  have "ascending (order_key st) (sortCandidates st items)"
    using assms(1) by (simp add: sortCandidates_def ascending_sort_key)
  moreover have "subseq (take (window walk) ?g) (sortCandidates st items)"
    using group_filter_subseq by (metis subseq_order.order_trans sublist_imp_subseq sublist_take)
  ultimately have "ascending (order_key st) (take (window walk) ?g)" by (rule ascending_subseq)
  then show ?thesis
    using assms(2) by (simp add: full_window_def w group_filter_take [OF group_filter_idem] Let_def)
qed

lemma full_window_stays_full:
  assumes "full_window st walk items threshold" "distinct (map (order_key st) items)"
  shows "length (walkRanking st (sortCandidates st items) walk) = window walk"
proof -
  let ?first = "take (window walk) items"
  have "subseq ?first (sortCandidates st items)"
    using assms
    by (intro ascending_subset_subseq [where f = "order_key st"])
      (auto simp: full_window_def Let_def sortCandidates_def ascending_sort_key dest: in_set_takeD)
  from group_filter_length_mono [OF this, of "group_of st walk" "walk_limit walk" "\<lambda>_. 0"] assms(1)
  show ?thesis by (simp add: walkRanking_top top_walk_def full_window_def Let_def)
qed

lemma settled_represents:
  assumes "represents st walk items seen"
  shows "represents st walk (walkRanking st (sortCandidates st items) walk) seen"
proof -
  have d: "distinct (map (order_key st) items)" using assms by (simp add: stands_for_def)
  have asc: "ascending (order_key st) (sortCandidates st items)"
    unfolding sortCandidates_def by (rule ascending_sort_key [OF d])
  then have "distinct (map (order_key st) (sortCandidates st items))"
    by (simp add: ascending_def strict_sorted_iff flip: sorted_wrt_map)
  then have "represents st walk (sortCandidates st items) items"
    using d by (intro stands_for_perm) (simp_all add: sortCandidates_def)
  moreover have "represents st walk (walkRanking st (sortCandidates st items) walk) (sortCandidates st items)"
    unfolding walkRanking_top by (rule top_walk_stands_for [OF asc])
  ultimately show ?thesis using assms stands_for_trans by metis
qed

lemma settle_ok:
  assumes "sel_ok st walk seen sel" "0 < window walk"
  obtains sel' where "settle st walk sel = Returns sel'" "sel_ok st walk seen sel'"
proof -
  let ?items = "walkRanking st (sortCandidates st (sel_items sel)) walk"
  have r: "represents st walk (sel_items sel) seen" using assms(1) by (simp add: sel_ok_def)
  have d: "distinct (map (order_key st) (sel_items sel))" using r by (simp add: stands_for_def)
  show ?thesis
  proof (cases "length ?items = window walk")
    case True
    then have "?items \<noteq> []" using assms(2) by auto
    with True have "settle st walk sel = Returns (sel\<lparr>sel_items := ?items, sel_full := True, sel_threshold := last ?items\<rparr>)"
      by (simp add: settle_def Let_def)
    then show ?thesis
      using that settled_represents [OF r] full_window_settled [OF d True] by (simp add: sel_ok_def)
  next
    case False
    then have "\<not> sel_full sel" using full_window_stays_full [OF _ d] assms(1) by (auto simp: sel_ok_def)
    moreover have "settle st walk sel = Returns (sel\<lparr>sel_items := ?items\<rparr>)"
      using False by (simp add: settle_def Let_def)
    ultimately show ?thesis using that settled_represents [OF r] by (simp add: sel_ok_def)
  qed
qed

lemma full_window_outranks:
  assumes "full_window st walk items threshold" "0 < window walk" "order_key st threshold < order_key st c"
  obtains better where "ascending (order_key st) better" "set better \<subseteq> set items"
    "\<forall>b \<in> set better. order_key st b < order_key st c"
    "outranked (group_of st walk) (walk_limit walk) (window walk) better c"
proof -
  let ?first = "take (window walk) items"
  have first: "length ?first = window walk" "ascending (order_key st) ?first" "last ?first = threshold"
    "group_filter (group_of st walk) (walk_limit walk) (\<lambda>_. 0) ?first = ?first"
    using assms(1) by (simp_all add: full_window_def Let_def)
  then have "?first \<noteq> []" using assms(2) by auto
  then have split: "?first = butlast ?first @ [threshold]" using first(3) by (metis append_butlast_last_id)
  then have "ascending (order_key st) (butlast ?first @ [threshold])" using first(2) by simp
  then have "order_key st b < order_key st c" if "b \<in> set ?first" for b
    using assms(3) that split by (metis Un_iff ascending_append empty_iff less_trans list.set(1,2) insert_iff set_append)
  moreover have "set ?first \<subseteq> set items" by (rule set_take_subset)
  moreover have "outranked (group_of st walk) (walk_limit walk) (window walk) ?first c"
    unfolding outranked_def using first(1,4) by simp
  ultimately show ?thesis using that first(2) by blast
qed

lemma full_window_threshold: "full_window st walk items threshold \<Longrightarrow> 0 < window walk \<Longrightarrow> threshold \<in> set items"
  unfolding full_window_def Let_def by (metis in_set_takeD last_in_set length_greater_0_conv)

lemma offer_ok:
  assumes "sel_ok st walk seen sel" "0 < window walk" "distinct (map (order_key st) (seen @ [c]))"
  obtains sel' where "offer st walk c sel = Returns sel'" "sel_ok st walk (seen @ [c]) sel'"
proof (cases "sel_full sel \<and> compareCandidates st c (sel_threshold sel) \<ge> 0")
  case True
  then have full: "full_window st walk (sel_items sel) (sel_threshold sel)" using assms(1) by (simp add: sel_ok_def)
  have r: "represents st walk (sel_items sel) seen" using assms(1) by (simp add: sel_ok_def)
  have "sel_threshold sel \<in> set seen"
    using full_window_threshold [OF full assms(2)] r by (auto simp: stands_for_def)
  then have "order_key st (sel_threshold sel) \<noteq> order_key st c" using assms(3) by (metis distinct_append
      disjoint_iff image_eqI list.set_intros(1) list.set_map map_append list.simps(9))
  then have "order_key st (sel_threshold sel) < order_key st c"
    using True compareCandidates_order_key by (simp add: order.not_eq_order_implies_strict)
  from full_window_outranks [OF full assms(2) this]
  obtain better where "ascending (order_key st) better" "set better \<subseteq> set (sel_items sel)"
    "\<forall>b \<in> set better. order_key st b < order_key st c"
    "outranked (group_of st walk) (walk_limit walk) (window walk) better c" by blast
  from stands_for_drop [OF r assms(3) this] have "sel_ok st walk (seen @ [c]) sel" using full by (simp add: sel_ok_def)
  then show ?thesis using that True by (simp add: offer_def)
next
  case False
  let ?sel = "sel\<lparr>sel_items := sel_items sel @ [c]\<rparr>"
  have ok: "sel_ok st walk (seen @ [c]) ?sel"
    using assms(1) stands_for_append [OF _ assms(3)] full_window_append by (auto simp: sel_ok_def)
  have off: "offer st walk c sel = (if length (sel_items ?sel) \<ge> sel_capacity ?sel then settle st walk ?sel else Returns ?sel)"
    using False by (auto simp: offer_def Let_def)
  show ?thesis
  proof (cases "length (sel_items ?sel) \<ge> sel_capacity ?sel")
    case True
    from settle_ok [OF ok assms(2)] obtain sel' where "settle st walk ?sel = Returns sel'" "sel_ok st walk (seen @ [c]) sel'"
      by blast
    with that off True show ?thesis by simp
  next
    case not_full: False
    with that off ok show ?thesis by simp
  qed
qed

section \<open>The workers\<close>

text \<open>Every row that matches and is near enough, in row order.\<close>

definition matching :: "codeCollection \<Rightarrow> 64 word list \<Rightarrow> predicate \<Rightarrow> rankingWalk \<Rightarrow> nat list \<Rightarrow> candidate list" where
  "matching st query matches walk positions =
     map (\<lambda>p. \<lparr>cand_position = p, cand_distance = Distance query (codes st ! p)\<rparr>)
       (filter (\<lambda>p. matches p = Returns truthTrue \<and> int (Distance query (codes st ! p)) \<le> maxDistance walk) positions)"

lemma matching_simps:
  "matching st query matches walk [] = []"
  "matching st query matches walk (p # ps) =
     (if matches p = Returns truthTrue \<and> int (Distance query (codes st ! p)) \<le> maxDistance walk
      then \<lparr>cand_position = p, cand_distance = Distance query (codes st ! p)\<rparr> # matching st query matches walk ps
      else matching st query matches walk ps)"
  "matching st query matches walk (ps @ qs) = matching st query matches walk ps @ matching st query matches walk qs"
  by (simp_all add: matching_def)

lemma rank_worker_ok:
  "sel_ok st walk seen best \<Longrightarrow> 0 < window walk \<Longrightarrow> \<forall>p \<in> set ps. matches p \<noteq> Panic \<Longrightarrow>
   distinct (map (order_key st) (seen @ matching st query matches walk ps)) \<Longrightarrow>
   \<exists>sel. rank_worker st query matches walk ps best = Returns sel \<and>
     represents st walk (sel_items sel) (seen @ matching st query matches walk ps)"
proof (induction ps arbitrary: seen best)
  case Nil
  from settle_ok [OF Nil(1,2)] show ?case by (auto simp: matching_simps sel_ok_def)
next
  case (Cons p ps)
  let ?c = "\<lparr>cand_position = p, cand_distance = Distance query (codes st ! p)\<rparr>"
  show ?case
  proof (cases "matches p = Returns truthTrue \<and> int (Distance query (codes st ! p)) \<le> maxDistance walk")
    case True
    then have d: "distinct (map (order_key st) ((seen @ [?c]) @ matching st query matches walk ps))"
      using Cons.prems(4) by (simp add: matching_simps)
    then have "distinct (map (order_key st) (seen @ [?c]))" by simp
    from offer_ok [OF Cons.prems(1,2) this] obtain best'
      where "offer st walk ?c best = Returns best'" "sel_ok st walk (seen @ [?c]) best'" by blast
    with Cons.IH [OF this(2) Cons.prems(2) _ d] Cons.prems(3) True show ?thesis by (simp add: matching_simps Let_def)
  next
    case False
    obtain t where "matches p = Returns t" using Cons.prems(3) by (cases "matches p") auto
    with False Cons.IH [OF Cons.prems(1,2)] Cons.prems(3,4) show ?thesis by (auto simp: matching_simps Let_def)
  qed
qed

lemma sel_ok_new: "sel_ok st walk [] (newSelection walk)"
  by (simp add: sel_ok_def newSelection_def stands_for_refl)

lemma order_key_distinct:
  assumes "distinct (map row_id (rows st))" "distinct ps" "set ps \<subseteq> {..<length (rows st)}"
  shows "distinct (map (order_key st) (matching st query matches walk ps))"
proof -
  have "inj_on (\<lambda>p. row_id (rows st ! p)) {..<length (rows st)}"
    using assms(1) by (auto simp: inj_on_def distinct_conv_nth)
  then have "inj_on (\<lambda>p. (Distance query (codes st ! p), row_id (rows st ! p))) (set ps)"
    using assms(3) by (auto simp: inj_on_def)
  then show ?thesis
    using assms(2) by (auto simp: matching_def order_key_def o_def distinct_map intro: inj_on_subset)
qed

text \<open>The chunks of the workers cover the rows in order.\<close>

lemma chunks_cover:
  "concat (map (\<lambda>w. [w * chunk..<min (w * chunk + chunk) n]) [0..<k]) = [0..<min (k * chunk) n]"
proof (induction k)
  case (Suc k)
  have "[0..<min (k * chunk) n] @ [k * chunk..<min (k * chunk + chunk) n] = [0..<min (Suc k * chunk) n]"
  proof (cases "k * chunk \<le> n")
    case True
    then have "[0..<k * chunk] @ [k * chunk..<min (k * chunk + chunk) n] = [0..<min (k * chunk + chunk) n]"
      using upt_add_eq_append [of 0 "k * chunk" "min (k * chunk + chunk) n - k * chunk"] by simp
    with True show ?thesis by (simp add: add.commute)
  qed (simp add: min_def)
  then show ?case using Suc by simp
qed simp

lemma chunk_enough:
  fixes workers n :: nat
  assumes "0 < workers"
  shows "n \<le> workers * ((n + workers - 1) div workers)"
proof -
  have "workers * ((n + workers - 1) div workers) + (n + workers - 1) mod workers = n + workers - 1" by simp
  moreover have "(n + workers - 1) mod workers < workers" using assms by simp
  ultimately show ?thesis by linarith
qed

lemma represents_concat:
  assumes "list_all2 (represents st walk) items chunks" "distinct (map (order_key st) (concat chunks))"
  shows "represents st walk (concat items) (concat chunks)"
  using assms by (induction rule: list_all2_induct) (auto intro!: stands_for_refl stands_for_join)

lemma index_ok_distinct: "index_ok st \<Longrightarrow> distinct (map row_id (rows st))"
  unfolding index_ok_def distinct_conv_nth by (metis length_map nth_map option.inject)

text \<open>
  Whatever the number of workers, they return selections whose merge represents all matching rows.
\<close>

lemma workers_represent:
  assumes "index_ok st" "0 < window walk" "0 < workers" "\<forall>p < length (rows st). matches p \<noteq> Panic"
    and chunk: "chunk = (length (rows st) + workers - 1) div workers"
  obtains sels where
    "map (\<lambda>w. rank_worker st query matches walk [w * chunk..<min (w * chunk + chunk) (length (rows st))]
        (newSelection walk)) [0..<workers] = map Returns sels"
    "represents st walk (concat (map sel_items sels)) (matching st query matches walk [0..<length (rows st)])"
proof -
  let ?ps = "\<lambda>w. [w * chunk..<min (w * chunk + chunk) (length (rows st))]"
  let ?m = "matching st query matches walk"
  have dist: "distinct (map (order_key st) (?m qs))" if "distinct qs" "set qs \<subseteq> {..<length (rows st)}" for qs
    using that index_ok_distinct [OF assms(1)] by (intro order_key_distinct)
  have "\<exists>sel. rank_worker st query matches walk (?ps w) (newSelection walk) = Returns sel \<and>
      represents st walk (sel_items sel) (?m (?ps w))" for w
  proof -
    have "set (?ps w) \<subseteq> {..<length (rows st)}" by auto
    moreover from this have "\<forall>p \<in> set (?ps w). matches p \<noteq> Panic" using assms(4) by auto
    ultimately show ?thesis
      using rank_worker_ok [OF sel_ok_new assms(2), of "?ps w" matches st query] dist [OF distinct_upt] by simp
  qed
  then obtain sel where sel: "\<And>w. rank_worker st query matches walk (?ps w) (newSelection walk) = Returns (sel w)"
    "\<And>w. represents st walk (sel_items (sel w)) (?m (?ps w))" by metis
  have m: "concat (map (\<lambda>w. ?m (?ps w)) ws) = ?m (concat (map ?ps ws))" for ws
    by (induction ws) (simp_all add: matching_simps)
  have "concat (map ?ps [0..<workers]) = [0..<length (rows st)]"
    using chunks_cover [of chunk "length (rows st)" workers] chunk_enough [OF assms(3), of "length (rows st)"] chunk
    by (simp add: min_absorb2)
  then have all: "concat (map (\<lambda>w. ?m (?ps w)) [0..<workers]) = ?m [0..<length (rows st)]" using m by simp
  have "list_all2 (represents st walk) (map (\<lambda>w. sel_items (sel w)) [0..<workers]) (map (\<lambda>w. ?m (?ps w)) [0..<workers])"
    using sel(2) by (simp add: list_all2_conv_all_nth)
  moreover have "distinct (map (order_key st) (concat (map (\<lambda>w. ?m (?ps w)) [0..<workers])))"
    unfolding all by (rule dist) auto
  ultimately have "represents st walk (concat (map (\<lambda>w. sel_items (sel w)) [0..<workers])) (?m [0..<length (rows st)])"
    unfolding all [symmetric] by (rule represents_concat)
  then show ?thesis using that [of "map sel [0..<workers]"] sel(1) by (simp add: o_def)
qed

lemma represents_walk:
  "represents st walk items seen \<Longrightarrow> distinct (map (order_key st) seen) \<Longrightarrow>
   walkRanking st (sortCandidates st items) walk = walkRanking st (sortCandidates st seen) walk"
  unfolding stands_for_def walkRanking_top sortCandidates_def by (metis append_Nil2)

section \<open>What a walk selects\<close>

text \<open>
  The nearest of some items: in strictly ascending order, at most \<open>w\<close> of them and at most the
  limit of each group; an item is left out only when the window is full of nearer ones or its
  group already has its share of nearer ones.
\<close>

definition nearest :: "('a \<Rightarrow> 'b :: linorder) \<Rightarrow> ('a \<Rightarrow> nat) \<Rightarrow> nat option \<Rightarrow> nat \<Rightarrow> 'a list \<Rightarrow> 'a list \<Rightarrow> bool" where
  "nearest f key limit w xs ys \<longleftrightarrow> ascending f ys \<and> set ys \<subseteq> set xs \<and> length ys \<le> w \<and>
     (\<forall>q k. limit = Some q \<longrightarrow> length (filter (\<lambda>y. key y = k) ys) \<le> q) \<and>
     (\<forall>x \<in> set xs - set ys. (length ys = w \<and> (\<forall>y \<in> set ys. f y < f x)) \<or>
        (\<exists>q. limit = Some q \<and> q \<le> length (filter (\<lambda>y. key y = key x \<and> f y < f x) ys)))"

lemma group_counts_filter:
  "group_counts key limit seen xs k = seen k + length (filter (\<lambda>x. key x = k) (group_filter key limit seen xs))"
  by (induction xs arbitrary: seen) auto

lemma group_counts_le:
  "limit = Some q \<Longrightarrow> seen k \<le> q \<Longrightarrow> group_counts key limit seen xs k \<le> q"
  by (induction xs arbitrary: seen) (auto simp: admits_def)

lemma length_filter_take: "length (filter P (take n xs)) \<le> length (filter P xs)"
  by (metis append_take_drop_id filter_append le_add1 length_append)

lemma top_walk_left_out:
  assumes asc: "ascending f xs" and x: "x \<in> set xs" "x \<notin> set (top_walk key limit w xs)"
  defines "ys \<equiv> top_walk key limit w xs"
  shows "(length ys = w \<and> (\<forall>y \<in> set ys. f y < f x)) \<or>
    (\<exists>q. limit = Some q \<and> q \<le> length (filter (\<lambda>y. key y = key x \<and> f y < f x) ys))"
proof -
  obtain us vs where xs: "xs = us @ x # vs" using x(1) by (metis split_list)
  let ?g = "group_filter key limit (\<lambda>_. 0) us"
  have before: "f y < f x" if "y \<in> set ?g" for y
    using that asc group_filter_set [of key limit "\<lambda>_. 0" us] unfolding xs by (auto simp: ascending_append)
  obtain rest where g: "group_filter key limit (\<lambda>_. 0) xs = ?g @ rest"
    "admits limit (group_counts key limit (\<lambda>_. 0) us (key x)) \<Longrightarrow> rest \<noteq> [] \<and> hd rest = x"
    by (auto simp: xs group_filter_append)
  show ?thesis
  proof (cases "w \<le> length ?g")
    case True
    then have "ys = take w ?g" unfolding ys_def top_walk_def g(1) by simp
    with True before show ?thesis by (auto dest: in_set_takeD)
  next
    case False
    then have ys: "ys = ?g @ take (w - length ?g) rest" unfolding ys_def top_walk_def g(1) by simp
    have "\<not> admits limit (group_counts key limit (\<lambda>_. 0) us (key x))"
    proof
      assume "admits limit (group_counts key limit (\<lambda>_. 0) us (key x))"
      then have "hd (take (w - length ?g) rest) = x" "take (w - length ?g) rest \<noteq> []" using g(2) False by auto
      then have "x \<in> set ys" using ys by (metis Un_iff hd_in_set set_append)
      with x(2) show False by (simp add: ys_def)
    qed
    then obtain q where q: "limit = Some q" "q \<le> length (filter (\<lambda>y. key y = key x) ?g)"
      by (auto simp: admits_def group_counts_filter split: option.splits)
    have "filter (\<lambda>y. key y = key x \<and> f y < f x) ?g = filter (\<lambda>y. key y = key x) ?g"
      using before by (intro filter_cong) auto
    with q show ?thesis unfolding ys by (auto intro!: exI [of _ q])
  qed
qed

lemma top_walk_nearest:
  assumes "ascending f xs"
  shows "nearest f key limit w xs (top_walk key limit w xs)"
proof -
  let ?g = "group_filter key limit (\<lambda>_. 0) xs"
  have sub: "subseq (take w ?g) xs"
    using group_filter_subseq by (metis subseq_order.order_trans sublist_imp_subseq sublist_take)
  have "length (filter (\<lambda>y. key y = k) (take w ?g)) \<le> q" if "limit = Some q" for q k
  proof -
    have "length (filter (\<lambda>y. key y = k) ?g) \<le> q"
      using group_counts_filter [of key limit "\<lambda>_. 0" xs k] group_counts_le [OF that, of "\<lambda>_. 0" k key xs] by simp
    with length_filter_take show ?thesis by (metis order_trans)
  qed
  moreover have "set (take w ?g) \<subseteq> set xs" using sub by (auto elim: list_emb_set)
  ultimately show ?thesis
    using top_walk_left_out [OF assms, of _ key limit w] ascending_subseq [OF assms sub]
    unfolding nearest_def top_walk_def by auto
qed

lemma walkRanking_nearest:
  assumes "distinct (map (order_key st) cs)"
  shows "nearest (order_key st) (group_of st walk) (walk_limit walk) (window walk) cs
    (walkRanking st (sortCandidates st cs) walk)"
  using top_walk_nearest [OF ascending_sort_key [OF assms], of "group_of st walk" "walk_limit walk" "window walk"]
  unfolding nearest_def walkRanking_top sortCandidates_def by simp

lemma rank_full_sort:
  assumes "index_ok st" "0 < window walk" "\<forall>p < length (rows st). matches p \<noteq> Panic"
  shows "rank procs st query matches walk =
    Some (walkRanking st (sortCandidates st (matching st query matches walk [0..<length (rows st)])) walk)"
proof -
  let ?workers = "max (min procs (length (rows st) div rankingWorkerRows)) 1"
  let ?chunk = "(length (rows st) + ?workers - 1) div ?workers"
  have "0 < ?workers" by simp
  from workers_represent [OF assms(1,2) this assms(3) refl, of query] obtain sels where
    s: "map (\<lambda>w. rank_worker st query matches walk [w * ?chunk..<min (w * ?chunk + ?chunk) (length (rows st))]
        (newSelection walk)) [0..<?workers] = map Returns sels"
    "represents st walk (concat (map sel_items sels)) (matching st query matches walk [0..<length (rows st)])"
    by blast
  have "\<not> list_ex (\<lambda>p. p = Panic) (map Returns sels)" by (simp add: list_ex_iff image_iff)
  moreover have "concat (map (\<lambda>p. case p of Returns sel \<Rightarrow> sel_items sel | Panic \<Rightarrow> []) (map Returns sels)) =
      concat (map sel_items sels)" by (simp add: o_def)
  moreover have "distinct (map (order_key st) (matching st query matches walk [0..<length (rows st)]))"
    using assms(1) by (intro order_key_distinct index_ok_distinct) auto
  ultimately show ?thesis
    using represents_walk [OF s(2)] unfolding rank_def Let_def s(1) by simp
qed

section \<open>Properties\<close>

text \<open>
  The distance of two sign codes counts the components, of the 256, at which the two vectors
  have different signs; vectors may be shorter or longer.
\<close>

lemma Distance_CodeOf:
  "Distance (CodeOf left) (CodeOf right) =
   length (filter (\<lambda>d. sign_at left d \<noteq> sign_at right d) [0..<Dimensions])"
proof -
  have "OnesCount64 (CodeOf left ! word XOR CodeOf right ! word) =
      length (filter (\<lambda>b. sign_at left (64 * word + b) \<noteq> sign_at right (64 * word + b)) [0..<64])"
    if "word < codeWords" for word
    unfolding OnesCount64_def using that
    by (intro arg_cong [where f = length] filter_cong refl) (simp add: bit_xor_iff bit_CodeOf)
  moreover have dims: "Dimensions = 64 * codeWords" by (simp add: Dimensions_def codeWords_def)
  ultimately show ?thesis unfolding Distance_sum dims filter_blocks by (intro sum.cong refl) blast
qed

text \<open>
  C18. The parallel search with bounded selections returns what sorting every matching row and
  walking the result once returns, for any number of processors: the same rows in the same order,
  at most the window, at most \<open>perGroup\<close> of each group. The pruning by the threshold loses nothing,
  also with grouping, and no worker panics.
\<close>

theorem rank_equals_full_sort:
  assumes "index_ok st" "0 < window walk" "\<forall>p < length (rows st). matches p \<noteq> Panic"
  shows "rank procs st query matches walk =
    Some (walkRanking st (sortCandidates st (matching st query matches walk [0..<length (rows st)])) walk)"
  by (rule rank_full_sort [OF assms])

text \<open>Three rows in two groups, the nearest of each group wanted.\<close>

definition demo_ranking :: codeCollection where
  "demo_ranking = (emptyCollection (null_scalar ScalarTypeString) demo_columns 0 1 [] [])
     \<lparr>rows := [\<lparr>row_id = ''b'', row_relativePath = [], row_splitPart = 0, row_splitRecorded = True,
                row_dataOffset = 0, row_dataLength = 0, row_cells = [1]\<rparr>,
               \<lparr>row_id = ''a'', row_relativePath = [], row_splitPart = 0, row_splitRecorded = True,
                row_dataOffset = 0, row_dataLength = 0, row_cells = [1]\<rparr>,
               \<lparr>row_id = ''c'', row_relativePath = [], row_splitPart = 0, row_splitRecorded = True,
                row_dataOffset = 0, row_dataLength = 0, row_cells = [0]\<rparr>],
      codes := [[1, 0, 0, 0], [2, 0, 0, 0], [3, 0, 0, 0]],
      byID := [(''b'', 0), (''a'', 1), (''c'', 2)],
      dictionaries := [(newDictionary (null_scalar ScalarTypeString))
        \<lparr>dict_values := [null_scalar ScalarTypeString, (null_scalar ScalarTypeString)\<lparr>scalar_null := False\<rparr>]\<rparr>]\<rparr>"

definition demo_walk :: rankingWalk where
  "demo_walk = \<lparr>window = 2, maxDistance = 256, grouped = True, groupColumn = 0, perGroup = 1\<rparr>"

lemma demo_ranking_index: "index_ok demo_ranking"
  by (auto simp: index_ok_def demo_ranking_def nth_Cons split: nat.splits if_splits)

lemma demo_ranking_walk:
  "walkRanking demo_ranking (sortCandidates demo_ranking (matching demo_ranking [0, 0, 0, 0] (\<lambda>_. Returns truthTrue) demo_walk [0..<3])) demo_walk =
   [\<lparr>cand_position = 1, cand_distance = 1\<rparr>, \<lparr>cand_position = 2, cand_distance = 2\<rparr>]"
  by code_simp

theorem rank_equals_full_sort_witness:
  "index_ok demo_ranking \<and> 0 < window demo_walk \<and>
   rank 8 demo_ranking [0, 0, 0, 0] (\<lambda>_. Returns truthTrue) demo_walk =
     Some [\<lparr>cand_position = 1, cand_distance = 1\<rparr>, \<lparr>cand_position = 2, cand_distance = 2\<rparr>]"
proof -
  have "0 < window demo_walk" "length (rows demo_ranking) = 3" by (simp_all add: demo_walk_def demo_ranking_def)
  with rank_equals_full_sort [OF demo_ranking_index this(1), of "\<lambda>_. Returns truthTrue" 8 "[0, 0, 0, 0]"] demo_ranking_walk
  show ?thesis using demo_ranking_index by simp
qed

end
