(* ===== verification/Go_Sha256.thy ===== *)
theory Go_Sha256
  imports Go_Prelude "HOL-Library.Word"
begin

unbundle bit_operations_syntax

text \<open>
  The hash of the Go package \<open>crypto/sha256\<close> and the lower-case hexadecimal form of
  \<open>encoding/hex\<close>, as the store uses them for content hashes (FIPS 180-4).
\<close>

text \<open>
  The constants of the algorithm, by the rule the standard gives: the first 32 bits of the fractional
  parts of the square roots of the first 8 primes and of the cube roots of the first 64 primes.
  \<open>int_root k n\<close> is the integer part of the \<open>k\<close>-th root of \<open>n\<close>, found bit by bit.
\<close>

definition int_root :: "nat \<Rightarrow> int \<Rightarrow> int" where
  "int_root k n = foldl (\<lambda>r i. let r' = r + 2 ^ i in if r' ^ k \<le> n then r' else r) 0 (rev [0..<40])"

definition sha_primes :: "int list" where
  "sha_primes = filter (\<lambda>n. list_all (\<lambda>d. n mod d \<noteq> 0) [2..n - 1]) [2..311]"

definition sha_init :: "32 word list" where
  "sha_init = map (\<lambda>p. of_int (int_root 2 (p * 2 ^ 64))) (take 8 sha_primes)"

definition sha_constants :: "32 word list" where
  "sha_constants = map (\<lambda>p. of_int (int_root 3 (p * 2 ^ 96))) sha_primes"

definition rotr32 :: "nat \<Rightarrow> 32 word \<Rightarrow> 32 word" where
  "rotr32 n w = drop_bit n w OR push_bit (32 - n) w"

definition be_word :: "bytes \<Rightarrow> 32 word" where
  "be_word bs = foldl (\<lambda>w b. push_bit 8 w OR of_nat (of_char b)) 0 bs"

definition be_bytes :: "nat \<Rightarrow> nat \<Rightarrow> bytes" where
  "be_bytes n v = map (\<lambda>i. char_of (v div 256 ^ (n - 1 - i) mod 256)) [0..<n]"

text \<open>A one bit, zeros, and the length in bits fill the message up to whole blocks of 64 bytes.\<close>

definition sha_pad :: "bytes \<Rightarrow> bytes" where
  "sha_pad msg =
     msg @ CHR 0x80 # replicate ((119 - length msg mod 64) mod 64) (CHR 0x00) @
     be_bytes 8 (8 * length msg mod 2 ^ 64)"

definition sha_schedule :: "bytes \<Rightarrow> 32 word list" where
  "sha_schedule block =
     foldl (\<lambda>w t.
         let a = w ! (t - 15); b = w ! (t - 2);
             s0 = rotr32 7 a XOR rotr32 18 a XOR drop_bit 3 a;
             s1 = rotr32 17 b XOR rotr32 19 b XOR drop_bit 10 b
         in w @ [w ! (t - 16) + s0 + w ! (t - 7) + s1])
       (map (\<lambda>i. be_word (take 4 (drop (4 * i) block))) [0..<16]) [16..<64]"

definition sha_round :: "32 word list \<Rightarrow> 32 word \<times> 32 word \<Rightarrow> 32 word list" where
  "sha_round st kw =
     (let a = st ! 0; b = st ! 1; c = st ! 2; d = st ! 3; e = st ! 4; f = st ! 5; g = st ! 6; h = st ! 7;
          s1 = rotr32 6 e XOR rotr32 11 e XOR rotr32 25 e;
          ch = (e AND f) XOR (NOT e AND g);
          t1 = h + s1 + ch + fst kw + snd kw;
          s0 = rotr32 2 a XOR rotr32 13 a XOR rotr32 22 a;
          maj = (a AND b) XOR (a AND c) XOR (b AND c)
      in [t1 + s0 + maj, a, b, c, d + t1, e, f, g])"

definition sha_block :: "32 word list \<Rightarrow> bytes \<Rightarrow> 32 word list" where
  "sha_block st block = map2 (+) st (foldl sha_round st (zip sha_constants (sha_schedule block)))"

definition Sum256 :: "bytes \<Rightarrow> bytes" where
  "Sum256 msg =
     (let padded = sha_pad msg;
          blocks = map (\<lambda>i. take 64 (drop (64 * i) padded)) [0..<length padded div 64]
      in concat (map (\<lambda>w. be_bytes 4 (unat w)) (foldl sha_block sha_init blocks)))"

definition hex_digit :: "nat \<Rightarrow> char" where
  "hex_digit n = ''0123456789abcdef'' ! n"

definition EncodeToString :: "bytes \<Rightarrow> bytes" where
  "EncodeToString bs = concat (map (\<lambda>b. let n = of_char b :: nat in [hex_digit (n div 16), hex_digit (n mod 16)]) bs)"

lemma length_EncodeToString: "length (EncodeToString bs) = 2 * length bs"
  by (induction bs) (simp_all add: EncodeToString_def Let_def)

end
