(* ===== verification/Codestore_Store.thy ===== *)
theory Codestore_Store
  imports Codestore_Contents Codestore_Rank Go_Utf8 Go_Sha256
begin

text \<open>
  The operations of the code store on an opened collection (\<open>codestore/store.go\<close>,
  \<open>codestore/update.go\<close>): writing, deleting, updating and backfilling rows, adding columns,
  and the queries. The locks are held and the context is alive; the faults of the file operations
  are arguments. The request types belong to the collection package and are modelled by the
  fields the code reads; a Go map is an association list, its order the iteration order.
\<close>

section \<open>Requests\<close>

record Row =
  Row_ID :: bytes
  Row_Vector :: "rat list"
  Row_RelativePath :: bytes
  Row_SplitPart :: int
  Row_SplitPartRecorded :: bool
  Row_Content :: bytes
  Row_Metadata :: bytes
  Row_Scalars :: "(bytes \<times> ScalarValue) list"

datatype request_error =
    RowIDRequired | RowDimensions bytes nat | ColumnNotDeclared bytes | QueryDimensions nat
  | FilterFailed filter_error | StoreFailed store_error | RankingPanicked | UpdateFailed bytes

definition store_result :: "(store_error option \<times> codeCollection) outcome \<Rightarrow> 'a \<Rightarrow> ((request_error + 'a) \<times> codeCollection) outcome" where
  "store_result written result =
     and_then written (\<lambda>(e, st). Returns (case e of Some e \<Rightarrow> Inl (StoreFailed e) | None \<Rightarrow> Inr result, st))"

section \<open>Upsert\<close>

definition normalized_scalar :: "ScalarType \<Rightarrow> ScalarValue \<Rightarrow> ScalarValue" where
  "normalized_scalar ty value = (if scalar_null value then null_scalar ty else value\<lparr>scalar_type := ty\<rparr>)"

fun upsert_cells :: "codeCollection \<Rightarrow> (bytes \<times> ScalarValue) list \<Rightarrow> request_error + storedCell list" where
  "upsert_cells st [] = Inr []"
| "upsert_cells st ((columnName, v) # rest) =
     (case map_of (columnIndex st) columnName of
        None \<Rightarrow> Inl (ColumnNotDeclared columnName)
      | Some column \<Rightarrow>
          map_sum (\<lambda>e. e)
            (\<lambda>cells. \<lparr>cell_column = column, cell_scalar = normalized_scalar (col_type (Scalars st ! column)) v\<rparr> # cells)
            (upsert_cells st rest))"

definition upsert_record :: "Row \<Rightarrow> storedCell list \<Rightarrow> rowRecord" where
  "upsert_record r cells =
     (emptyRecord recordUpsert (Row_ID r))
       \<lparr>rec_code := CodeOf (Row_Vector r), rec_relativePath := Row_RelativePath r, rec_splitPart := Row_SplitPart r,
        rec_splitRecorded := Row_SplitPartRecorded r, rec_cells := sort_key cell_column cells\<rparr>"

fun upsert_records :: "codeCollection \<Rightarrow> Row list \<Rightarrow> request_error + (rowRecord \<times> bytes option) list" where
  "upsert_records st [] = Inr []"
| "upsert_records st (r # rest) =
     (if trim_space (Row_ID r) = [] then Inl RowIDRequired
      else if length (Row_Vector r) \<noteq> Dimensions then Inl (RowDimensions (Row_ID r) (length (Row_Vector r)))
      else case upsert_cells st (Row_Scalars r) of
        Inl e \<Rightarrow> Inl e
      | Inr cells \<Rightarrow>
          map_sum (\<lambda>e. e)
            (\<lambda>ps. (upsert_record r cells, Some (encodeBlob (Row_Content r) (Row_Metadata r))) # ps)
            (upsert_records st rest))"

definition Upsert :: "fault \<Rightarrow> bool \<Rightarrow> Row list \<Rightarrow> codeCollection \<Rightarrow> ((request_error + unit) \<times> codeCollection) outcome" where
  "Upsert fault filesOk newRows st =
     (case upsert_records st newRows of
        Inl e \<Rightarrow> Returns (Inl e, st)
      | Inr ps \<Rightarrow> store_result (collection_write fault filesOk ps st) ())"

section \<open>Selecting rows\<close>

text \<open>The positions a selection accepts, in order; the selection may panic.\<close>

fun select_positions :: "(nat \<Rightarrow> bool outcome) \<Rightarrow> nat list \<Rightarrow> nat list outcome" where
  "select_positions selected [] = Returns []"
| "select_positions selected (p # ps) =
     and_then (selected p) (\<lambda>chosen.
     and_then (select_positions selected ps) (\<lambda>rest. Returns (if chosen then p # rest else rest)))"

definition matched :: "predicate \<Rightarrow> nat \<Rightarrow> bool outcome" where
  "matched p position = and_then (p position) (\<lambda>t. Returns (t = truthTrue))"

definition itemSelector :: "codeCollection \<Rightarrow> bytes \<Rightarrow> bytes list \<Rightarrow> bytes list \<Rightarrow> nat \<Rightarrow> bool outcome" where
  "itemSelector st itemColumn itemIDs pathPrefixes position =
     (if position \<ge> length (rows st) then Panic
      else let current = rows st ! position;
               by_prefix = list_ex (\<lambda>prefix. prefix \<noteq> [] \<and> has_prefix (row_relativePath current) prefix) pathPrefixes
        in case map_of (columnIndex st) itemColumn of
          None \<Rightarrow> Returns by_prefix
        | Some column \<Rightarrow>
            if column \<ge> length (row_cells current) then Panic
            else let i = row_cells current ! column in
              if i = 0 then Returns by_prefix
              else if column \<ge> length (dictionaries st) \<or> i \<ge> length (dict_values (dictionaries st ! column)) then Panic
              else let v = dict_values (dictionaries st ! column) ! i in
                Returns (scalar_string v \<in> set itemIDs \<and> \<not> scalar_null v \<or> by_prefix))"

definition selectSorted :: "codeCollection \<Rightarrow> (nat \<Rightarrow> bool outcome) \<Rightarrow> nat list outcome" where
  "selectSorted st selected =
     and_then (select_positions selected [0..<length (rows st)]) (\<lambda>ps.
       Returns (sort_key (\<lambda>p. row_id (rows st ! p)) ps))"

section \<open>Deleting\<close>

definition deleteWhere ::
    "fault \<Rightarrow> bool \<Rightarrow> (nat \<Rightarrow> bool outcome) \<Rightarrow> codeCollection \<Rightarrow> ((request_error + nat) \<times> codeCollection) outcome" where
  "deleteWhere fault filesOk selected st =
     and_then (select_positions selected [0..<length (rows st)]) (\<lambda>ps.
       if ps = [] then Returns (Inr 0, st)
       else store_result
         (collection_write fault filesOk (map (\<lambda>p. (emptyRecord recordDelete (row_id (rows st ! p)), None)) ps) st)
         (length ps))"

definition Delete ::
    "ScalarValue \<Rightarrow> fault \<Rightarrow> bool \<Rightarrow> Filter \<Rightarrow> codeCollection \<Rightarrow> ((request_error + nat) \<times> codeCollection) outcome" where
  "Delete emptyScalar fault filesOk f st =
     (case compileFilter emptyScalar st f of
        Inl e \<Rightarrow> Returns (Inl (FilterFailed e), st)
      | Inr p \<Rightarrow> deleteWhere fault filesOk (matched p) st)"

definition DeleteItems ::
    "fault \<Rightarrow> bool \<Rightarrow> bytes \<Rightarrow> bytes list \<Rightarrow> bytes list \<Rightarrow> codeCollection \<Rightarrow> ((request_error + nat) \<times> codeCollection) outcome" where
  "DeleteItems fault filesOk itemColumn itemIDs pathPrefixes st =
     deleteWhere fault filesOk (itemSelector st itemColumn itemIDs pathPrefixes) st"

section \<open>Reading rows\<close>

datatype ScalarCell = AbsentCell bytes | NullCell bytes | ValueCell bytes ScalarValue

definition cell :: "codeCollection \<Rightarrow> nat \<Rightarrow> ScalarColumn \<Rightarrow> ScalarCell outcome" where
  "cell st position column =
     (case map_of (columnIndex st) (col_name column) of
        None \<Rightarrow> Returns (AbsentCell (col_name column))
      | Some index \<Rightarrow>
          if position \<ge> length (rows st) \<or> index \<ge> length (row_cells (rows st ! position)) then Panic
          else let i = row_cells (rows st ! position) ! index in
            if i = 0 then Returns (AbsentCell (col_name column))
            else if index \<ge> length (dictionaries st) \<or> i \<ge> length (dict_values (dictionaries st ! index)) then Panic
            else let v = dict_values (dictionaries st ! index) ! i in
              Returns (if scalar_null v then NullCell (col_name column) else ValueCell (col_name column) v))"

fun cells_from :: "codeCollection \<Rightarrow> nat \<Rightarrow> ScalarColumn list \<Rightarrow> (bytes \<times> ScalarCell) list \<Rightarrow> (bytes \<times> ScalarCell) list outcome" where
  "cells_from st position [] found = Returns found"
| "cells_from st position (column # columns) found =
     and_then (cell st position column) (\<lambda>c.
       cells_from st position columns (AList.update (col_name column) c found))"

definition cells :: "codeCollection \<Rightarrow> nat \<Rightarrow> ScalarColumn list \<Rightarrow> (bytes \<times> ScalarCell) list outcome" where
  "cells st position columns = cells_from st position columns []"

record Hit =
  Hit_ID :: bytes
  Hit_Content :: bytes
  Hit_Score :: rat
  Hit_RelativePath :: bytes
  Hit_Metadata :: bytes
  Hit_SplitPart :: int
  Hit_SplitPartRecorded :: bool
  Hit_Scalars :: "(bytes \<times> ScalarCell) list"

definition hit :: "codeCollection \<Rightarrow> nat \<Rightarrow> rat \<Rightarrow> ScalarColumn list \<Rightarrow> (request_error + Hit) outcome" where
  "hit st position score columns =
     and_then (readBlob position st) (\<lambda>blob.
       case blob of
         Inl e \<Rightarrow> Returns (Inl (StoreFailed e))
       | Inr (content, metadata) \<Rightarrow>
           (let current = rows st ! position in
            and_then (cells st position columns) (\<lambda>scalars.
              Returns (Inr \<lparr>Hit_ID = row_id current, Hit_Content = content, Hit_Score = score,
                Hit_RelativePath = row_relativePath current, Hit_Metadata = metadata,
                Hit_SplitPart = row_splitPart current, Hit_SplitPartRecorded = row_splitRecorded current,
                Hit_Scalars = scalars\<rparr>))))"

fun hits :: "codeCollection \<Rightarrow> ScalarColumn list \<Rightarrow> (nat \<times> rat) list \<Rightarrow> (request_error + Hit list) outcome" where
  "hits st columns [] = Returns (Inr [])"
| "hits st columns ((position, score) # rest) =
     and_then (hit st position score columns) (\<lambda>h.
       case h of
         Inl e \<Rightarrow> Returns (Inl e)
       | Inr h \<Rightarrow> and_then (hits st columns rest) (\<lambda>hs. Returns (map_sum (\<lambda>e. e) (\<lambda>hs. h # hs) hs)))"

definition Query ::
    "ScalarValue \<Rightarrow> codeCollection \<Rightarrow> Filter option \<Rightarrow> int \<Rightarrow> ScalarColumn list \<Rightarrow> (request_error + Hit list) outcome" where
  "Query emptyScalar st f limit columns =
     (case compile_optional emptyScalar st f of
        Inl e \<Rightarrow> Returns (Inl (FilterFailed e))
      | Inr p \<Rightarrow>
          and_then (selectSorted st (matched p)) (\<lambda>positions.
            let positions = (if limit > 0 \<and> int (length positions) > limit then take (nat limit) positions else positions)
            in hits st columns (map (\<lambda>p. (p, 0)) positions)))"

record StoredRow =
  Stored_ID :: bytes
  Stored_RelativePath :: bytes
  Stored_Content :: bytes
  Stored_SplitPart :: int
  Stored_SplitPartRecorded :: bool
  Stored_EmbeddingModel :: bytes
  Stored_ContentHash :: bytes
  Stored_Scalars :: "(bytes \<times> ScalarCell) list"

fun stored_rows :: "bytes \<Rightarrow> codeCollection \<Rightarrow> ScalarColumn list \<Rightarrow> nat list \<Rightarrow> (request_error + StoredRow list) outcome" where
  "stored_rows model st columns [] = Returns (Inr [])"
| "stored_rows model st columns (position # rest) =
     and_then (readBlob position st) (\<lambda>blob.
       case blob of
         Inl e \<Rightarrow> Returns (Inl (StoreFailed e))
       | Inr (content, metadata) \<Rightarrow>
           (let current = rows st ! position in
            and_then (cells st position columns) (\<lambda>scalars.
            and_then (stored_rows model st columns rest) (\<lambda>others.
              Returns (map_sum (\<lambda>e. e) (\<lambda>others.
                \<lparr>Stored_ID = row_id current, Stored_RelativePath = row_relativePath current, Stored_Content = content,
                 Stored_SplitPart = row_splitPart current, Stored_SplitPartRecorded = row_splitRecorded current,
                 Stored_EmbeddingModel = model, Stored_ContentHash = EncodeToString (Sum256 content),
                 Stored_Scalars = scalars\<rparr> # others) others)))))"

text \<open>The model name is a field of the header.\<close>

definition QueryRows ::
    "bytes \<Rightarrow> codeCollection \<Rightarrow> bytes \<Rightarrow> bytes list \<Rightarrow> bytes list \<Rightarrow> ScalarColumn list \<Rightarrow> (request_error + StoredRow list) outcome" where
  "QueryRows model st itemColumn itemIDs pathPrefixes columns =
     and_then (selectSorted st (itemSelector st itemColumn itemIDs pathPrefixes)) (stored_rows model st columns)"

section \<open>Searching\<close>

definition defaultSearchLimit :: nat where "defaultSearchLimit = 10"

record SearchRequest =
  Search_Vector :: "rat list"
  Search_Filter :: "Filter option"
  Search_GroupBy :: bytes
  Search_PerGroupLimit :: int
  Search_Limit :: int
  Search_MinScore :: rat
  Search_Scalars :: "ScalarColumn list"

text \<open>The group column is read only when the walk is grouped.\<close>

definition search_walk :: "codeCollection \<Rightarrow> SearchRequest \<Rightarrow> rankingWalk" where
  "search_walk st request =
     (let group = (if Search_GroupBy request \<noteq> [] \<and> Search_PerGroupLimit request > 0
                   then map_of (columnIndex st) (Search_GroupBy request) else None)
      in \<lparr>window = (if Search_Limit request \<le> 0 then defaultSearchLimit else nat (Search_Limit request)),
          maxDistance = maxDistanceFor (Search_MinScore request),
          grouped = (group \<noteq> None), groupColumn = (case group of None \<Rightarrow> 0 | Some c \<Rightarrow> c),
          perGroup = nat (Search_PerGroupLimit request)\<rparr>)"

definition Search :: "ScalarValue \<Rightarrow> nat \<Rightarrow> codeCollection \<Rightarrow> SearchRequest \<Rightarrow> (request_error + Hit list) outcome" where
  "Search emptyScalar procs st request =
     (if length (Search_Vector request) \<noteq> Dimensions then Returns (Inl (QueryDimensions (length (Search_Vector request))))
      else case compile_optional emptyScalar st (Search_Filter request) of
        Inl e \<Rightarrow> Returns (Inl (FilterFailed e))
      | Inr p \<Rightarrow>
          (case rank procs st (CodeOf (Search_Vector request)) p (search_walk st request) of
             None \<Rightarrow> Returns (Inl RankingPanicked)
           | Some ranked \<Rightarrow>
               hits st (Search_Scalars request) (map (\<lambda>c. (cand_position c, Score (cand_distance c))) ranked)))"

section \<open>Updating rows\<close>

definition replace_cell :: "nat \<Rightarrow> ScalarValue \<Rightarrow> storedCell list \<Rightarrow> storedCell list" where
  "replace_cell column v cs = filter (\<lambda>c. cell_column c \<noteq> column) cs @ [\<lparr>cell_column = column, cell_scalar = v\<rparr>]"

fun update_cells :: "codeCollection \<Rightarrow> (bytes \<times> ScalarValue) list \<Rightarrow> storedCell list \<Rightarrow> request_error + storedCell list" where
  "update_cells st [] cs = Inr cs"
| "update_cells st ((columnName, v) # rest) cs =
     (case map_of (columnIndex st) columnName of
        None \<Rightarrow> Inl (ColumnNotDeclared columnName)
      | Some column \<Rightarrow>
          update_cells st rest (replace_cell column (normalized_scalar (col_type (Scalars st ! column)) v) cs))"

text \<open>
  The caller's update of one row: an error, or new metadata and scalar values with a flag that
  selects whether the row is written.
\<close>

type_synonym RowUpdate =
  "bytes \<Rightarrow> bytes \<Rightarrow> (bytes \<times> ScalarCell) list \<Rightarrow> bytes + bytes \<times> (bytes \<times> ScalarValue) list \<times> bool"

definition update_row ::
    "codeCollection \<Rightarrow> ScalarColumn list \<Rightarrow> RowUpdate \<Rightarrow> bytes \<Rightarrow> (request_error + (rowRecord \<times> bytes option) option) outcome" where
  "update_row st columns update i =
     (case map_of (byID st) i of
        None \<Rightarrow> Returns (Inr None)
      | Some position \<Rightarrow>
          and_then (readBlob position st) (\<lambda>blob.
            case blob of
              Inl e \<Rightarrow> Returns (Inl (StoreFailed e))
            | Inr (content, metadata) \<Rightarrow>
                and_then (cells st position columns) (\<lambda>current.
                  case update i metadata current of
                    Inl e \<Rightarrow> Returns (Inl (UpdateFailed e))
                  | Inr (nextMetadata, scalars, chosen) \<Rightarrow>
                      if \<not> chosen then Returns (Inr None)
                      else and_then (recordOf position st) (\<lambda>r.
                        Returns (map_sum (\<lambda>e. e)
                          (\<lambda>cs. Some (r\<lparr>rec_cells := sort_key cell_column cs\<rparr>, Some (encodeBlob content nextMetadata)))
                          (update_cells st scalars (rec_cells r)))))))"

fun update_records ::
    "codeCollection \<Rightarrow> ScalarColumn list \<Rightarrow> RowUpdate \<Rightarrow> bytes list \<Rightarrow> (request_error + (rowRecord \<times> bytes option) list) outcome" where
  "update_records st columns update [] = Returns (Inr [])"
| "update_records st columns update (i # rest) =
     and_then (update_row st columns update i) (\<lambda>one.
       case one of
         Inl e \<Rightarrow> Returns (Inl e)
       | Inr one \<Rightarrow>
           and_then (update_records st columns update rest) (\<lambda>others.
             Returns (map_sum (\<lambda>e. e) (\<lambda>others. (case one of None \<Rightarrow> others | Some p \<Rightarrow> p # others)) others)))"

definition UpdateRows ::
    "fault \<Rightarrow> bool \<Rightarrow> bytes list \<Rightarrow> ScalarColumn list \<Rightarrow> RowUpdate \<Rightarrow> codeCollection \<Rightarrow>
     ((request_error + nat) \<times> codeCollection) outcome" where
  "UpdateRows fault filesOk ids columns update st =
     and_then (update_records st columns update ids) (\<lambda>records.
       case records of
         Inl e \<Rightarrow> Returns (Inl e, st)
       | Inr ps \<Rightarrow>
           if ps = [] then Returns (Inr 0, st)
           else store_result (collection_write fault filesOk ps st) (length ps))"

section \<open>Backfilling scalar values\<close>

text \<open>The rules of a backfill are methods of the collection package: functions of the record.\<close>

record 'v ScalarBackfill =
  bf_Columns :: "ScalarColumn list"
  bf_ItemColumn :: bytes
  bf_DryRun :: bool
  bf_Needs :: "(bytes \<times> ScalarValue) list \<Rightarrow> bool"
  bf_ItemValues :: "bytes \<Rightarrow> bytes \<Rightarrow> 'v option"
  bf_Filled :: "(bytes \<times> ScalarValue) list \<Rightarrow> 'v \<Rightarrow> (bytes \<times> ScalarValue) list \<times> bool"

datatype backfillOutcome = backfillUnchanged | backfillChanged rowRecord | backfillOrphan

fun backfill_current ::
    "codeCollection \<Rightarrow> nat \<Rightarrow> ScalarColumn list \<Rightarrow> (bytes \<times> ScalarValue) list \<Rightarrow> (bytes \<times> ScalarValue) list outcome" where
  "backfill_current st position [] current = Returns current"
| "backfill_current st position (column # columns) current =
     and_then (cell st position column) (\<lambda>c.
       backfill_current st position columns
         (AList.update (col_name column) (case c of ValueCell _ v \<Rightarrow> v | _ \<Rightarrow> null_scalar (col_type column)) current))"

text \<open>A name that is not declared reads column 0, as an absent map key does.\<close>

definition fill_cell :: "codeCollection \<Rightarrow> bytes \<times> ScalarValue \<Rightarrow> storedCell list \<Rightarrow> storedCell list" where
  "fill_cell st filled cs =
     (let column = (case map_of (columnIndex st) (fst filled) of None \<Rightarrow> 0 | Some c \<Rightarrow> c) in
      if list_ex (\<lambda>c. cell_column c = column) cs
      then map (\<lambda>c. if cell_column c = column then c\<lparr>cell_scalar := snd filled\<rparr> else c) cs
      else cs @ [\<lparr>cell_column = column, cell_scalar = snd filled\<rparr>])"

definition backfillRow :: "codeCollection \<Rightarrow> nat \<Rightarrow> 'v ScalarBackfill \<Rightarrow> backfillOutcome outcome" where
  "backfillRow st position backfill =
     and_then (backfill_current st position (bf_Columns backfill) []) (\<lambda>current.
       if \<not> bf_Needs backfill current then Returns backfillUnchanged
       else and_then (cell st position \<lparr>col_name = bf_ItemColumn backfill, col_type = ScalarTypeString\<rparr>) (\<lambda>item.
         let itemID = (case item of ValueCell _ v \<Rightarrow> scalar_string v | _ \<Rightarrow> []) in
         if position \<ge> length (rows st) then Panic
         else case bf_ItemValues backfill itemID (row_relativePath (rows st ! position)) of
           None \<Rightarrow> Returns backfillOrphan
         | Some streamed \<Rightarrow>
             (case bf_Filled backfill current streamed of
                (filled, changed) \<Rightarrow>
                  if \<not> changed then Returns backfillUnchanged
                  else and_then (recordOf position st) (\<lambda>r.
                    Returns (backfillChanged (r\<lparr>rec_cells := fold (fill_cell st) filled (rec_cells r)\<rparr>))))))"

fun backfill_outcomes :: "codeCollection \<Rightarrow> 'v ScalarBackfill \<Rightarrow> nat list \<Rightarrow> backfillOutcome list outcome" where
  "backfill_outcomes st backfill [] = Returns []"
| "backfill_outcomes st backfill (p # ps) =
     and_then (backfillRow st p backfill) (\<lambda>result.
     and_then (backfill_outcomes st backfill ps) (\<lambda>rest. Returns (result # rest)))"

definition changed_records :: "backfillOutcome list \<Rightarrow> rowRecord list" where
  "changed_records outcomes = concat (map (\<lambda>result. case result of backfillChanged r \<Rightarrow> [r] | _ \<Rightarrow> []) outcomes)"

definition BackfillScalars ::
    "fault \<Rightarrow> bool \<Rightarrow> 'v ScalarBackfill \<Rightarrow> codeCollection \<Rightarrow> ((request_error + nat \<times> nat) \<times> codeCollection) outcome" where
  "BackfillScalars fault filesOk backfill st =
     (case find (\<lambda>column. map_of (columnIndex st) (col_name column) = None) (bf_Columns backfill) of
        Some column \<Rightarrow> Returns (Inl (ColumnNotDeclared (col_name column)), st)
      | None \<Rightarrow>
          and_then (backfill_outcomes st backfill [0..<length (rows st)]) (\<lambda>outcomes.
            let changed = changed_records outcomes;
                counts = (length changed, length (filter (\<lambda>result. result = backfillOrphan) outcomes));
                records = (if bf_DryRun backfill then [] else changed)
            in if records = [] then Returns (Inr counts, st)
               else store_result (collection_write fault filesOk (map (\<lambda>r. (r, None)) records) st) counts))"

section \<open>Adding columns\<close>

text \<open>
  The part of \<open>EnsureCollection\<close> after the collection is open and locked. The flag tells whether
  the new header was written.
\<close>

definition ensure_columns ::
    "ScalarValue \<Rightarrow> bool \<Rightarrow> ScalarColumn list \<Rightarrow> codeCollection \<Rightarrow> bool \<times> codeCollection" where
  "ensure_columns emptyScalar headerOk requested st =
     (let added = filter (\<lambda>column. map_of (columnIndex st) (col_name column) = None) requested;
          scalars = Scalars st @ added
      in if added = [] then (True, st)
         else if \<not> headerOk then (False, st)
         else let st = setDeclaration emptyScalar scalars st in
           (True, st\<lparr>rows := map (\<lambda>current. current\<lparr>row_cells := row_cells current @
              replicate (length scalars - length (row_cells current)) 0\<rparr>) (rows st)\<rparr>))"

end
