(* ===== verification/Codestore_Requests.thy ===== *)
theory Codestore_Requests
  imports Codestore_Store
begin

text \<open>
  What the requests of the code store do (\<open>codestore/store.go\<close>): a written row reads back as it
  was given, a deletion removes exactly the selected rows, a search returns the nearest rows that
  pass its filter, and new columns change no row.
\<close>

section \<open>Reading a row\<close>

text \<open>What a record shows in a column.\<close>

definition shown_cell :: "(bytes \<times> nat) list \<Rightarrow> rowRecord \<Rightarrow> ScalarColumn \<Rightarrow> ScalarCell" where
  "shown_cell index r column =
     (case map_of index (col_name column) of
        None \<Rightarrow> AbsentCell (col_name column)
      | Some c \<Rightarrow>
          (case last_cell (rec_cells r) c of
             None \<Rightarrow> AbsentCell (col_name column)
           | Some v \<Rightarrow> if scalar_null v then NullCell (col_name column) else ValueCell (col_name column) v))"

definition shown_cells :: "(bytes \<times> nat) list \<Rightarrow> rowRecord \<Rightarrow> ScalarColumn list \<Rightarrow> (bytes \<times> ScalarCell) list" where
  "shown_cells index r columns = fold (\<lambda>column. AList.update (col_name column) (shown_cell index r column)) columns []"

definition hit_of :: "(bytes \<times> nat) list \<Rightarrow> rowRecord \<Rightarrow> bytes \<times> bytes \<Rightarrow> rat \<Rightarrow> ScalarColumn list \<Rightarrow> Hit" where
  "hit_of index r texts score columns =
     \<lparr>Hit_ID = rec_id r, Hit_Content = fst texts, Hit_Score = score, Hit_RelativePath = rec_relativePath r,
      Hit_Metadata = snd texts, Hit_SplitPart = rec_splitPart r, Hit_SplitPartRecorded = rec_splitRecorded r,
      Hit_Scalars = shown_cells index r columns\<rparr>"

lemma cell_shown:
  assumes "store_ok k st" "p < length (rows st)"
  shows "cell st p column = Returns (shown_cell (columnIndex st) (record_at st p) column)"
proof (cases "map_of (columnIndex st) (col_name column)")
  case (Some c)
  from record_cells [OF assms Some] assms(2) Some show ?thesis
    by (simp add: cell_def shown_cell_def Let_def)
qed (simp add: cell_def shown_cell_def)

lemma cells_shown:
  assumes "store_ok k st" "p < length (rows st)"
  shows "cells st p columns = Returns (shown_cells (columnIndex st) (record_at st p) columns)"
proof -
  have "cells_from st p columns found =
      Returns (fold (\<lambda>column. AList.update (col_name column) (shown_cell (columnIndex st) (record_at st p) column)) columns found)"
    for found
    by (induction columns arbitrary: found) (simp_all add: cell_shown [OF assms])
  then show ?thesis by (simp add: cells_def shown_cells_def)
qed

lemma shown_cells_offset: "shown_cells index (r\<lparr>rec_dataOffset := x\<rparr>) columns = shown_cells index r columns"
proof -
  have "rec_cells (r\<lparr>rec_dataOffset := x\<rparr>) = rec_cells r" by simp
  then have "shown_cell index (r\<lparr>rec_dataOffset := x\<rparr>) = shown_cell index r" unfolding shown_cell_def by metis
  then show ?thesis unfolding shown_cells_def by simp
qed

lemma hit_contents:
  assumes ok: "store_ok k st" and p: "map_of (byID st) i = Some p" "contents st i = Some (r, blob)"
    and texts: "decodeBlob blob = Returns (Some texts)"
  shows "hit st p score columns = Returns (Inr (hit_of (columnIndex st) r texts score columns))"
proof -
  have len: "p < length (rows st)" using index_okD(2) [OF store_okD(2) [OF ok]] p(1) by simp
  have r: "r = (record_at st p)\<lparr>rec_dataOffset := 0\<rparr>" using p by (simp add: contents_def view_def)
  obtain content metadata where t: "texts = (content, metadata)" by (cases texts)
  have "readBlob p st = Returns (Inr (content, metadata))"
    using readBlob_contents [OF ok p] texts t by simp
  then show ?thesis
    using cells_shown [OF ok len] t
    by (simp add: hit_def hit_of_def r shown_cells_offset Let_def) (simp add: row_record_def emptyRecord_def)
qed

section \<open>Writing rows\<close>

text \<open>What the request must satisfy, and the ranges the Go types of a row give.\<close>

definition acceptable :: "codeCollection \<Rightarrow> Row \<Rightarrow> bool" where
  "acceptable st r \<longleftrightarrow> trim_space (Row_ID r) \<noteq> [] \<and> length (Row_Vector r) = Dimensions \<and>
     list_all (\<lambda>s. map_of (columnIndex st) (fst s) \<noteq> None) (Row_Scalars r)"

definition row_in_range :: "codeCollection \<Rightarrow> Row \<Rightarrow> bool" where
  "row_in_range st r \<longleftrightarrow> int (length (Row_ID r)) \<le> MaxInt64 \<and> int (length (Row_RelativePath r)) \<le> MaxInt64 \<and>
     int (length (Row_Content r)) \<le> MaxInt64 \<and> int (length (Row_Metadata r)) \<le> MaxInt64 \<and>
     MinInt32 \<le> Row_SplitPart r \<and> Row_SplitPart r \<le> MaxInt32 \<and> distinct (map fst (Row_Scalars r)) \<and>
     (\<forall>(name, v) \<in> set (Row_Scalars r). \<forall>c. map_of (columnIndex st) name = Some c \<longrightarrow>
        typed_scalar (col_type (Scalars st ! c)) (normalized_scalar (col_type (Scalars st ! c)) v))"

definition stored_scalar :: "codeCollection \<Rightarrow> bytes \<times> ScalarValue \<Rightarrow> storedCell" where
  "stored_scalar st s = (let c = the (map_of (columnIndex st) (fst s)) in
     \<lparr>cell_column = c, cell_scalar = normalized_scalar (col_type (Scalars st ! c)) (snd s)\<rparr>)"

lemma upsert_cells_eq:
  "if list_all (\<lambda>s. map_of (columnIndex st) (fst s) \<noteq> None) scalars
   then upsert_cells st scalars = Inr (map (stored_scalar st) scalars) else \<exists>e. upsert_cells st scalars = Inl e"
  by (induction st scalars rule: upsert_cells.induct) (auto simp: stored_scalar_def Let_def split: option.splits if_splits)

lemma upsert_records_eq:
  "if list_all (acceptable st) newRows
   then upsert_records st newRows = Inr (map (\<lambda>r. (upsert_record r (map (stored_scalar st) (Row_Scalars r)),
       Some (encodeBlob (Row_Content r) (Row_Metadata r)))) newRows)
   else \<exists>e. upsert_records st newRows = Inl e"
proof (induction newRows)
  case (Cons r rest)
  note one = upsert_cells_eq [of st "Row_Scalars r"]
  show ?case
  proof (cases "acceptable st r")
    case True
    with one Cons show ?thesis by (auto simp: acceptable_def split: if_splits)
  next
    case False
    with one show ?thesis by (auto simp: acceptable_def split: if_splits)
  qed
qed simp

lemma columns_inject:
  assumes "columns_ok st" "map_of (columnIndex st) a = Some c" "map_of (columnIndex st) b = Some c"
  shows "a = b"
  using assms unfolding columns_ok_def by metis

lemma stored_scalars_distinct:
  assumes "columns_ok st" "list_all (\<lambda>s. map_of (columnIndex st) (fst s) \<noteq> None) scalars" "distinct (map fst scalars)"
  shows "distinct (map cell_column (map (stored_scalar st) scalars))"
  using assms(2,3)
proof (induction scalars)
  case (Cons s scalars)
  have "cell_column (stored_scalar st s) \<noteq> cell_column (stored_scalar st t)" if t: "t \<in> set scalars" for t
  proof -
    have "fst s \<noteq> fst t" using Cons.prems(2) t by auto
    moreover obtain a b where "map_of (columnIndex st) (fst s) = Some a" "map_of (columnIndex st) (fst t) = Some b"
      using Cons.prems(1) t by (fastforce simp: list_all_iff)
    ultimately show ?thesis using columns_inject [OF assms(1)] by (auto simp: stored_scalar_def Let_def)
  qed
  with Cons show ?case by auto
qed simp

lemma length_CodeOf: "length (CodeOf vector) = codeWords"
  using CodeOf_prefix [of "min (length vector) Dimensions" vector]
  by (simp add: CodeOf_def Let_def Dimensions_def codeWords_def)

lemma distinct_columns_length:
  assumes "distinct (map cell_column cs)" "list_all (cell_ok columns) cs"
  shows "length cs \<le> length columns"
proof -
  have "card (set (map cell_column cs)) \<le> card {..<length columns}"
    using assms(2) by (intro card_mono) (auto simp: list_all_iff cell_ok_def)
  then show ?thesis using distinct_card [OF assms(1)] by simp
qed

lemma upsert_record_ok:
  assumes st: "columns_ok st" "int (length (Scalars st)) \<le> MaxInt64" and r: "acceptable st r" "row_in_range st r"
  shows "record_ok (Scalars st) (upsert_record r (map (stored_scalar st) (Row_Scalars r)))"
proof -
  let ?cs = "map (stored_scalar st) (Row_Scalars r)"
  have decl: "list_all (\<lambda>s. map_of (columnIndex st) (fst s) \<noteq> None) (Row_Scalars r)" using r(1) by (simp add: acceptable_def)
  have "cell_ok (Scalars st) (stored_scalar st s)" if s: "s \<in> set (Row_Scalars r)" for s
  proof -
    obtain c where c: "map_of (columnIndex st) (fst s) = Some c" using decl s by (fastforce simp: list_all_iff)
    moreover have "c < length (Scalars st)" using st(1) c by (simp add: columns_ok_def)
    ultimately show ?thesis
      using r(2) s by (cases s) (auto simp: row_in_range_def stored_scalar_def cell_ok_def)
  qed
  then have ok: "list_all (cell_ok (Scalars st)) ?cs" by (auto simp: list_all_iff)
  moreover have "distinct (map cell_column ?cs)"
    using stored_scalars_distinct [OF st(1) decl] r(2) by (simp add: row_in_range_def)
  ultimately have "length ?cs \<le> length (Scalars st)" by (intro distinct_columns_length)
  with ok r(2) st(2) show ?thesis
    by (simp add: upsert_record_def record_ok_def emptyRecord_def record_constants row_in_range_def length_CodeOf list_all_iff)
qed

section \<open>A written row reads back\<close>

definition row_cell :: "codeCollection \<Rightarrow> Row \<Rightarrow> ScalarColumn \<Rightarrow> ScalarCell" where
  "row_cell st r column =
     (case map_of (columnIndex st) (col_name column) of
        None \<Rightarrow> AbsentCell (col_name column)
      | Some c \<Rightarrow>
          (case map_of (Row_Scalars r) (col_name column) of
             None \<Rightarrow> AbsentCell (col_name column)
           | Some v \<Rightarrow> if scalar_null v then NullCell (col_name column)
               else ValueCell (col_name column) (v\<lparr>scalar_type := col_type (Scalars st ! c)\<rparr>)))"

text \<open>The hit that gives a written row back.\<close>

definition row_hit :: "codeCollection \<Rightarrow> Row \<Rightarrow> rat \<Rightarrow> ScalarColumn list \<Rightarrow> Hit" where
  "row_hit st r score columns =
     \<lparr>Hit_ID = Row_ID r, Hit_Content = Row_Content r, Hit_Score = score, Hit_RelativePath = Row_RelativePath r,
      Hit_Metadata = Row_Metadata r, Hit_SplitPart = Row_SplitPart r, Hit_SplitPartRecorded = Row_SplitPartRecorded r,
      Hit_Scalars = fold (\<lambda>column. AList.update (col_name column) (row_cell st r column)) columns []\<rparr>"

lemma last_cell_set:
  assumes "distinct (map cell_column xs)" "distinct (map cell_column ys)" "set xs = set ys"
  shows "last_cell xs c = last_cell ys c"
proof (cases "c \<in> cell_column ` set xs")
  case True
  then obtain x where "x \<in> set xs" "c = cell_column x" by auto
  with assms show ?thesis using last_cell_distinct by metis
next
  case False
  with assms(3) show ?thesis by (simp add: last_cell_notin)
qed

lemma last_cell_canon:
  assumes "c < n"
  shows "last_cell (canon_cells n cs) c = last_cell cs c"
proof -
  have dist: "distinct (map cell_column (canon_cells n cs))" by (simp add: canon_cells_def comp_def)
  show ?thesis
  proof (cases "last_cell cs c")
    case None
    then have "c \<notin> cell_column ` set (canon_cells n cs)" by (auto simp: canon_cells_def)
    with None show ?thesis by (simp add: last_cell_notin)
  next
    case (Some v)
    then have "\<lparr>cell_column = c, cell_scalar = v\<rparr> \<in> set (canon_cells n cs)"
      using assms by (auto simp: canon_cells_def image_iff)
    from last_cell_distinct [OF dist this] Some show ?thesis by simp
  qed
qed

lemma last_cell_scalars:
  assumes "columns_ok st" "list_all (\<lambda>s. map_of (columnIndex st) (fst s) \<noteq> None) scalars" "distinct (map fst scalars)"
    and c: "map_of (columnIndex st) name = Some c"
  shows "last_cell (map (stored_scalar st) scalars) c =
    map_option (normalized_scalar (col_type (Scalars st ! c))) (map_of scalars name)"
proof (cases "map_of scalars name")
  case None
  have "cell_column (stored_scalar st s) \<noteq> c" if s: "s \<in> set scalars" for s
  proof -
    obtain d where d: "map_of (columnIndex st) (fst s) = Some d" using assms(2) s by (fastforce simp: list_all_iff)
    have "fst s \<noteq> name" using None s by (auto simp: map_of_eq_None_iff)
    with columns_inject [OF assms(1) c] d show ?thesis by (auto simp: stored_scalar_def Let_def)
  qed
  then have "c \<notin> cell_column ` set (map (stored_scalar st) scalars)" by auto
  with None show ?thesis by (simp add: last_cell_notin)
next
  case (Some v)
  then have "stored_scalar st (name, v) \<in> set (map (stored_scalar st) scalars)" by (auto dest: map_of_SomeD)
  from last_cell_distinct [OF stored_scalars_distinct [OF assms(1-3)] this] Some c
  show ?thesis by (simp add: stored_scalar_def)
qed

lemma shown_row_cell:
  assumes st: "columns_ok st" and r: "acceptable st r" "row_in_range st r"
    and rec: "rec_cells r' = canon_cells (length (Scalars st)) (sort_key cell_column (map (stored_scalar st) (Row_Scalars r)))"
  shows "shown_cell (columnIndex st) r' column = row_cell st r column"
proof (cases "map_of (columnIndex st) (col_name column)")
  case (Some c)
  let ?cs = "map (stored_scalar st) (Row_Scalars r)"
  have decl: "list_all (\<lambda>s. map_of (columnIndex st) (fst s) \<noteq> None) (Row_Scalars r)" "distinct (map fst (Row_Scalars r))"
    using r by (simp_all add: acceptable_def row_in_range_def)
  have dist: "distinct (map cell_column ?cs)" by (rule stored_scalars_distinct [OF st decl])
  then have "distinct (map cell_column (sort_key cell_column ?cs))"
    by (metis mset_map mset_sort mset_eq_imp_distinct_iff)
  then have "last_cell (sort_key cell_column ?cs) c = last_cell ?cs c" using dist by (intro last_cell_set) simp_all
  moreover have "c < length (Scalars st)" using st Some by (simp add: columns_ok_def)
  ultimately have "last_cell (rec_cells r') c =
      map_option (normalized_scalar (col_type (Scalars st ! c))) (map_of (Row_Scalars r) (col_name column))"
    using rec last_cell_canon last_cell_scalars [OF st decl Some] by simp
  then show ?thesis
    using Some by (auto simp: shown_cell_def row_cell_def normalized_scalar_def null_scalar_def split: option.splits)
qed (simp add: shown_cell_def row_cell_def)

lemma fold_content_upserts:
  assumes "\<And>r. rec_kind (g r) \<noteq> recordDelete"
  shows "fold (content_effect f n) (map (\<lambda>r. (g r, Some (b r))) rs) m i =
    (case find (\<lambda>r. rec_id (g r) = i) (rev rs) of
       None \<Rightarrow> m i
     | Some r \<Rightarrow> Some ((g r)\<lparr>rec_dataLength := int (length (b r)), rec_cells := canon_cells n (rec_cells (g r)), rec_dataOffset := 0\<rparr>, b r))"
  using assms by (induction rs rule: rev_induct) (simp_all add: content_effect_def Let_def)

lemma upsert_record_simps [simp]:
  "rec_id (upsert_record r cs) = Row_ID r" "rec_kind (upsert_record r cs) = recordUpsert"
  "rec_cells (upsert_record r cs) = sort_key cell_column cs" "rec_relativePath (upsert_record r cs) = Row_RelativePath r"
  "rec_splitPart (upsert_record r cs) = Row_SplitPart r" "rec_splitRecorded (upsert_record r cs) = Row_SplitPartRecorded r"
  by (simp_all add: upsert_record_def emptyRecord_def)

lemma hit_of_row:
  assumes "columns_ok st" "acceptable st r" "row_in_range st r"
  shows "hit_of (columnIndex st) ((upsert_record r (map (stored_scalar st) (Row_Scalars r)))
      \<lparr>rec_dataLength := l, rec_cells := canon_cells (length (Scalars st)) (sort_key cell_column (map (stored_scalar st) (Row_Scalars r))),
       rec_dataOffset := 0\<rparr>) (Row_Content r, Row_Metadata r) score columns = row_hit st r score columns"
  (is "hit_of _ ?r _ _ _ = _")
proof -
  have "shown_cell (columnIndex st) ?r column = row_cell st r column" for column
    by (rule shown_row_cell [OF assms]) simp
  then show ?thesis by (simp add: hit_of_def row_hit_def shown_cells_def)
qed

lemma contents_position:
  assumes "contents st i = Some c"
  obtains p where "map_of (byID st) i = Some p"
  using assms by (auto simp: contents_def view_def)

text \<open>The bytes of the data file a row needs.\<close>

definition row_bytes :: "Row \<Rightarrow> nat" where
  "row_bytes r = length (encodeBlob (Row_Content r) (Row_Metadata r))"

definition upsert_pair :: "codeCollection \<Rightarrow> Row \<Rightarrow> rowRecord \<times> bytes option" where
  "upsert_pair st r = (upsert_record r (map (stored_scalar st) (Row_Scalars r)), Some (encodeBlob (Row_Content r) (Row_Metadata r)))"

lemma upsert_pairs:
  assumes "columns_ok st" "int (length (Scalars st)) \<le> MaxInt64" "list_all (acceptable st) newRows" "list_all (row_in_range st) newRows"
  shows "list_all (writable (Scalars st) n) (map (upsert_pair st) newRows)"
    "blobs_length (map (upsert_pair st) newRows) = sum_list (map row_bytes newRows)"
    "payload_length (map (upsert_pair st) newRows) = sum_list (map row_bytes newRows)"
    "cells_total (map fst (map (upsert_pair st) newRows)) = sum_list (map (\<lambda>r. length (Row_Scalars r)) newRows)"
proof -
  show "list_all (writable (Scalars st) n) (map (upsert_pair st) newRows)"
    using assms(3,4) upsert_record_ok [OF assms(1,2)] by (auto simp: list_all_iff writable_def upsert_pair_def)
qed (simp_all add: blobs_length_def payload_length_def upsert_pair_def row_bytes_def [abs_def] comp_def)

lemma Upsert_atomic:
  assumes st: "store_ok (sum_list (map (\<lambda>r. length (Row_Scalars r)) newRows) + k) st"
    and rows: "list_all (row_in_range st) newRows"
    and fits: "int (length (dataFile st) + sum_list (map row_bytes newRows)) \<le> MaxInt64"
      "int (live_bytes (view st) + sum_list (map row_bytes newRows)) \<le> MaxInt64"
    and acc: "list_all (acceptable st) newRows"
  obtains result st' where "Upsert fault filesOk newRows st = Returns (result, st')" "store_ok k st'"
    "columnIndex st' = columnIndex st"
    "fault = NoFault \<Longrightarrow> result = Inr () \<or> result = Inl (StoreFailed FrameTooLong)"
    "contents st' = (if result = Inr () then fold (content_effect (dataFile st) (length (Scalars st))) (map (upsert_pair st) newRows) (contents st)
       else contents st)"
proof -
  let ?ps = "map (upsert_pair st) newRows"
  note up = upsert_pairs [OF store_okD(3,8) [OF st] acc rows]
  have "store_ok (cells_total (map fst ?ps) + k) st" using st up(4) by simp
  from collection_write_atomic [OF this up(1), of fault filesOk] fits up(2,3)
  obtain e st' where w: "collection_write fault filesOk ?ps st = Returns (e, st')" "store_ok k st'"
    "columnIndex st' = columnIndex st" "fault = NoFault \<Longrightarrow> e = None \<or> e = Some FrameTooLong"
    "contents st' = (if e = None then fold (content_effect (dataFile st) (length (Scalars st))) ?ps (contents st) else contents st)"
    by metis
  have "upsert_records st newRows = Inr ?ps"
    using upsert_records_eq [of st newRows] acc by (simp add: upsert_pair_def)
  then have "Upsert fault filesOk newRows st = Returns (case e of Some e \<Rightarrow> Inl (StoreFailed e) | None \<Rightarrow> Inr (), st')"
    using w(1) by (simp add: Upsert_def store_result_def)
  then show ?thesis using w(2,3) by (rule that) (use w(4,5) in \<open>cases e; simp\<close>)+
qed

section \<open>Deleting rows\<close>

lemma select_positions_eq:
  "(\<And>p. p \<in> set ps \<Longrightarrow> selected p = Returns (chosen p)) \<Longrightarrow> select_positions selected ps = Returns (filter chosen ps)"
  by (induction ps) simp_all

lemma fold_content_deletes:
  "fold (content_effect f n) (map (\<lambda>p. (emptyRecord recordDelete (g p), None)) ps) m i = (if i \<in> g ` set ps then None else m i)"
  by (induction ps rule: rev_induct) (auto simp: content_effect_def emptyRecord_def)

lemma deletions_writable:
  assumes "store_ok k st" "set ps \<subseteq> {..<length (rows st)}"
  defines "qs \<equiv> map (\<lambda>p. (emptyRecord recordDelete (row_id (rows st ! p)), None)) ps"
  shows "list_all (writable (Scalars st) n) qs" "blobs_length qs = 0" "payload_length qs = 0" "cells_total (map fst qs) = 0"
proof -
  have "record_ok (Scalars st) (emptyRecord recordDelete (row_id (rows st ! p)))" if "p < length (rows st)" for p
  proof (rule deletion_ok)
    have "record_ok (Scalars st) (record_at st p)"
      using store_okD(1) [OF assms(1)] that by (simp add: collection_inv_def rows_ok_def)
    then show "int (length (row_id (rows st ! p))) \<le> MaxInt64" by (simp add: record_ok_def)
  qed (rule store_okD(8) [OF assms(1)])
  then show "list_all (writable (Scalars st) n) qs"
    using assms(2) by (auto simp: qs_def list_all_iff writable_def emptyRecord_def)
qed (induction ps; simp add: qs_def payload_length_def record_length_def emptyRecord_def)+

lemma deleteWhere_exact:
  assumes st: "store_ok k st" and sel: "\<And>p. p < length (rows st) \<Longrightarrow> selected p = Returns (chosen p)"
  shows "\<exists>result st'. deleteWhere fault filesOk selected st = Returns (result, st') \<and> store_ok k st' \<and>
    (case result of
       Inl _ \<Rightarrow> contents st' = contents st
     | Inr n \<Rightarrow> n = length (filter chosen [0..<length (rows st)]) \<and>
         (\<forall>i. contents st' i = (if \<exists>p. map_of (byID st) i = Some p \<and> chosen p then None else contents st i)))"
proof -
  let ?ps = "filter chosen [0..<length (rows st)]"
  let ?qs = "map (\<lambda>p. (emptyRecord recordDelete (row_id (rows st ! p)), None :: bytes option)) ?ps"
  have s: "select_positions selected [0..<length (rows st)] = Returns ?ps" using sel by (intro select_positions_eq) simp
  have gone: "i \<in> (\<lambda>p. row_id (rows st ! p)) ` set ?ps \<longleftrightarrow> (\<exists>p. map_of (byID st) i = Some p \<and> chosen p)" for i
    using index_okD(2) [OF store_okD(2) [OF st]] by (auto simp: image_iff)
  show ?thesis
  proof (cases "?ps = []")
    case True
    then have "\<not> (\<exists>p. map_of (byID st) i = Some p \<and> chosen p)" for i using gone [of i] by simp
    moreover have "deleteWhere fault filesOk selected st = Returns (Inr 0, st)" using s True by (simp add: deleteWhere_def)
    ultimately show ?thesis using st True by auto
  next
    case False
    note d = deletions_writable [OF st, of ?ps]
    have sub: "set ?ps \<subseteq> {..<length (rows st)}" by auto
    have "store_ok (cells_total (map fst ?qs) + k) st" unfolding d(4) [OF sub] using st by simp
    from collection_write_atomic [OF this d(1) [OF sub], of fault filesOk] d(2,3) [OF sub] store_okD(6,7) [OF st]
    obtain e st' where w: "collection_write fault filesOk ?qs st = Returns (e, st')" "store_ok k st'"
      "contents st' = (if e = None then fold (content_effect (dataFile st) (length (Scalars st))) ?qs (contents st) else contents st)"
      by (metis add.right_neutral)
    have run: "deleteWhere fault filesOk selected st = Returns (case e of Some e \<Rightarrow> Inl (StoreFailed e) | None \<Rightarrow> Inr (length ?ps), st')"
      using s False w(1) by (simp add: deleteWhere_def store_result_def)
    show ?thesis
    proof (cases e)
      case None
      then have "contents st' i = (if \<exists>p. map_of (byID st) i = Some p \<and> chosen p then None else contents st i)" for i
        using w(3) gone [of i] fold_content_deletes [of "dataFile st" "length (Scalars st)" "\<lambda>p. row_id (rows st ! p)" ?ps]
        by simp
      with run w(2) None show ?thesis by simp
    qed (use run w in simp)
  qed
qed

lemma matched_decides:
  "decides st p f \<Longrightarrow> q < length (rows st) \<Longrightarrow> matched p q = Returns (eval_filter (row_value st q) f = truthTrue)"
  by (simp add: decides_def matched_def)

section \<open>Searching\<close>

definition row_texts :: "codeCollection \<Rightarrow> nat \<Rightarrow> bytes \<times> bytes" where
  "row_texts st p =
     (case decodeBlob (blob_of (dataFile st) (record_at st p)) of Returns (Some texts) \<Rightarrow> texts | _ \<Rightarrow> ([], []))"

text \<open>Every row's data decodes, as it does when the store wrote it.\<close>

definition blobs_decode :: "codeCollection \<Rightarrow> bool" where
  "blobs_decode st \<longleftrightarrow> (\<forall>p < length (rows st). \<exists>texts. decodeBlob (blob_of (dataFile st) (record_at st p)) = Returns (Some texts))"

lemma hit_row:
  assumes ok: "store_ok k st" "blobs_decode st" and p: "p < length (rows st)"
  shows "hit st p score columns = Returns (Inr (hit_of (columnIndex st) (record_at st p) (row_texts st p) score columns))"
proof -
  let ?i = "row_id (rows st ! p)"
  obtain texts where t: "decodeBlob (blob_of (dataFile st) (record_at st p)) = Returns (Some texts)"
    using ok(2) p by (auto simp: blobs_decode_def)
  have "map_of (byID st) ?i = Some p" by (rule index_okD(3) [OF store_okD(2) [OF ok(1)] p])
  moreover have "contents st ?i = Some ((record_at st p)\<lparr>rec_dataOffset := 0\<rparr>, blob_of (dataFile st) (record_at st p))"
    using view_row [OF store_okD(2) [OF ok(1)] p] by (simp add: contents_def)
  ultimately have "hit st p score columns =
      Returns (Inr (hit_of (columnIndex st) ((record_at st p)\<lparr>rec_dataOffset := 0\<rparr>) texts score columns))"
    by (rule hit_contents [OF ok(1) _ _ t])
  then show ?thesis using t by (simp add: hit_of_def shown_cells_offset row_texts_def)
qed

lemma hits_rows:
  assumes ok: "store_ok k st" "blobs_decode st"
  shows "list_all (\<lambda>(p, score). p < length (rows st)) ps \<Longrightarrow>
    hits st columns ps = Returns (Inr (map (\<lambda>(p, score).
      hit_of (columnIndex st) (record_at st p) (row_texts st p) score columns) ps))"
  by (induction ps) (auto simp: hit_row [OF ok])

definition passes :: "codeCollection \<Rightarrow> Filter option \<Rightarrow> nat \<Rightarrow> bool" where
  "passes st f p \<longleftrightarrow> (case f of None \<Rightarrow> True | Some f \<Rightarrow> eval_filter (row_value st p) f = truthTrue)"

lemma compile_optional_passes:
  assumes "store_ok k st" "\<forall>f' \<in> set_option f. fits_collection st f'"
  obtains p where "compile_optional e st f = Inr p" "\<forall>q < length (rows st). p q \<noteq> Panic"
    "\<And>q. q < length (rows st) \<Longrightarrow> p q = Returns truthTrue \<longleftrightarrow> passes st f q"
proof (cases f)
  case None
  then show ?thesis using that [of "\<lambda>_. Returns truthTrue"] by (simp add: compile_optional_def passes_def)
next
  case (Some f')
  have "cells_ok st" using store_okD(1) [OF assms(1)] by (simp add: collection_inv_def)
  with compile_both(1) [OF store_okD(3) [OF assms(1)], of f' e] assms(2) Some
  obtain p where "compileFilter e st f' = Inr p" "decides st p f'" by auto
  then show ?thesis using that [of p] Some by (simp add: compile_optional_def decides_def passes_def)
qed

text \<open>The rows a search may return, with their distances.\<close>

definition search_candidates :: "codeCollection \<Rightarrow> SearchRequest \<Rightarrow> candidate list" where
  "search_candidates st request =
     map (\<lambda>p. \<lparr>cand_position = p, cand_distance = Distance (CodeOf (Search_Vector request)) (codes st ! p)\<rparr>)
       (filter (\<lambda>p. passes st (Search_Filter request) p \<and>
           Search_MinScore request \<le> Score (Distance (CodeOf (Search_Vector request)) (codes st ! p)))
         [0..<length (rows st)])"

lemma search_window: "0 < window (search_walk st request)" "maxDistance (search_walk st request) = maxDistanceFor (Search_MinScore request)"
  by (simp_all add: search_walk_def defaultSearchLimit_def Let_def)

lemma search_ranks:
  assumes ok: "store_ok k st" and fits: "\<forall>f \<in> set_option (Search_Filter request). fits_collection st f"
  obtains p where "compile_optional e st (Search_Filter request) = Inr p"
    "rank procs st (CodeOf (Search_Vector request)) p (search_walk st request) =
       Some (walkRanking st (sortCandidates st (search_candidates st request)) (search_walk st request))"
    "distinct (map (order_key st) (search_candidates st request))"
proof -
  obtain p where p: "compile_optional e st (Search_Filter request) = Inr p" "\<forall>q < length (rows st). p q \<noteq> Panic"
    "\<And>q. q < length (rows st) \<Longrightarrow> p q = Returns truthTrue \<longleftrightarrow> passes st (Search_Filter request) q"
    using compile_optional_passes [OF ok fits] by blast
  have eq: "matching st (CodeOf (Search_Vector request)) p (search_walk st request) [0..<length (rows st)] =
      search_candidates st request"
    unfolding matching_def search_candidates_def search_window(2)
    by (intro arg_cong [where f = "map _"] filter_cong) (auto simp: p(3) maxDistanceFor_exact)
  have "distinct (map (order_key st) (search_candidates st request))"
    unfolding eq [symmetric] using index_ok_distinct [OF store_okD(2) [OF ok]] by (intro order_key_distinct) auto
  with that [OF p(1)] rank_full_sort [OF store_okD(2) [OF ok] search_window(1) p(2)] eq show ?thesis by simp
qed

section \<open>Properties\<close>



text \<open>
  C13. A search returns the nearest rows. Of the rows that pass its filter and reach its minimum
  score, it returns in ascending order of distance, ties broken by row ID, as many as its limit
  (10 unless positive) and its limit per group allow; a row is left out only in favour of nearer
  ones. Each is returned with its own content, scalars and score, whatever the number of
  processors. A query of the wrong dimension or with a filter that does not fit is refused.
\<close>

theorem Search_nearest:
  assumes "store_ok k st" "blobs_decode st"
  shows "if length (Search_Vector request) \<noteq> Dimensions
    then Search e procs st request = Returns (Inl (QueryDimensions (length (Search_Vector request))))
    else if \<exists>f. Search_Filter request = Some f \<and> \<not> fits_collection st f
    then \<exists>err. Search e procs st request = Returns (Inl (FilterFailed err))
    else \<exists>ranked. nearest (order_key st) (group_of st (search_walk st request)) (walk_limit (search_walk st request))
        (window (search_walk st request)) (search_candidates st request) ranked \<and>
      Search e procs st request = Returns (Inr (map (\<lambda>c. hit_of (columnIndex st) (record_at st (cand_position c))
        (row_texts st (cand_position c)) (Score (cand_distance c)) (Search_Scalars request)) ranked))"
proof (cases "length (Search_Vector request) = Dimensions")
  case dim: True
  show ?thesis
  proof (cases "\<exists>f. Search_Filter request = Some f \<and> \<not> fits_collection st f")
    case True
    then obtain f where f: "Search_Filter request = Some f" "\<not> fits_collection st f" by blast
    have "cells_ok st" using store_okD(1) [OF assms(1)] by (simp add: collection_inv_def)
    with compile_both(1) [OF store_okD(3) [OF assms(1)], of f e] f(2) obtain err where "compileFilter e st f = Inl err" by auto
    with f dim show ?thesis by (auto simp: Search_def compile_optional_def)
  next
    case False
    then have "\<forall>f \<in> set_option (Search_Filter request). fits_collection st f" by auto
    from search_ranks [OF assms(1) this] obtain p where p: "compile_optional e st (Search_Filter request) = Inr p"
      "rank procs st (CodeOf (Search_Vector request)) p (search_walk st request) =
         Some (walkRanking st (sortCandidates st (search_candidates st request)) (search_walk st request))"
      "distinct (map (order_key st) (search_candidates st request))" by metis
    let ?ranked = "walkRanking st (sortCandidates st (search_candidates st request)) (search_walk st request)"
    have n: "nearest (order_key st) (group_of st (search_walk st request)) (walk_limit (search_walk st request))
        (window (search_walk st request)) (search_candidates st request) ?ranked"
      using p(3) by (rule walkRanking_nearest)
    then have "list_all (\<lambda>(p, score). p < length (rows st)) (map (\<lambda>c. (cand_position c, Score (cand_distance c))) ?ranked)"
      by (auto simp: nearest_def search_candidates_def list_all_iff)
    from hits_rows [OF assms this, of "Search_Scalars request"] p dim
    have "Search e procs st request = Returns (Inr (map (\<lambda>c. hit_of (columnIndex st) (record_at st (cand_position c))
        (row_texts st (cand_position c)) (Score (cand_distance c)) (Search_Scalars request)) ?ranked))"
      by (simp add: Search_def comp_def)
    with n dim False show ?thesis by auto
  qed
qed (simp add: Search_def)

section \<open>Witnesses\<close>

lemma set_columns_index:
  "map_of (fst (set_columns e position columns index dicts)) name = Some c \<Longrightarrow>
   map_of index name = Some c \<or>
   (position \<le> c \<and> c < position + length columns \<and> col_name (columns ! (c - position)) = name)"
proof (induction columns arbitrary: position index dicts)
  case (Cons column columns)
  have shift: "(column # columns) ! (c - position) = columns ! (c - Suc position)" if "Suc position \<le> c"
  proof -
    have "c - position = Suc (c - Suc position)" using that by linarith
    then show ?thesis by simp
  qed
  from Cons.IH [OF Cons.prems [unfolded set_columns.simps]] show ?case
    by (auto simp: update_conv' shift split: if_splits)
qed simp

lemma emptyCollection_columns: "columns_ok (emptyCollection e columns g f rb db)"
  using set_columns_index [of e 0 columns "[]" "[]"]
  by (auto simp: columns_ok_def emptyCollection_def setDeclaration_def split: prod.splits)

lemma emptyCollection_store_ok:
  "k \<le> MaxUint32 \<Longrightarrow> int (length columns) \<le> MaxInt64 \<Longrightarrow> int (length db) \<le> MaxInt64 \<Longrightarrow>
   store_ok k (emptyCollection e columns g f rb db)"
  using emptyCollection_inv emptyCollection_columns by (simp add: store_ok_def live_bytes_def)

definition demo_row :: Row where
  "demo_row = \<lparr>Row_ID = ''a'', Row_Vector = replicate 256 1, Row_RelativePath = ''p'', Row_SplitPart = 0, Row_SplitPartRecorded = True,
     Row_Content = ''text'', Row_Metadata = ''{}'', Row_Scalars = [(''n'', (null_scalar ScalarTypeString)\<lparr>scalar_null := False, scalar_int64 := 5\<rparr>)]\<rparr>"

definition demo_empty :: codeCollection where
  "demo_empty = emptyCollection (null_scalar ScalarTypeString) [\<lparr>col_name = ''n'', col_type = ScalarTypeInt64\<rparr>] 0 frameFormatLengthCRC [] []"

lemma demo_row_ok: "row_in_range demo_empty demo_row" "row_bytes demo_row = 8" "acceptable demo_empty demo_row"
proof -
  show "row_in_range demo_empty demo_row"
    by (auto simp: row_in_range_def demo_row_def demo_empty_def emptyCollection_def setDeclaration_def normalized_scalar_def
        typed_scalar_def null_scalar_def)
  show "row_bytes demo_row = 8"
    by (simp add: row_bytes_def demo_row_def encodeBlob_def appendString_def AppendVarint_def zigzag_def AppendUvarint.simps)
  have "trim_space ''a'' \<noteq> []" by code_simp
  then show "acceptable demo_empty demo_row"
    by (simp add: acceptable_def demo_row_def demo_empty_def emptyCollection_def setDeclaration_def Dimensions_def)
qed


text \<open>The two rows of the filter example, with data, and a search that wants both.\<close>

definition demo_store :: codeCollection where
  "demo_store = demo_filter_collection\<lparr>rows := map (\<lambda>r. r\<lparr>row_dataLength := 4\<rparr>) (rows demo_filter_collection),
     dataFile := encodeBlob ''x'' ''y'', dataSize := 4\<rparr>"

lemma demo_blob: "length (encodeBlob ''x'' ''y'') = 4" "decodeBlob (encodeBlob ''x'' ''y'') = Returns (Some (''x'', ''y''))"
  by (simp_all add: decodeBlob_encodeBlob)
     (simp add: encodeBlob_def appendString_def AppendVarint_def zigzag_def AppendUvarint.simps)

lemma demo_store_fields:
  "length (rows demo_store) = 2" "byID demo_store = [(''a'', 0), (''b'', 1)]" "dataFile demo_store = encodeBlob ''x'' ''y''"
  "dataSize demo_store = 4" "Scalars demo_store = [\<lparr>col_name = ''n'', col_type = ScalarTypeInt64\<rparr>]"
  "columnIndex demo_store = columnIndex demo_filter_collection" "dictionaries demo_store = dictionaries demo_filter_collection"
  "codes demo_store = codes demo_filter_collection"
  by (simp_all add: demo_store_def demo_filter_collection_def)

lemma demo_store_ok: "store_ok 0 demo_store"
proof -
  have "index_ok demo_store"
    by (auto simp: index_ok_def demo_store_def demo_filter_collection_def nth_Cons split: nat.splits if_splits)
  moreover have "cells_ok demo_store"
    using demo_filter_inv by (auto simp: collection_inv_def cells_ok_def demo_store_def row_ok_def list_all_iff)
  moreover have "rows_ok demo_store"
    by (auto simp: rows_ok_def demo_store_def demo_filter_collection_def row_record_def stored_cells_def record_ok_def emptyRecord_def
        record_constants less_Suc_eq cell_ok_def typed_scalar_def null_scalar_def)
  moreover have "room 0 (dictionaries demo_store)"
    by (simp add: room_def demo_store_def demo_filter_collection_def)
  ultimately have inv: "collection_inv 0 demo_store" by (simp add: collection_inv_def)
  have range: "rec_dataOffset r + rec_dataLength r = 4" if "view demo_store i = Some r" for i r
    using that by (auto simp: view_def demo_store_def demo_filter_collection_def row_record_def emptyRecord_def split: if_splits)
  have "dom (view demo_store) = {''a'', ''b''}"
    by (auto simp: view_def demo_store_fields dom_def split: if_splits)
  moreover have "rec_dataLength (the (view demo_store ''a'')) = 4" "rec_dataLength (the (view demo_store ''b'')) = 4"
    by (simp_all add: view_def demo_store_def demo_filter_collection_def row_record_def emptyRecord_def)
  ultimately have live: "live_bytes (view demo_store) = 8" by (simp add: live_bytes_def)
  have "columns_ok demo_store" using demo_filter_columns
    unfolding columns_ok_def demo_store_fields by (simp add: demo_filter_collection_def)
  with inv live range show ?thesis
    by (simp add: store_ok_def demo_store_fields demo_blob)
qed


definition demo_request :: SearchRequest where
  "demo_request = \<lparr>Search_Vector = replicate 256 0, Search_Filter = None, Search_GroupBy = [], Search_PerGroupLimit = 0,
     Search_Limit = 1, Search_MinScore = 0, Search_Scalars = []\<rparr>"

lemma demo_store_decodes: "blobs_decode demo_store"
proof -
  have "blob_of (dataFile demo_store) (record_at demo_store p) = encodeBlob ''x'' ''y''" if "p < 2" for p
    using that demo_blob(1)
    by (auto simp: less_2_cases_iff blob_of_def demo_store_def demo_filter_collection_def row_record_def emptyRecord_def)
  then show ?thesis using demo_blob(2) by (simp add: blobs_decode_def demo_store_fields)
qed

theorem Search_nearest_witness:
  "store_ok 0 demo_store \<and> blobs_decode demo_store \<and>
   (\<exists>ranked. nearest (order_key demo_store) (group_of demo_store (search_walk demo_store demo_request)) None 1
       (search_candidates demo_store demo_request) ranked \<and>
     Search (null_scalar ScalarTypeString) 4 demo_store demo_request =
       Returns (Inr (map (\<lambda>c. hit_of (columnIndex demo_store) (record_at demo_store (cand_position c))
         (row_texts demo_store (cand_position c)) (Score (cand_distance c)) []) ranked)))"
proof -
  have "length (Search_Vector demo_request) = Dimensions" "Search_Filter demo_request = None" "Search_Scalars demo_request = []"
    "walk_limit (search_walk demo_store demo_request) = None" "window (search_walk demo_store demo_request) = 1"
    by (simp_all add: demo_request_def Dimensions_def search_walk_def walk_limit_def)
  with Search_nearest [OF demo_store_ok demo_store_decodes, of demo_request "null_scalar ScalarTypeString" 4]
    demo_store_ok demo_store_decodes show ?thesis by simp
qed

end
