(* ===== verification/Codestore_Columns.thy ===== *)
theory Codestore_Columns
  imports Codestore_Requests
begin

text \<open>
  Adding columns to a collection that holds rows (\<open>EnsureCollection\<close> in \<open>codestore/store.go\<close>).
\<close>

section \<open>The column index\<close>

fun index_columns :: "nat \<Rightarrow> ScalarColumn list \<Rightarrow> (bytes \<times> nat) list \<Rightarrow> (bytes \<times> nat) list" where
  "index_columns position [] index = index"
| "index_columns position (column # columns) index =
     index_columns (position + 1) columns (AList.update (col_name column) position index)"

lemma set_columns_fst: "fst (set_columns e position columns index dicts) = index_columns position columns index"
  by (induction columns arbitrary: position index dicts) simp_all

lemma set_columns_snd:
  "position \<le> length dicts \<Longrightarrow>
   snd (set_columns e position columns index dicts) =
     dicts @ replicate (position + length columns - length dicts) (newDictionary e)"
proof (induction columns arbitrary: position index dicts)
  case (Cons column columns)
  show ?case
  proof (cases "position = length dicts")
    case True
    with Cons.IH [of "Suc position" "dicts @ [newDictionary e]"] show ?thesis by simp
  next
    case False
    with Cons.prems Cons.IH [of "Suc position" dicts] show ?thesis by simp
  qed
qed simp

lemma index_columns_append:
  "index_columns position (xs @ ys) index = index_columns (position + length xs) ys (index_columns position xs index)"
  by (induction xs arbitrary: position index) simp_all

lemma index_columns_other:
  "name \<notin> col_name ` set columns \<Longrightarrow> map_of (index_columns position columns index) name = map_of index name"
  by (induction columns arbitrary: position index) (auto simp: update_conv')

lemma index_columns_dom: "dom (map_of (index_columns position columns index)) = dom (map_of index) \<union> col_name ` set columns"
  by (induction columns arbitrary: position index) (auto simp: update_conv' split: if_splits)

text \<open>The index is the one the declaration gives.\<close>

definition declared :: "codeCollection \<Rightarrow> bool" where
  "declared st \<longleftrightarrow> columnIndex st = index_columns 0 (Scalars st) []"

lemma declared_columns_ok: "declared st \<Longrightarrow> columns_ok st"
  using set_columns_index [of undefined 0 "Scalars st" "[]" "[]"] by (auto simp: columns_ok_def declared_def set_columns_fst)

section \<open>Rows with more columns\<close>

lemma stored_cells_more:
  assumes "length xs = length dicts"
  shows "stored_cells (dicts @ new) (xs @ replicate m 0) = stored_cells dicts xs"
proof -
  have "filter (\<lambda>c. (xs @ replicate m 0) ! c \<noteq> 0) [0..<length (xs @ replicate m 0)] =
      filter (\<lambda>c. xs ! c \<noteq> 0) [0..<length xs]"
  proof -
    have "[0..<length (xs @ replicate m 0)] = [0..<length xs] @ [length xs..<length xs + m]"
      using upt_add_eq_append [of 0 "length xs" m] by simp
    moreover have "filter (\<lambda>c. (xs @ replicate m 0) ! c \<noteq> 0) [length xs..<length xs + m] = []"
      by (auto simp: filter_empty_conv nth_append)
    moreover have "filter (\<lambda>c. (xs @ replicate m 0) ! c \<noteq> 0) [0..<length xs] = filter (\<lambda>c. xs ! c \<noteq> 0) [0..<length xs]"
      by (intro filter_cong) (auto simp: nth_append)
    ultimately show ?thesis by simp
  qed
  then show ?thesis unfolding stored_cells_form using assms by (auto simp: nth_append)
qed

lemma record_ok_more: "record_ok columns r \<Longrightarrow> int (length (columns @ more_columns)) \<le> MaxInt64 \<Longrightarrow> record_ok (columns @ more_columns) r"
  by (auto simp: record_ok_def list_all_iff cell_ok_def nth_append split: if_splits)

definition widened :: "ScalarValue \<Rightarrow> ScalarColumn list \<Rightarrow> codeCollection \<Rightarrow> codeCollection" where
  "widened e added st = st\<lparr>Scalars := Scalars st @ added, columnIndex := index_columns 0 (Scalars st @ added) [],
     dictionaries := dictionaries st @ replicate (length added) (newDictionary e),
     rows := map (\<lambda>current. current\<lparr>row_cells := row_cells current @ replicate (length added) 0\<rparr>) (rows st)\<rparr>"

lemma ensure_columns_widens:
  assumes "cells_ok st"
  shows "ensure_columns e headerOk requested st =
    (let added = filter (\<lambda>column. map_of (columnIndex st) (col_name column) = None) requested in
     if added = [] then (True, st) else if \<not> headerOk then (False, st) else (True, widened e added st))"
proof -
  have len: "length (dictionaries st) = length (Scalars st)" using assms by (simp add: cells_ok_def)
  have row: "length (row_cells current) = length (Scalars st)" if "current \<in> set (rows st)" for current
    using assms that len by (auto simp: cells_ok_def list_all_iff row_ok_def)
  have "(setDeclaration e (Scalars st @ added) st)\<lparr>rows := map (\<lambda>current. current\<lparr>row_cells := row_cells current @
      replicate (length (Scalars st @ added) - length (row_cells current)) 0\<rparr>) (rows (setDeclaration e (Scalars st @ added) st))\<rparr> =
    widened e added st" for added
    using row len set_columns_fst [of e 0 "Scalars st @ added" "[]" "dictionaries st"]
      set_columns_snd [of 0 "dictionaries st" e "Scalars st @ added" "[]"]
    by (auto simp: setDeclaration_def widened_def split: prod.splits)
  then show ?thesis by (simp add: ensure_columns_def Let_def)
qed

lemma widened_record:
  assumes "cells_ok st" "p < length (rows st)"
  shows "record_at (widened e added st) p = record_at st p"
  using assms by (auto simp: widened_def row_record_def stored_cells_more cells_ok_def list_all_length row_ok_def)

lemma widened_view: "collection_inv k st \<Longrightarrow> view (widened e added st) = view st"
proof
  fix i
  assume inv: "collection_inv k st"
  show "view (widened e added st) i = view st i"
  proof (cases "map_of (byID st) i")
    case None
    then show ?thesis by (simp add: view_def widened_def)
  next
    case (Some p)
    with inv have "p < length (rows st)" by (simp add: collection_inv_def index_ok_def)
    then have "record_at (widened e added st) p = record_at st p" using inv by (simp add: widened_record collection_inv_def)
    with Some show ?thesis by (simp add: view_def widened_def)
  qed
qed

lemma widened_inv:
  assumes inv: "collection_inv k st" and k: "k \<le> MaxUint32" and max: "int (length (Scalars st @ added)) \<le> MaxInt64"
  shows "collection_inv k (widened e added st)"
proof -
  have cells: "cells_ok st" and len: "length (dictionaries st) = length (Scalars st)"
    using inv by (simp_all add: collection_inv_def cells_ok_def)
  have "index_ok (widened e added st)"
    using inv by (auto simp: collection_inv_def index_ok_def widened_def)
  moreover have "rows_ok (widened e added st)"
    unfolding rows_ok_def
  proof (intro allI impI)
    fix p
    assume "p < length (rows (widened e added st))"
    then have p: "p < length (rows st)" by (simp add: widened_def)
    then have "record_ok (Scalars st) (record_at st p)" using inv by (simp add: collection_inv_def rows_ok_def)
    then have "record_ok (Scalars st @ added) (record_at st p)" using max by (rule record_ok_more)
    then show "record_ok (Scalars (widened e added st)) (record_at (widened e added st) p)"
      using widened_record [OF cells p, of e added] by (simp add: widened_def)
  qed
  moreover have "dicts_ok (column_value (Scalars (widened e added st))) (dictionaries (widened e added st))"
    using cells len unfolding cells_ok_def dicts_ok_def
    by (auto simp: widened_def nth_append column_value_def [abs_def])
  moreover have "list_all (row_ok (dictionaries (widened e added st))) (rows (widened e added st))"
    using cells len by (auto simp: cells_ok_def list_all_length row_ok_def widened_def nth_append newDictionary_def)
  moreover have "room k (dictionaries (widened e added st))"
    using inv k by (auto simp: collection_inv_def room_def widened_def nth_append newDictionary_def)
  ultimately show ?thesis using len by (simp add: collection_inv_def cells_ok_def widened_def)
qed

lemma widened_declared: "declared (widened e added st)"
  by (simp add: declared_def widened_def)

lemma widened_store_ok:
  assumes st: "store_ok k st" and "k \<le> MaxUint32" "int (length (Scalars st @ added)) \<le> MaxInt64"
  shows "store_ok k (widened e added st)"
proof -
  have inv: "collection_inv k st" using st by (simp add: store_ok_def)
  have "columns_ok (widened e added st)" by (rule declared_columns_ok) (rule widened_declared)
  then show ?thesis
    using st widened_inv [OF inv assms(2,3), of e] widened_view [OF inv, of e added] assms(3)
    by (simp add: store_ok_def) (simp add: widened_def)
qed

lemma widened_contents: "collection_inv k st \<Longrightarrow> contents (widened e added st) = contents st"
  by (rule ext) (simp add: contents_def widened_view, simp add: widened_def)

lemma widened_index:
  assumes "declared st" "\<And>column. column \<in> set added \<Longrightarrow> map_of (columnIndex st) (col_name column) = None"
  shows "map_of (columnIndex (widened e added st)) name =
    (if name \<in> col_name ` set added then map_of (index_columns (length (Scalars st)) added (columnIndex st)) name
     else map_of (columnIndex st) name)"
  using assms by (auto simp: widened_def declared_def index_columns_append index_columns_other)

lemma index_columns_range:
  "map_of (index_columns position columns index) name = Some column \<Longrightarrow> name \<in> col_name ` set columns \<Longrightarrow>
   position \<le> column \<and> column < position + length columns"
proof (induction columns arbitrary: position index)
  case (Cons head columns)
  show ?case
  proof (cases "name \<in> col_name ` set columns")
    case True
    with Cons.IH [of "position + 1" "AList.update (col_name head) position index"] Cons.prems show ?thesis by simp
  next
    case False
    with Cons.prems show ?thesis by (simp add: index_columns_other update_conv')
  qed
qed simp

lemma widened_row_value:
  assumes cells: "cells_ok st" and declared: "declared st" and p: "p < length (rows st)"
    and added: "\<And>column. column \<in> set added \<Longrightarrow> map_of (columnIndex st) (col_name column) = None"
  shows "row_value (widened e added st) p name = row_value st p name"
proof -
  have len: "length (row_cells (rows st ! p)) = length (Scalars st)" "length (dictionaries st) = length (Scalars st)"
    using cells p by (auto simp: cells_ok_def list_all_length row_ok_def)
  have index: "map_of (columnIndex (widened e added st)) name =
    (if name \<in> col_name ` set added then map_of (index_columns (length (Scalars st)) added (columnIndex st)) name
     else map_of (columnIndex st) name)"
    using declared added by (rule widened_index)
  show ?thesis
  proof (cases "name \<in> col_name ` set added")
    case True
    then obtain column where column: "map_of (index_columns (length (Scalars st)) added (columnIndex st)) name = Some column"
      using index_columns_dom [of "length (Scalars st)" added "columnIndex st"] by blast
    have "length (Scalars st) \<le> column" "column - length (Scalars st) < length added"
      using index_columns_range [OF column True] by auto
    moreover have "map_of (columnIndex st) name = None" using True added by auto
    ultimately show ?thesis using index True column p len
      by (simp add: row_value_def) (simp add: widened_def nth_append Let_def)
  next
    case False
    have "column < length (Scalars st)" if "map_of (columnIndex st) name = Some column" for column
      using declared_columns_ok [OF declared] that by (auto simp: columns_ok_def)
    then show ?thesis using index False p len
      by (simp add: row_value_def split: option.split) (simp add: widened_def nth_append)
  qed
qed

section \<open>The property\<close>

text \<open>
  C39. Adding columns to a collection changes no row.  For an open collection whose index is the one
  its declaration gives, \<open>EnsureCollection\<close> keeps the invariant, and every row keeps its record, its
  data and the value it shows under every column name, so a new column reads as absent in the rows
  already stored.  If the header could be written then every requested column is declared
  afterwards; if it could not, the collection is unchanged.
\<close>

theorem ensure_columns_keeps_rows:
  assumes st: "store_ok k st" "declared st" and k: "k \<le> MaxUint32"
    and max: "int (length (Scalars st) + length requested) \<le> MaxInt64"
    and run: "ensure_columns e headerOk requested st = (ok, st')"
  shows "store_ok k st' \<and> declared st' \<and> contents st' = contents st \<and>
    (\<forall>p < length (rows st). \<forall>name. row_value st' p name = row_value st p name) \<and>
    (if ok then \<forall>column \<in> set requested. map_of (columnIndex st') (col_name column) \<noteq> None
     else \<not> headerOk \<and> st' = st)"
proof -
  define added where "added = filter (\<lambda>column. map_of (columnIndex st) (col_name column) = None) requested"
  have inv: "collection_inv k st" "cells_ok st" using st by (simp_all add: store_ok_def collection_inv_def)
  have new: "map_of (columnIndex st) (col_name column) = None" if "column \<in> set added" for column
    using that by (simp add: added_def)
  note result = ensure_columns_widens [OF inv(2), of e headerOk requested, folded added_def, unfolded run Let_def]
  show ?thesis
  proof (cases "added = [] \<or> \<not> headerOk")
    case True
    then have "\<forall>column \<in> set requested. map_of (columnIndex st) (col_name column) \<noteq> None" if "added = []"
      using that by (auto simp: added_def filter_empty_conv)
    with True result st show ?thesis by (auto split: if_splits)
  next
    case False
    with result have ok: "ok" "st' = widened e added st" by simp_all
    have "int (length (Scalars st @ added)) \<le> MaxInt64"
      using max length_filter_le [of _ requested] by (auto simp: added_def intro: order_trans [rotated])
    note kept = widened_store_ok [OF st(1) k this] widened_declared widened_contents [OF inv(1)]
      widened_row_value [OF inv(2) st(2) _ new]
    have "map_of (columnIndex st') (col_name column) \<noteq> None" if "column \<in> set requested" for column
    proof -
      have "col_name column \<in> dom (map_of (columnIndex st)) \<union> col_name ` set added"
        using that by (auto simp: added_def)
      then show ?thesis
        using st(2) ok(2) index_columns_dom [of "length (Scalars st)" added "columnIndex st"]
        by (auto simp: widened_def declared_def index_columns_append)
    qed
    with kept ok show ?thesis by simp
  qed
qed

definition demo_added :: "ScalarColumn list" where
  "demo_added = [\<lparr>col_name = ''lang'', col_type = ScalarTypeString\<rparr>]"

theorem ensure_columns_keeps_rows_witness:
  "store_ok 0 demo_store \<and> declared demo_store \<and>
   (\<exists>st'. ensure_columns (null_scalar ScalarTypeString) True demo_added demo_store = (True, st') \<and>
     contents st' = contents demo_store \<and> row_value st' 0 ''lang'' = None \<and>
     row_value st' 0 ''n'' = row_value demo_store 0 ''n'' \<and> map_of (columnIndex st') ''lang'' \<noteq> None)"
proof -
  have declared: "declared demo_store"
    by (simp add: declared_def demo_store_fields) (simp add: demo_filter_collection_def emptyCollection_def setDeclaration_def)
  obtain ok st' where run: "ensure_columns (null_scalar ScalarTypeString) True demo_added demo_store = (ok, st')" by fastforce
  have max: "int (length (Scalars demo_store) + length demo_added) \<le> MaxInt64"
    by (simp add: demo_store_fields demo_added_def)
  note kept = ensure_columns_keeps_rows [OF demo_store_ok declared _ max run]
  have "row_value demo_store 0 ''lang'' = None" by (simp add: row_value_def demo_store_fields) (simp add: demo_filter_collection_def emptyCollection_def setDeclaration_def)
  with kept run demo_store_ok declared show ?thesis
    by (auto simp: demo_store_fields demo_added_def split: if_splits)
qed

end
