(* ===== verification/Codestore_Lock.thy ===== *)
theory Codestore_Lock
  imports Main
begin

text \<open>
  The wait for the kernel lock of a collection directory (\<open>lockCollectionFile\<close> in
  \<open>internal/conversation/codestore/coherence.go\<close>). Time is counted in milliseconds. The environment
  gives the result of a nonblocking lock attempt at each time and the time at which the request
  context ends, if it does. The loop has no bound of its own, so it is a partial function whose value
  is \<open>None\<close> when it never returns.
\<close>

section \<open>The loop\<close>

datatype flock_result = FlockOk | FlockWouldBlock | FlockInterrupted | FlockError

record lock_env =
  flock :: "nat \<Rightarrow> flock_result"
  context_end :: "nat option"
  timer_first :: "nat \<Rightarrow> bool"
  open_ok :: bool

text \<open>
  \<open>timer_first t\<close> says which branch the \<open>select\<close> statement takes when the timer fires and the context
  ends at the same time \<open>t\<close>.
\<close>

datatype lock_result = LockAcquired | ContextEnded | LockFailed | LockOpenFailed

definition lockPollMinimum :: nat where "lockPollMinimum = 1"
definition lockPollMaximum :: nat where "lockPollMaximum = 20"

definition ended :: "lock_env \<Rightarrow> nat \<Rightarrow> bool" where
  "ended env t = (case context_end env of None \<Rightarrow> False | Some d \<Rightarrow> d \<le> t)"

text \<open>The context ends before the timer set at \<open>t\<close> fires, or together with it and is chosen.\<close>

definition done_first :: "lock_env \<Rightarrow> nat \<Rightarrow> nat \<Rightarrow> bool" where
  "done_first env t delay =
     (case context_end env of
        None \<Rightarrow> False
      | Some d \<Rightarrow> d < t + delay \<or> d = t + delay \<and> \<not> timer_first env (t + delay))"

text \<open>The result is paired with the time of the return.\<close>

partial_function (option) lock_loop :: "lock_env \<Rightarrow> nat \<Rightarrow> nat \<Rightarrow> (lock_result \<times> nat) option" where
  "lock_loop env delay t =
     (case flock env t of
        FlockOk \<Rightarrow> Some (if ended env t then ContextEnded else LockAcquired, t)
      | FlockError \<Rightarrow> Some (LockFailed, t)
      | _ \<Rightarrow>
          if done_first env t delay then Some (ContextEnded, max t (the (context_end env)))
          else lock_loop env (min (delay * 2) lockPollMaximum) (t + delay))"

definition lockCollectionFile :: "lock_env \<Rightarrow> nat \<Rightarrow> (lock_result \<times> nat) option" where
  "lockCollectionFile env t =
     (if ended env t then Some (ContextEnded, t)
      else if \<not> open_ok env then Some (LockOpenFailed, t)
      else lock_loop env lockPollMinimum t)"

section \<open>The loop returns\<close>

abbreviation free_from :: "lock_env \<Rightarrow> nat \<Rightarrow> bool" where
  "free_from env f \<equiv> \<forall>t \<ge> f. flock env t = FlockOk"

text \<open>The time at which the wait is over: the context ends or the lock is free for good.\<close>

definition lock_horizon :: "lock_env \<Rightarrow> nat \<Rightarrow> bool" where
  "lock_horizon env h \<longleftrightarrow> context_end env = Some h \<or> free_from env h"

text \<open>What a result at time \<open>u\<close> means for a wait that has reached time \<open>t\<close>.\<close>

definition lock_outcome :: "lock_env \<Rightarrow> nat \<Rightarrow> lock_result \<Rightarrow> nat \<Rightarrow> bool" where
  "lock_outcome env t r u \<longleftrightarrow>
     t \<le> u \<and> (\<forall>d. context_end env = Some d \<longrightarrow> u \<le> max t d) \<and> (\<forall>f. free_from env f \<longrightarrow> (if f \<le> t then u = t else u < f + lockPollMaximum)) \<and>
     (case r of
        LockAcquired \<Rightarrow> flock env u = FlockOk \<and> \<not> ended env u
      | ContextEnded \<Rightarrow> ended env u
      | LockFailed \<Rightarrow> flock env u = FlockError
      | LockOpenFailed \<Rightarrow> \<not> open_ok env)"

lemma lock_loop_returns:
  assumes "lock_horizon env h" "0 < delay" "delay \<le> lockPollMaximum"
  shows "\<exists>r u. lock_loop env delay t = Some (r, u) \<and> lock_outcome env t r u"
  using assms
proof (induction "Suc h - t" arbitrary: delay t rule: less_induct)
  case less
  show ?case
  proof (cases "flock env t \<in> {FlockOk, FlockError}")
    case True
    then show ?thesis
      by (subst lock_loop.simps) (auto simp: lock_outcome_def lockPollMaximum_def split: flock_result.splits)
  next
    case False
    then have busy: "flock env t = FlockWouldBlock \<or> flock env t = FlockInterrupted" by (cases "flock env t") auto
    have before: "t < f" if "free_from env f" for f using busy that by (metis not_le flock_result.distinct(1,3))
    show ?thesis
    proof (cases "done_first env t delay")
      case True
      then obtain d where "context_end env = Some d" "d \<le> t + delay" by (auto simp: done_first_def split: option.splits)
      with True busy before less.prems(2,3) show ?thesis
        by (subst lock_loop.simps) (fastforce simp: lock_outcome_def ended_def)
    next
      case False
      then have later: "t + delay \<le> d" if "context_end env = Some d" for d
        using that by (auto simp: done_first_def)
      have next_step: "lock_loop env delay t = lock_loop env (min (delay * 2) lockPollMaximum) (t + delay)"
        using busy False by (subst lock_loop.simps) auto
      have "t < h" using less.prems(1,2) before later by (fastforce simp: lock_horizon_def)
      then have "Suc h - (t + delay) < Suc h - t" using less.prems(2) by linarith
      from less.hyps [OF this less.prems(1), of "min (delay * 2) lockPollMaximum"] less.prems(2)
      obtain r u where u: "lock_loop env (min (delay * 2) lockPollMaximum) (t + delay) = Some (r, u)"
          "lock_outcome env (t + delay) r u"
        by (auto simp: lockPollMaximum_def)
      have "lock_outcome env t r u"
        using u(2) before later less.prems(2,3) unfolding lock_outcome_def by (fastforce split: if_splits)
      with u(1) next_step show ?thesis by auto
    qed
  qed
qed

text \<open>
  C4. Waiting for the lock of a collection ends.  If the request context ends at some time, or the
  lock is free from some time on, \<open>lockCollectionFile\<close> returns: no later than the end of the context,
  and less than \<open>lockPollMaximum\<close> after the lock became free for good. It returns the lock only when
  an attempt succeeded while the context was alive, and reports an ended context only when it has ended.
\<close>

theorem lockCollectionFile_terminates:
  assumes "lock_horizon env h"
  shows "\<exists>r u. lockCollectionFile env t = Some (r, u) \<and> lock_outcome env t r u"
proof (cases "ended env t \<or> \<not> open_ok env")
  case True
  then show ?thesis by (auto simp: lockCollectionFile_def lock_outcome_def lockPollMaximum_def)
next
  case False
  then show ?thesis
    using lock_loop_returns [OF assms, of lockPollMinimum t]
    by (simp add: lockCollectionFile_def lockPollMinimum_def lockPollMaximum_def)
qed

definition busy_env :: lock_env where
  "busy_env = \<lparr>flock = (\<lambda>t. if t < 7 then FlockWouldBlock else FlockOk), context_end = None, timer_first = (\<lambda>_. True), open_ok = True\<rparr>"

text \<open>The attempts at 0, 1 and 3 milliseconds fail; the one at 7 succeeds.\<close>

theorem lockCollectionFile_terminates_witness:
  "lock_horizon busy_env 7 \<and> (\<exists>u. lockCollectionFile busy_env 0 = Some (LockAcquired, u) \<and> 7 \<le> u \<and> u < 27)"
proof -
  have h: "lock_horizon busy_env 7" by (simp add: lock_horizon_def busy_env_def)
  then obtain r u where r: "lockCollectionFile busy_env 0 = Some (r, u)" "lock_outcome busy_env 0 r u"
    using lockCollectionFile_terminates by blast
  have free: "free_from busy_env 7" by (simp add: busy_env_def)
  with r(2) have "u < 27" by (force simp: lock_outcome_def lockPollMaximum_def)
  moreover have "r = LockAcquired \<and> 7 \<le> u"
    using r(2) by (cases r) (auto simp: lock_outcome_def busy_env_def ended_def split: if_splits)
  ultimately show ?thesis using h r(1) by blast
qed

end
