(* ===== verification/Codestore_Handles.thy ===== *)
theory Codestore_Handles
  imports Go_Prelude
begin

text \<open>
  The collection handles of a store under concurrent requests (\<open>internal/conversation/codestore/store.go\<close>:
  \<open>cachedCollection\<close>, \<open>openedCollection\<close>, \<open>Close\<close>; \<open>coherence.go\<close>: the end of \<open>lockForRead\<close> and
  \<open>lockForWrite\<close>). Each step is one critical section of the store mutex or of a handle's mutex, or the
  opening of files outside both. Handles are numbered in the order in which they are opened.
\<close>

section \<open>States\<close>

datatype request_pc =
    ReqIdle
  | ReqLookup bytes
  | ReqOpening bytes
  | ReqOpened bytes nat
  | ReqGot bytes nat
  | ReqReading bytes nat
  | ReqWriting bytes nat
  | ReqFailed
  | ReqDone

record store_system =
  store_closed :: bool
  closing :: bool
  cache :: "bytes \<rightharpoonup> nat"
  open_files :: "nat set"
  handle_closed :: "nat set"
  next_handle :: nat
  request :: "nat \<Rightarrow> request_pc"

text \<open>\<open>Close\<close> holds the store mutex from its first step to its last (\<open>closing\<close>).\<close>

definition initial_store :: store_system where
  "initial_store =
     \<lparr>store_closed = False, closing = False, cache = Map.empty, open_files = {}, handle_closed = {}, next_handle = 0,
      request = (\<lambda>_. ReqIdle)\<rparr>"

definition goto_req :: "nat \<Rightarrow> request_pc \<Rightarrow> store_system \<Rightarrow> store_system" where
  "goto_req r pc \<sigma> = \<sigma>\<lparr>request := (request \<sigma>)(r := pc)\<rparr>"

definition in_use :: "store_system \<Rightarrow> nat \<Rightarrow> bool" where
  "in_use \<sigma> h \<longleftrightarrow> (\<exists>r n. request \<sigma> r = ReqReading n h \<or> request \<sigma> r = ReqWriting n h)"

definition being_written :: "store_system \<Rightarrow> nat \<Rightarrow> bool" where
  "being_written \<sigma> h \<longleftrightarrow> (\<exists>r n. request \<sigma> r = ReqWriting n h)"

section \<open>Steps\<close>

text \<open>Under the store mutex; \<open>valid\<close> is the check of the collection name.\<close>

definition cachedCollection :: "(bytes \<Rightarrow> bool) \<Rightarrow> nat \<Rightarrow> bytes \<Rightarrow> store_system \<Rightarrow> store_system" where
  "cachedCollection valid r n \<sigma> =
     goto_req r (if store_closed \<sigma> then ReqFailed
                 else case cache \<sigma> n of
                   Some h \<Rightarrow> ReqGot n h
                 | None \<Rightarrow> if valid n then ReqOpening n else ReqFailed) \<sigma>"

text \<open>The end of \<open>openedCollection\<close>, under the store mutex.\<close>

definition publishCollection :: "nat \<Rightarrow> bytes \<Rightarrow> nat \<Rightarrow> store_system \<Rightarrow> store_system" where
  "publishCollection r n h \<sigma> =
     (if store_closed \<sigma> then goto_req r ReqFailed (\<sigma>\<lparr>open_files := open_files \<sigma> - {h}\<rparr>)
      else case cache \<sigma> n of
        Some existing \<Rightarrow> goto_req r (ReqGot n existing) (\<sigma>\<lparr>open_files := open_files \<sigma> - {h}\<rparr>)
      | None \<Rightarrow> goto_req r (ReqGot n h) (\<sigma>\<lparr>cache := (cache \<sigma>)(n \<mapsto> h)\<rparr>))"

inductive store_step :: "(bytes \<Rightarrow> bool) \<Rightarrow> store_system \<Rightarrow> store_system \<Rightarrow> bool" for valid where
  start: "request \<sigma> r = ReqIdle \<Longrightarrow> store_step valid \<sigma> (goto_req r (ReqLookup n) \<sigma>)"
| lookup: "request \<sigma> r = ReqLookup n \<Longrightarrow> \<not> closing \<sigma> \<Longrightarrow> store_step valid \<sigma> (cachedCollection valid r n \<sigma>)"
| open_ok: "request \<sigma> r = ReqOpening n \<Longrightarrow>
    store_step valid \<sigma> (goto_req r (ReqOpened n (next_handle \<sigma>))
      (\<sigma>\<lparr>open_files := insert (next_handle \<sigma>) (open_files \<sigma>), next_handle := Suc (next_handle \<sigma>)\<rparr>))"
| open_fails: "request \<sigma> r = ReqOpening n \<Longrightarrow> store_step valid \<sigma> (goto_req r ReqFailed \<sigma>)"
| publish: "request \<sigma> r = ReqOpened n h \<Longrightarrow> \<not> closing \<sigma> \<Longrightarrow> store_step valid \<sigma> (publishCollection r n h \<sigma>)"
| read_lock: "request \<sigma> r = ReqGot n h \<Longrightarrow> \<not> being_written \<sigma> h \<Longrightarrow>
    store_step valid \<sigma> (goto_req r (if h \<in> handle_closed \<sigma> then ReqFailed else ReqReading n h) \<sigma>)"
| write_lock: "request \<sigma> r = ReqGot n h \<Longrightarrow> \<not> in_use \<sigma> h \<Longrightarrow>
    store_step valid \<sigma> (goto_req r (if h \<in> handle_closed \<sigma> then ReqFailed else ReqWriting n h) \<sigma>)"
| lock_fails: "request \<sigma> r = ReqGot n h \<Longrightarrow> store_step valid \<sigma> (goto_req r ReqFailed \<sigma>)"
| unlock: "request \<sigma> r = ReqReading n h \<or> request \<sigma> r = ReqWriting n h \<Longrightarrow> store_step valid \<sigma> (goto_req r ReqDone \<sigma>)"
| close_begin: "\<not> closing \<sigma> \<Longrightarrow> store_step valid \<sigma> (\<sigma>\<lparr>store_closed := True, closing := True\<rparr>)"
| close_handle: "closing \<sigma> \<Longrightarrow> cache \<sigma> n = Some h \<Longrightarrow> \<not> in_use \<sigma> h \<Longrightarrow>
    store_step valid \<sigma> (\<sigma>\<lparr>handle_closed := insert h (handle_closed \<sigma>), open_files := open_files \<sigma> - {h}, cache := (cache \<sigma>)(n := None)\<rparr>)"
| close_end: "closing \<sigma> \<Longrightarrow> cache \<sigma> = Map.empty \<Longrightarrow> store_step valid \<sigma> (\<sigma>\<lparr>closing := False\<rparr>)"

abbreviation store_runs :: "(bytes \<Rightarrow> bool) \<Rightarrow> store_system \<Rightarrow> bool" where
  "store_runs valid \<equiv> (store_step valid)\<^sup>*\<^sup>* initial_store"

section \<open>The invariant\<close>

definition cache_ok :: "store_system \<Rightarrow> bool" where
  "cache_ok \<sigma> \<longleftrightarrow>
     (\<forall>n h. cache \<sigma> n = Some h \<longrightarrow> h \<in> open_files \<sigma> \<and> h \<notin> handle_closed \<sigma> \<and> h < next_handle \<sigma>) \<and>
     (\<forall>n n' h. cache \<sigma> n = Some h \<longrightarrow> cache \<sigma> n' = Some h \<longrightarrow> n = n') \<and>
     (\<forall>h \<in> handle_closed \<sigma>. h < next_handle \<sigma>) \<and>
     (closing \<sigma> \<longrightarrow> store_closed \<sigma>) \<and> (store_closed \<sigma> \<and> \<not> closing \<sigma> \<longrightarrow> cache \<sigma> = Map.empty)"

definition openers_ok :: "store_system \<Rightarrow> bool" where
  "openers_ok \<sigma> \<longleftrightarrow>
     (\<forall>r n h. request \<sigma> r = ReqOpened n h \<longrightarrow>
        h \<in> open_files \<sigma> \<and> h \<notin> handle_closed \<sigma> \<and> h < next_handle \<sigma> \<and> (\<forall>n'. cache \<sigma> n' \<noteq> Some h)) \<and>
     (\<forall>r r' n n' h. request \<sigma> r = ReqOpened n h \<longrightarrow> request \<sigma> r' = ReqOpened n' h \<longrightarrow> r' = r) \<and>
     (\<forall>h \<in> open_files \<sigma>. (\<exists>n. cache \<sigma> n = Some h) \<or> (\<exists>r n. request \<sigma> r = ReqOpened n h))"

definition users_ok :: "store_system \<Rightarrow> bool" where
  "users_ok \<sigma> \<longleftrightarrow>
     (\<forall>r n h. request \<sigma> r = ReqGot n h \<longrightarrow> cache \<sigma> n = Some h \<or> h \<in> handle_closed \<sigma>) \<and>
     (\<forall>r n h. request \<sigma> r = ReqReading n h \<or> request \<sigma> r = ReqWriting n h \<longrightarrow> cache \<sigma> n = Some h) \<and>
     (\<forall>r n h r' n'. request \<sigma> r = ReqWriting n h \<longrightarrow>
        request \<sigma> r' = ReqReading n' h \<or> request \<sigma> r' = ReqWriting n' h \<longrightarrow> r' = r)"

definition handles_inv :: "store_system \<Rightarrow> bool" where
  "handles_inv \<sigma> \<longleftrightarrow> cache_ok \<sigma> \<and> openers_ok \<sigma> \<and> users_ok \<sigma>"

lemmas store_steps = cachedCollection_def publishCollection_def goto_req_def

lemma cache_ok_step: "store_step valid \<sigma> \<sigma>' \<Longrightarrow> handles_inv \<sigma> \<Longrightarrow> cache_ok \<sigma>'"
proof (induction rule: store_step.induct)
  case (publish \<sigma> r n h)
  then show ?case
    by (auto simp: handles_inv_def cache_ok_def openers_ok_def store_steps split: option.splits)
next
  case (open_ok \<sigma> r n)
  then show ?case by (fastforce simp: handles_inv_def cache_ok_def store_steps)
next
  case (close_handle \<sigma> n h)
  then show ?case by (fastforce simp: handles_inv_def cache_ok_def)
qed (auto simp: handles_inv_def cache_ok_def store_steps)

lemma goto_req_fields [simp]:
  "store_closed (goto_req r pc \<sigma>) = store_closed \<sigma>" "closing (goto_req r pc \<sigma>) = closing \<sigma>" "cache (goto_req r pc \<sigma>) = cache \<sigma>"
  "open_files (goto_req r pc \<sigma>) = open_files \<sigma>" "handle_closed (goto_req r pc \<sigma>) = handle_closed \<sigma>"
  "next_handle (goto_req r pc \<sigma>) = next_handle \<sigma>" "request (goto_req r pc \<sigma>) = (request \<sigma>)(r := pc)"
  by (simp_all add: goto_req_def)

lemma openers_goto:
  assumes "openers_ok \<sigma>" "\<And>n h. request \<sigma> r \<noteq> ReqOpened n h" "\<And>n h. pc \<noteq> ReqOpened n h"
  shows "openers_ok (goto_req r pc \<sigma>)"
proof -
  have "request (goto_req r pc \<sigma>) r' = ReqOpened n h \<longleftrightarrow> request \<sigma> r' = ReqOpened n h" for r' n h
    using assms(2,3) by (cases "r' = r") auto
  then show ?thesis using assms(1) unfolding openers_ok_def by (simp only: goto_req_fields)
qed

text \<open>An opener that ends either closes its handle or puts it into the cache.\<close>

lemma openers_end:
  assumes ok: "openers_ok \<sigma>" and r: "request \<sigma> r = ReqOpened n h" and pc: "\<And>n h. pc \<noteq> ReqOpened n h"
  shows "openers_ok (goto_req r pc (\<sigma>\<lparr>open_files := open_files \<sigma> - {h}\<rparr>))"
    and "cache \<sigma> n = None \<Longrightarrow> openers_ok (goto_req r pc (\<sigma>\<lparr>cache := (cache \<sigma>)(n \<mapsto> h)\<rparr>))"
proof -
  have others: "request (goto_req r pc \<tau>) r' = ReqOpened n' h' \<longleftrightarrow> request \<sigma> r' = ReqOpened n' h' \<and> h' \<noteq> h"
    if "request \<tau> = request \<sigma>" for \<tau> r' n' h'
    using ok r pc that unfolding openers_ok_def by (cases "r' = r") auto
  have same: "request (\<sigma>\<lparr>open_files := files\<rparr>) = request \<sigma>" "request (\<sigma>\<lparr>cache := c\<rparr>) = request \<sigma>" for files c by simp_all
  show "openers_ok (goto_req r pc (\<sigma>\<lparr>open_files := open_files \<sigma> - {h}\<rparr>))"
    using ok unfolding openers_ok_def others [OF same(1)] by simp blast
  assume new: "cache \<sigma> n = None"
  define \<tau> where "\<tau> = \<sigma>\<lparr>cache := (cache \<sigma>)(n \<mapsto> h)\<rparr>"
  have cached: "(\<exists>n'. cache \<tau> n' = Some h') \<longleftrightarrow> h' = h \<or> (\<exists>n'. cache \<sigma> n' = Some h')" for h'
    unfolding \<tau>_def using new by (simp add: map_upd_Some_unfold) (metis option.distinct(1))
  then have uncached: "(\<forall>n'. cache \<tau> n' \<noteq> Some h') \<longleftrightarrow> h' \<noteq> h \<and> (\<forall>n'. cache \<sigma> n' \<noteq> Some h')" for h' by blast
  have fields: "open_files \<tau> = open_files \<sigma>" "handle_closed \<tau> = handle_closed \<sigma>" "next_handle \<tau> = next_handle \<sigma>" "request \<tau> = request \<sigma>"
    by (simp_all add: \<tau>_def)
  have "openers_ok (goto_req r pc \<tau>)"
    unfolding openers_ok_def others [OF fields(4)] goto_req_fields(1-6) cached uncached fields(1-3)
    using ok unfolding openers_ok_def by blast
  then show "openers_ok (goto_req r pc (\<sigma>\<lparr>cache := (cache \<sigma>)(n \<mapsto> h)\<rparr>))" by (simp add: \<tau>_def)
qed

lemma uncache:
  assumes "cache_ok \<sigma>" "cache \<sigma> n = Some h"
  shows "((cache \<sigma>)(n := None)) n' = Some h' \<longleftrightarrow> cache \<sigma> n' = Some h' \<and> h' \<noteq> h"
proof (cases "n' = n")
  case False
  then have "cache \<sigma> n' \<noteq> Some h" using assms unfolding cache_ok_def by blast
  with False show ?thesis by auto
qed (simp add: assms(2))

lemma openers_ok_step: "store_step valid \<sigma> \<sigma>' \<Longrightarrow> handles_inv \<sigma> \<Longrightarrow> openers_ok \<sigma>'"
proof (induction rule: store_step.induct)
  case (publish \<sigma> r n h)
  then have ok: "openers_ok \<sigma>" by (simp add: handles_inv_def)
  show ?case unfolding publishCollection_def using openers_end [OF ok publish.hyps(1)] by (simp split: option.split)
next
  case (open_ok \<sigma> r n)
  then have ok: "openers_ok \<sigma>" and cache: "cache_ok \<sigma>" by (simp_all add: handles_inv_def)
  let ?h = "next_handle \<sigma>"
  have fresh: "?h \<notin> handle_closed \<sigma>" "cache \<sigma> n' \<noteq> Some ?h" "request \<sigma> r' \<noteq> ReqOpened n' ?h" for n' r'
    using ok cache unfolding openers_ok_def cache_ok_def by blast+
  have old: "h < ?h" if "request \<sigma> r' = ReqOpened n' h" for r' n' h using ok that unfolding openers_ok_def by blast
  have held: "r' \<noteq> r" if "request \<sigma> r' = ReqOpened n' h" for r' n' h using that open_ok.hyps by auto
  show ?case using ok fresh open_ok.hyps unfolding openers_ok_def
    by (auto simp: less_SucI dest: old split: if_splits) (metis held)
next
  case (close_handle \<sigma> n h)
  then have ok: "openers_ok \<sigma>" and cache: "cache_ok \<sigma>" by (simp_all add: handles_inv_def)
  note cached = uncache [OF cache close_handle.hyps(2)]
  have "request \<sigma> r \<noteq> ReqOpened n' h" for r n' using ok close_handle.hyps(2) unfolding openers_ok_def by blast
  then show ?case using ok unfolding openers_ok_def by (simp del: fun_upd_apply add: cached) blast
next
  case (lookup \<sigma> r n)
  then show ?case unfolding cachedCollection_def by (intro openers_goto) (auto simp: handles_inv_def split: option.splits)
next
  case (close_begin \<sigma>)
  then show ?case by (simp add: handles_inv_def openers_ok_def)
next
  case (close_end \<sigma>)
  then show ?case by (simp add: handles_inv_def openers_ok_def)
next
  case (unlock \<sigma> r n h)
  then show ?case by (intro openers_goto) (auto simp: handles_inv_def)
qed (intro openers_goto; simp add: handles_inv_def)+

lemma users_ok_step: "store_step valid \<sigma> \<sigma>' \<Longrightarrow> handles_inv \<sigma> \<Longrightarrow> users_ok \<sigma>'"
proof (induction rule: store_step.induct)
  case (publish \<sigma> r n h)
  then show ?case unfolding handles_inv_def users_ok_def store_steps
    by (auto split: option.splits) (metis option.distinct(1))+
next
  case (close_handle \<sigma> n h)
  then have cached: "((cache \<sigma>)(n := None)) n' = Some h' \<longleftrightarrow> cache \<sigma> n' = Some h' \<and> h' \<noteq> h" for n' h'
    by (intro uncache) (simp_all add: handles_inv_def)
  show ?case using close_handle.hyps(3) close_handle.prems unfolding handles_inv_def users_ok_def in_use_def
    by (simp del: fun_upd_apply add: cached) blast
next
  case (read_lock \<sigma> r n h)
  then show ?case unfolding handles_inv_def users_ok_def being_written_def store_steps by (auto, blast)
next
  case (write_lock \<sigma> r n h)
  then show ?case unfolding handles_inv_def users_ok_def in_use_def store_steps by (auto, blast)
qed (auto simp: handles_inv_def users_ok_def cache_ok_def store_steps split: option.splits)

lemma handles_inv_step: "store_step valid \<sigma> \<sigma>' \<Longrightarrow> handles_inv \<sigma> \<Longrightarrow> handles_inv \<sigma>'"
  by (simp add: handles_inv_def [of \<sigma>'] cache_ok_step openers_ok_step users_ok_step)

lemma handles_inv_runs: "store_runs valid \<sigma> \<Longrightarrow> handles_inv \<sigma>"
proof (induction rule: rtranclp_induct)
  case base
  show ?case by (simp add: handles_inv_def cache_ok_def openers_ok_def users_ok_def initial_store_def)
qed (rule handles_inv_step)

section \<open>The property\<close>


text \<open>A request opens a collection while the store is closed: its files stay open until it ends.\<close>

definition demo_late :: store_system where
  "demo_late = (goto_req 0 (ReqOpened ''c'' 0) initial_store)
     \<lparr>store_closed := True, open_files := {0}, next_handle := 1\<rparr>"

lemma demo_late_runs: "store_runs (\<lambda>_. True) demo_late"
proof -
  let ?v = "\<lambda>_ :: bytes. True"
  define s1 where "s1 = goto_req 0 (ReqLookup ''c'') initial_store"
  define s2 where "s2 = goto_req 0 (ReqOpening ''c'') s1"
  define s3 where "s3 = s2\<lparr>store_closed := True, closing := True\<rparr>"
  define s4 where "s4 = goto_req 0 (ReqOpened ''c'' 0) (s3\<lparr>open_files := {0}, next_handle := 1\<rparr>)"
  have "store_step ?v initial_store s1" unfolding s1_def by (rule start) (simp add: initial_store_def)
  moreover have "store_step ?v s1 s2"
    using lookup [of s1 0 "''c''" ?v] by (simp add: s2_def s1_def cachedCollection_def initial_store_def)
  moreover have "store_step ?v s2 s3" unfolding s3_def by (rule close_begin) (simp add: s2_def s1_def initial_store_def)
  moreover have "store_step ?v s3 s4"
    using open_ok [of s3 0 "''c''" ?v] by (simp add: s4_def s3_def s2_def s1_def initial_store_def)
  moreover have "store_step ?v s4 demo_late"
    using close_end [of s4 ?v] by (simp add: s4_def s3_def s2_def s1_def initial_store_def demo_late_def goto_req_def)
  ultimately show ?thesis by (blast intro: converse_rtranclp_into_rtranclp)
qed


end
