(* ===== verification/Mitm_Sniff.thy ===== *)
theory Mitm_Sniff
  imports Go_Prelude
begin

text \<open>
  How the proxy starts a CONNECT tunnel that no provider claims
  (\<open>internal/mitm/connect_sniff.go\<close>): it reads one byte from the client, dials the upstream and, when
  the dial succeeds, reads one byte from the upstream, all three at once. What arrives first decides
  between terminating TLS and splicing the two connections. The theory also holds the connection
  wrapper that gives the bytes already read back to the splice (\<open>prefixConn\<close> in \<open>transparent.go\<close>).

  The network is the environment: the bytes a connection will deliver, whether the first of them
  arrives before the read deadline, whether setting and clearing the deadline fails, and whether the
  dial succeeds. A run of the \<open>select\<close> loop is the list of the cases it takes; a case whose channel is
  nil is never taken.
\<close>

section \<open>Connections\<close>

datatype connect_error = SetDeadlineFailed | ReadFailed | ClearDeadlineFailed | DialFailed

record connection =
  incoming :: bytes
  in_time :: bool
  set_fails :: bool
  clear_fails :: bool

record connectByteRead =
  read_value :: char
  read_ok :: bool
  read_err :: "connect_error option"

record connectDialRead =
  dial_conn :: "connection option"
  dial_err :: "connect_error option"

record unclaimedConnectStart =
  clientPrefix :: bytes
  upstreamPrefix :: bytes
  upstream :: "connection option"
  interceptTLS :: bool

definition transparentTLSHandshakeRecord :: char where
  "transparentTLSHandshakeRecord = CHR 0x16"

text \<open>The result of the read and the connection after it: a byte that arrived is consumed.\<close>

definition readConnectByte :: "connection \<Rightarrow> connectByteRead \<times> connection" where
  "readConnectByte c =
     (if set_fails c
      then (\<lparr>read_value = CHR 0x00, read_ok = False, read_err = Some SetDeadlineFailed\<rparr>, c)
      else
        let got = (if in_time c then take 1 (incoming c) else []);
            c' = c\<lparr>incoming := drop (length got) (incoming c)\<rparr>
        in if clear_fails c
           then (\<lparr>read_value = CHR 0x00, read_ok = False, read_err = Some ClearDeadlineFailed\<rparr>, c')
           else (case got of
                   [] \<Rightarrow> (\<lparr>read_value = CHR 0x00, read_ok = False, read_err = Some ReadFailed\<rparr>, c')
                 | b # _ \<Rightarrow> (\<lparr>read_value = b, read_ok = True, read_err = None\<rparr>, c')))"

definition connectBytePrefix :: "connectByteRead \<Rightarrow> bytes" where
  "connectBytePrefix r = (if \<not> read_ok r then [] else [read_value r])"

definition emptyUnclaimedConnectStart :: unclaimedConnectStart where
  "emptyUnclaimedConnectStart =
     \<lparr>clientPrefix = [], upstreamPrefix = [], upstream = None, interceptTLS = False\<rparr>"

text \<open>The dialer gives a connection or an error, never both.\<close>

record sniff_env =
  client_conn :: connection
  dialer :: "connection option"

definition startConnectDial :: "sniff_env \<Rightarrow> connectDialRead" where
  "startConnectDial env =
     (case dialer env of
        None \<Rightarrow> \<lparr>dial_conn = None, dial_err = Some DialFailed\<rparr>
      | Some c \<Rightarrow> \<lparr>dial_conn = Some c, dial_err = None\<rparr>)"

section \<open>Giving up connections and pending operations\<close>

text \<open>
  The two operations below return how often they close the dialed connection. The clean-up of a
  pending dial runs in a goroutine: it waits for the result of the dial and closes its connection.
\<close>

definition closeConnectUpstream :: "connection option \<Rightarrow> nat" where
  "closeConnectUpstream u = (if u \<noteq> None then 1 else 0)"

definition cleanupPendingConnectDial :: "connectDialRead option \<Rightarrow> nat" where
  "cleanupPendingConnectDial dialCh =
     (case dialCh of None \<Rightarrow> 0 | Some d \<Rightarrow> closeConnectUpstream (dial_conn d))"

definition waitForConnectDial :: "connectDialRead option \<Rightarrow> connectDialRead \<times> bool" where
  "waitForConnectDial dialCh =
     (case dialCh of None \<Rightarrow> (\<lparr>dial_conn = None, dial_err = None\<rparr>, False) | Some d \<Rightarrow> (d, True))"

definition stopPendingConnectRead :: "connectByteRead option \<Rightarrow> connectByteRead" where
  "stopPendingConnectRead readCh =
     (case readCh of
        None \<Rightarrow> \<lparr>read_value = CHR 0x00, read_ok = False, read_err = None\<rparr>
      | Some r \<Rightarrow> r)"

section \<open>The two ways to decide\<close>

text \<open>
  The loop's variables; \<open>None\<close> is the nil channel. Each decision returns the start, whether there is
  one, and how often the dialed connection is closed.
\<close>

record sniff_state =
  loop_upstream :: "connection option"
  upstreamCh :: "connectByteRead option"
  dialCh :: "connectDialRead option"
  dialErr :: "connect_error option"

type_synonym start_result = "unclaimedConnectStart \<times> bool \<times> nat"

definition unclaimedStartFromClientRead :: "connectByteRead \<Rightarrow> sniff_state \<Rightarrow> start_result" where
  "unclaimedStartFromClientRead clientRead st =
     (if \<not> read_ok clientRead then
        (emptyUnclaimedConnectStart, False,
         closeConnectUpstream (loop_upstream st) + cleanupPendingConnectDial (dialCh st))
      else if read_value clientRead = transparentTLSHandshakeRecord then
        (\<lparr>clientPrefix = [read_value clientRead], upstreamPrefix = [], upstream = None, interceptTLS = True\<rparr>,
         True, closeConnectUpstream (loop_upstream st) + cleanupPendingConnectDial (dialCh st))
      else
        let upstreamRead = stopPendingConnectRead (upstreamCh st);
            start = (\<lambda>u. \<lparr>clientPrefix = [read_value clientRead],
                          upstreamPrefix = connectBytePrefix upstreamRead,
                          upstream = u, interceptTLS = False\<rparr>)
        in case loop_upstream st of
             Some u \<Rightarrow> (start (Some u), True, 0)
           | None \<Rightarrow>
               (let (dialRead, ok) = waitForConnectDial (dialCh st)
                in if \<not> ok then (emptyUnclaimedConnectStart, False, 0)
                   else if dial_err dialRead \<noteq> None then (emptyUnclaimedConnectStart, False, 0)
                   else (start (dial_conn dialRead), True, 0)))"

definition unclaimedStartFromUpstreamRead ::
    "connectByteRead \<Rightarrow> connection option \<Rightarrow> connectByteRead \<Rightarrow> start_result" where
  "unclaimedStartFromUpstreamRead clientCh u upstreamRead =
     (let clientRead = stopPendingConnectRead (Some clientCh)
      in if read_ok clientRead \<and> read_value clientRead = transparentTLSHandshakeRecord then
           (\<lparr>clientPrefix = [read_value clientRead], upstreamPrefix = [], upstream = None, interceptTLS = True\<rparr>,
            True, closeConnectUpstream u)
         else if u = None then (emptyUnclaimedConnectStart, False, 0)
         else
           let cp = connectBytePrefix clientRead; up = connectBytePrefix upstreamRead
           in if cp = [] \<and> up = [] then (emptyUnclaimedConnectStart, False, closeConnectUpstream u)
              else (\<lparr>clientPrefix = cp, upstreamPrefix = up, upstream = u, interceptTLS = False\<rparr>, True, 0))"

section \<open>The select loop\<close>

datatype select_case = ClientReady | DialReady | UpstreamReady

text \<open>
  A connection that is being read is kept as it is after the read; the channel holds what the read
  will deliver.
\<close>

fun connect_loop :: "connectByteRead \<Rightarrow> sniff_state \<Rightarrow> select_case list \<Rightarrow> start_result option" where
  "connect_loop clientCh st [] = None"
| "connect_loop clientCh st (ClientReady # cases) = Some (unclaimedStartFromClientRead clientCh st)"
| "connect_loop clientCh st (DialReady # cases) =
     (case dialCh st of
        None \<Rightarrow> None
      | Some dialRead \<Rightarrow>
          let st = st\<lparr>dialCh := None\<rparr>
          in if dial_err dialRead \<noteq> None
             then connect_loop clientCh (st\<lparr>dialErr := dial_err dialRead\<rparr>) cases
             else (case dial_conn dialRead of
                     None \<Rightarrow> None
                   | Some c \<Rightarrow>
                       let (r, c') = readConnectByte c
                       in connect_loop clientCh (st\<lparr>loop_upstream := Some c', upstreamCh := Some r\<rparr>) cases))"
| "connect_loop clientCh st (UpstreamReady # cases) =
     map_option (unclaimedStartFromUpstreamRead clientCh (loop_upstream st)) (upstreamCh st)"

definition classifyUnclaimedConnectStart ::
    "sniff_env \<Rightarrow> select_case list \<Rightarrow> (start_result \<times> connection) option" where
  "classifyUnclaimedConnectStart env cases =
     (let (clientCh, client) = readConnectByte (client_conn env);
          st = \<lparr>loop_upstream = None, upstreamCh = None, dialCh = Some (startConnectDial env), dialErr = None\<rparr>
      in map_option (\<lambda>out. (out, client)) (connect_loop clientCh st cases))"

section \<open>The wrapper that replays the bytes\<close>

record prefixConn =
  prefix_conn :: connection
  prefix_bytes :: bytes

text \<open>
  A read into a buffer of \<open>k\<close> bytes; the wrapped connection delivers at most \<open>m\<close> bytes of what is to
  come.
\<close>

definition prefixConn_Read :: "nat \<Rightarrow> nat \<Rightarrow> prefixConn \<Rightarrow> bytes \<times> prefixConn" where
  "prefixConn_Read k m c =
     (if 0 < length (prefix_bytes c)
      then (take k (prefix_bytes c), c\<lparr>prefix_bytes := drop k (prefix_bytes c)\<rparr>)
      else let n = min k m
           in (take n (incoming (prefix_conn c)),
               c\<lparr>prefix_conn := prefix_conn c\<lparr>incoming := drop n (incoming (prefix_conn c))\<rparr>\<rparr>))"

fun prefixConn_reads :: "(nat \<times> nat) list \<Rightarrow> prefixConn \<Rightarrow> bytes \<times> prefixConn" where
  "prefixConn_reads [] c = ([], c)"
| "prefixConn_reads ((k, m) # ks) c =
     (let (b, c) = prefixConn_Read k m c; (bs, c) = prefixConn_reads ks c in (b @ bs, c))"

abbreviation unread :: "prefixConn \<Rightarrow> bytes" where
  "unread c \<equiv> prefix_bytes c @ incoming (prefix_conn c)"

lemma prefixConn_Read_split:
  "prefixConn_Read k m c = (b, c') \<Longrightarrow> b @ unread c' = unread c"
  by (auto simp: prefixConn_Read_def Let_def split: if_splits)

lemma prefixConn_reads_split:
  "prefixConn_reads ks c = (b, c') \<Longrightarrow> b @ unread c' = unread c"
proof (induction ks arbitrary: c b c')
  case (Cons km ks)
  obtain k m where km: "km = (k, m)" by fastforce
  obtain b1 c1 where 1: "prefixConn_Read k m c = (b1, c1)" by fastforce
  obtain b2 c2 where 2: "prefixConn_reads ks c1 = (b2, c2)" by fastforce
  have "b = b1 @ b2" "c' = c2" using Cons.prems by (simp_all add: km 1 2)
  then show ?case using prefixConn_Read_split [OF 1] Cons.IH [OF 2] by simp
qed simp

section \<open>What a start is worth\<close>

lemma readConnectByte_keeps_bytes:
  "readConnectByte c = (r, c') \<Longrightarrow> \<not> clear_fails c \<Longrightarrow> connectBytePrefix r @ incoming c' = incoming c"
  by (cases "incoming c") (auto simp: readConnectByte_def connectBytePrefix_def Let_def split: if_splits)

lemma readConnectByte_prefix:
  "readConnectByte c = (r, c') \<Longrightarrow> connectBytePrefix r = [b] \<Longrightarrow> \<exists>rest. incoming c = b # rest"
  by (cases "incoming c") (auto simp: readConnectByte_def connectBytePrefix_def Let_def split: if_splits)

text \<open>
  The loop takes at most two cases: the states it can decide in are the initial one, the one after a
  failed dial and the one after a successful dial.
\<close>

abbreviation dialing :: "sniff_env \<Rightarrow> sniff_state" where
  "dialing env \<equiv>
     \<lparr>loop_upstream = None, upstreamCh = None, dialCh = Some (startConnectDial env), dialErr = None\<rparr>"

abbreviation dial_failed :: sniff_state where
  "dial_failed \<equiv>
     \<lparr>loop_upstream = None, upstreamCh = None, dialCh = None, dialErr = Some DialFailed\<rparr>"

abbreviation dialed :: "connection \<Rightarrow> connectByteRead \<Rightarrow> sniff_state" where
  "dialed c r \<equiv> \<lparr>loop_upstream = Some c, upstreamCh = Some r, dialCh = None, dialErr = None\<rparr>"

lemma connect_loop_dial_failed:
  "connect_loop r dial_failed cases = Some out \<Longrightarrow> out = unclaimedStartFromClientRead r dial_failed"
  by (cases "(r, dial_failed, cases)" rule: connect_loop.cases) auto

lemma connect_loop_dialed:
  "connect_loop r (dialed c ru) cases = Some out \<Longrightarrow>
   out = unclaimedStartFromClientRead r (dialed c ru) \<or> out = unclaimedStartFromUpstreamRead r (Some c) ru"
  by (cases "(r, dialed c ru, cases)" rule: connect_loop.cases) auto

lemma connect_loop_outcomes:
  assumes "connect_loop r (dialing env) cases = Some out"
  obtains (First) "out = unclaimedStartFromClientRead r (dialing env)"
  | (Failed) "dialer env = None" "out = unclaimedStartFromClientRead r dial_failed"
  | (Dialed) c ru c' where "dialer env = Some c" "readConnectByte c = (ru, c')"
      "out = unclaimedStartFromClientRead r (dialed c' ru) \<or> out = unclaimedStartFromUpstreamRead r (Some c') ru"
proof (cases cases)
  case Nil
  then show ?thesis using assms by simp
next
  case (Cons e es)
  show ?thesis
  proof (cases e)
    case ClientReady
    then show ?thesis using assms Cons First by simp
  next
    case UpstreamReady
    then show ?thesis using assms Cons by simp
  next
    case DialReady
    show ?thesis
    proof (cases "dialer env")
      case None
      then have "connect_loop r dial_failed es = Some out"
        using assms by (simp add: Cons DialReady startConnectDial_def)
      then show ?thesis using None Failed connect_loop_dial_failed by blast
    next
      case (Some c)
      obtain ru c' where rd: "readConnectByte c = (ru, c')" by fastforce
      then have "connect_loop r (dialed c' ru) es = Some out"
        using assms by (simp add: Cons DialReady startConnectDial_def Some)
      then show ?thesis using Some rd Dialed connect_loop_dialed by blast
    qed
  qed
qed

text \<open>The promise of a start, given what the client read delivered.\<close>

definition start_kept :: "sniff_env \<Rightarrow> connectByteRead \<Rightarrow> start_result \<Rightarrow> bool" where
  "start_kept env r out =
     (case out of (start, started, closes) \<Rightarrow>
        closes + (if upstream start = None then 0 else 1) = (if dialer env = None then 0 else 1) \<and>
        (interceptTLS start \<longleftrightarrow> connectBytePrefix r = [transparentTLSHandshakeRecord]) \<and>
        (if \<not> started then start = emptyUnclaimedConnectStart
         else clientPrefix start = connectBytePrefix r \<and> interceptTLS start = (upstream start = None) \<and>
              (case dialer env of None \<Rightarrow> interceptTLS start | Some c \<Rightarrow>
                 upstream start = Some c \<and> upstreamPrefix start = [] \<or>
                 upstream start = Some (snd (readConnectByte c)) \<and>
                 upstreamPrefix start = connectBytePrefix (fst (readConnectByte c)) \<or>
                 interceptTLS start)))"

lemmas sniff_defs =
  closeConnectUpstream_def cleanupPendingConnectDial_def waitForConnectDial_def stopPendingConnectRead_def
  connectBytePrefix_def startConnectDial_def emptyUnclaimedConnectStart_def

lemma start_kept_client_dialing: "start_kept env r (unclaimedStartFromClientRead r (dialing env))"
  by (simp add: start_kept_def unclaimedStartFromClientRead_def sniff_defs Let_def split: option.split)

lemma start_kept_client_failed:
  "dialer env = None \<Longrightarrow> start_kept env r (unclaimedStartFromClientRead r dial_failed)"
  by (simp add: start_kept_def unclaimedStartFromClientRead_def sniff_defs Let_def)

lemma start_kept_client_dialed:
  "dialer env = Some c \<Longrightarrow> readConnectByte c = (ru, c') \<Longrightarrow>
   start_kept env r (unclaimedStartFromClientRead r (dialed c' ru))"
  by (simp add: start_kept_def unclaimedStartFromClientRead_def sniff_defs Let_def)

lemma start_kept_upstream:
  "dialer env = Some c \<Longrightarrow> readConnectByte c = (ru, c') \<Longrightarrow>
   start_kept env r (unclaimedStartFromUpstreamRead r (Some c') ru)"
  by (simp add: start_kept_def unclaimedStartFromUpstreamRead_def sniff_defs Let_def)

lemma connect_loop_start_kept:
  assumes "connect_loop r (dialing env) cases = Some out"
  shows "start_kept env r out"
  using assms
  by (cases rule: connect_loop_outcomes)
    (auto intro: start_kept_client_dialing start_kept_client_failed start_kept_client_dialed start_kept_upstream)

lemma classify_start_kept:
  "classifyUnclaimedConnectStart env cases = Some (out, client) \<Longrightarrow>
   \<exists>r. readConnectByte (client_conn env) = (r, client) \<and> start_kept env r out"
  by (auto simp: classifyUnclaimedConnectStart_def Let_def split: prod.splits intro: connect_loop_start_kept)

text \<open>
  The loop always returns: the client's byte, or the failure to get it, decides at once, and after
  the dial both remaining cases decide.
\<close>

lemma classifyUnclaimedConnectStart_returns:
  "classifyUnclaimedConnectStart env (ClientReady # cases) \<noteq> None"
  "classifyUnclaimedConnectStart env (DialReady # ClientReady # cases) \<noteq> None"
  "dialer env = Some c \<Longrightarrow> classifyUnclaimedConnectStart env (DialReady # UpstreamReady # cases) \<noteq> None"
  by (simp_all add: classifyUnclaimedConnectStart_def startConnectDial_def Let_def case_prod_beta
      del: not_None_eq split: option.split)

text \<open>
  A byte read from the upstream is lost, and its connection used all the same, when clearing the
  read deadline fails after the byte arrived and the client has spoken.
\<close>

lemma upstream_byte_lost_when_clearing_fails:
  "classifyUnclaimedConnectStart
     \<lparr>client_conn = \<lparr>incoming = ''GET'', in_time = True, set_fails = False, clear_fails = False\<rparr>,
      dialer = Some \<lparr>incoming = ''220'', in_time = True, set_fails = False, clear_fails = True\<rparr>\<rparr>
     [DialReady, ClientReady] =
   Some ((\<lparr>clientPrefix = ''G'', upstreamPrefix = [],
           upstream = Some \<lparr>incoming = ''20'', in_time = True, set_fails = False, clear_fails = True\<rparr>,
           interceptTLS = False\<rparr>, True, 0),
         \<lparr>incoming = ''ET'', in_time = True, set_fails = False, clear_fails = False\<rparr>)"
  by (simp add: classifyUnclaimedConnectStart_def readConnectByte_def unclaimedStartFromClientRead_def
      sniff_defs transparentTLSHandshakeRecord_def Let_def)



end
