(* ===== verification/Mitm_Ws.thy ===== *)
theory Mitm_Ws
  imports Go_Prelude
begin

text \<open>
  The websocket bridge of the proxy (\<open>internal/mitm/ws_capture.go\<close>): two relay goroutines copy frames
  between the client and the upstream, count them, add them to the capture recorder, and tear the
  bridge down together. The recorder, the once-only teardown and the relay loop are modelled; the
  websocket library is the environment, which decides what each read and write returns.
\<close>

section \<open>The capture recorder\<close>

record wsCaptureStoreRecorder =
  request :: bytes
  response :: bytes
  capBytes :: nat

text \<open>A nil recorder is \<open>None\<close>; its methods do nothing.\<close>

definition newWSCaptureStoreRecorder :: "int \<Rightarrow> wsCaptureStoreRecorder option" where
  "newWSCaptureStoreRecorder cap =
     (if cap \<le> 0 then None else Some \<lparr>request = [], response = [], capBytes = nat cap\<rparr>)"

definition appendCappedWSFrame :: "bytes \<Rightarrow> bytes \<Rightarrow> nat \<Rightarrow> bytes" where
  "appendCappedWSFrame dst payload cap =
     (if cap \<le> length dst then dst
      else if 0 < length dst \<and> cap < length dst + 1 then dst
      else
        let dst = (if 0 < length dst then dst @ [CHR 0x0A] else dst);
            remaining = cap - length dst;
            payload = (if remaining < length payload then take remaining payload else payload)
        in dst @ payload)"

definition add :: "bytes \<Rightarrow> bool \<Rightarrow> wsCaptureStoreRecorder option \<Rightarrow> wsCaptureStoreRecorder option" where
  "add payload fromClient rec =
     (case rec of
        None \<Rightarrow> None
      | Some r \<Rightarrow> Some (
          if fromClient then r\<lparr>request := appendCappedWSFrame (request r) payload (capBytes r)\<rparr>
          else r\<lparr>response := appendCappedWSFrame (response r) payload (capBytes r)\<rparr>))"

definition bodies :: "wsCaptureStoreRecorder option \<Rightarrow> bytes \<times> bytes" where
  "bodies rec = (case rec of None \<Rightarrow> ([], []) | Some r \<Rightarrow> (request r, response r))"

text \<open>
  What a body holds: the frames joined by newlines, without the empty frames before the first
  nonempty one, cut at the cap.
\<close>

definition capped_body :: "nat \<Rightarrow> bytes list \<Rightarrow> bytes" where
  "capped_body cap frames = take cap (join (dropWhile (\<lambda>f. f = []) frames) [CHR 0x0A])"

lemma join_snoc_if: "join (xs @ [x]) sep = (if xs = [] then x else join xs sep @ sep @ x)"
  by (induction xs sep rule: join.induct) auto

lemma join_Nil_iff: "join xs [c] = [] \<longleftrightarrow> xs = [] \<or> xs = [[]]"
  by (cases "(xs, [c])" rule: join.cases) auto

lemma dropWhile_empty_join_Nil: "join (dropWhile (\<lambda>f. f = []) xs) [c] = [] \<longleftrightarrow> dropWhile (\<lambda>f. f = []) xs = []"
  using hd_dropWhile [of "\<lambda>f. f = []" xs] by (cases "dropWhile (\<lambda>f. f = []) xs") (simp_all add: join_Nil_iff)

lemma dropWhile_snoc:
  "dropWhile P (xs @ [x]) =
     (if dropWhile P xs = [] then (if P x then [] else [x]) else dropWhile P xs @ [x])"
  by (induction xs) auto

lemma capped_body_0 [simp]: "capped_body 0 frames = []"
  by (simp add: capped_body_def)

lemma appendCappedWSFrame_take:
  "0 < cap \<Longrightarrow> appendCappedWSFrame (take cap s) payload cap =
     take cap (if s = [] then payload else s @ CHR 0x0A # payload)"
  by (auto simp: appendCappedWSFrame_def Let_def min_def take_Cons' take_append not_less)

lemma appendCappedWSFrame_capped_body:
  "0 < cap \<Longrightarrow> appendCappedWSFrame (capped_body cap frames) payload cap = capped_body cap (frames @ [payload])"
  by (auto simp: capped_body_def appendCappedWSFrame_take dropWhile_empty_join_Nil dropWhile_snoc join_snoc_if)

section \<open>The relay\<close>

text \<open>
  Where a relay goroutine is: before a read, holding a frame it has read and counted, holding a frame
  it has written, or finished. The lists of frames read, written and recorded are kept beside it.
\<close>

datatype relay_pc = Reading | Writing bytes | Recording bytes | Exited

record relay =
  pc :: relay_pc
  frames_read :: "bytes list"
  frames_written :: "bytes list"
  frames_recorded :: "bytes list"

record wsRelayState =
  relays :: "bool \<Rightarrow> relay"
  messageCount :: nat
  closeErr :: "bytes option"
  client_closes :: nat
  upstream_closes :: nat
  closeChan_closed :: bool
  recorder :: "wsCaptureStoreRecorder option"

text \<open>\<open>closeOnce\<close> has run when the channel is closed; the relays are indexed by \<open>fromClient\<close>.\<close>

definition wsCloseBoth :: "bytes \<Rightarrow> wsRelayState \<Rightarrow> wsRelayState" where
  "wsCloseBoth reason st =
     (if closeChan_closed st then st
      else st\<lparr>closeErr := Some reason, client_closes := client_closes st + 1,
              upstream_closes := upstream_closes st + 1, closeChan_closed := True\<rparr>)"

definition set_relay :: "bool \<Rightarrow> relay \<Rightarrow> wsRelayState \<Rightarrow> wsRelayState" where
  "set_relay d r st = st\<lparr>relays := (relays st)(d := r)\<rparr>"

datatype relay_event =
    ReadFrame bool bytes
  | ReadError bool bytes
  | WriteFrame bool
  | WriteError bool bytes
  | RecordFrame bool bool
  | RelayPanic bool bytes

text \<open>
  One step of one relay goroutine: \<open>wsMakeRelay\<close> between two operations on shared state. The flag of
  \<open>RecordFrame\<close> is the answer of \<open>RecordingEnabled\<close> at that moment. A panic is possible anywhere and
  ends in \<open>wsHandleRelayPanic\<close>.
\<close>

fun relay_step :: "relay_event \<Rightarrow> wsRelayState \<Rightarrow> wsRelayState option" where
  "relay_step (ReadFrame d payload) st =
     (if pc (relays st d) = Reading
      then Some (set_relay d (relays st d\<lparr>pc := Writing payload,
                    frames_read := frames_read (relays st d) @ [payload]\<rparr>)
                  (st\<lparr>messageCount := messageCount st + 1\<rparr>))
      else None)"
| "relay_step (ReadError d e) st =
     (if pc (relays st d) = Reading
      then Some (set_relay d (relays st d\<lparr>pc := Exited\<rparr>) (wsCloseBoth e st))
      else None)"
| "relay_step (WriteFrame d) st =
     (case pc (relays st d) of
        Writing payload \<Rightarrow>
          Some (set_relay d (relays st d\<lparr>pc := Recording payload,
                  frames_written := frames_written (relays st d) @ [payload]\<rparr>) st)
      | _ \<Rightarrow> None)"
| "relay_step (WriteError d e) st =
     (case pc (relays st d) of
        Writing payload \<Rightarrow> Some (set_relay d (relays st d\<lparr>pc := Exited\<rparr>) (wsCloseBoth e st))
      | _ \<Rightarrow> None)"
| "relay_step (RecordFrame d enabled) st =
     (case pc (relays st d) of
        Recording payload \<Rightarrow>
          Some (if enabled
                then set_relay d (relays st d\<lparr>pc := Reading,
                       frames_recorded := frames_recorded (relays st d) @ [payload]\<rparr>)
                       (st\<lparr>recorder := add payload d (recorder st)\<rparr>)
                else set_relay d (relays st d\<lparr>pc := Reading\<rparr>) st)
      | _ \<Rightarrow> None)"
| "relay_step (RelayPanic d msg) st =
     (if pc (relays st d) = Exited then None
      else Some (set_relay d (relays st d\<lparr>pc := Exited\<rparr>) (wsCloseBoth (''relay panic: '' @ msg) st)))"

definition relay_start :: "int \<Rightarrow> wsRelayState" where
  "relay_start cap =
     \<lparr>relays = (\<lambda>_. \<lparr>pc = Reading, frames_read = [], frames_written = [], frames_recorded = []\<rparr>),
      messageCount = 0, closeErr = None, client_closes = 0, upstream_closes = 0,
      closeChan_closed = False, recorder = newWSCaptureStoreRecorder cap\<rparr>"

fun relay_run :: "relay_event list \<Rightarrow> wsRelayState \<Rightarrow> wsRelayState option" where
  "relay_run [] st = Some st"
| "relay_run (e # es) st = (case relay_step e st of None \<Rightarrow> None | Some st \<Rightarrow> relay_run es st)"

section \<open>The invariant\<close>

text \<open>The error of an event that tears the bridge down.\<close>

fun event_reason :: "relay_event \<Rightarrow> bytes option" where
  "event_reason (ReadError d e) = Some e"
| "event_reason (WriteError d e) = Some e"
| "event_reason (RelayPanic d msg) = Some (''relay panic: '' @ msg)"
| "event_reason _ = None"

definition relay_ok :: "relay \<Rightarrow> bool" where
  "relay_ok r \<longleftrightarrow>
     (case pc r of
        Reading \<Rightarrow> frames_written r = frames_read r
      | Writing p \<Rightarrow> frames_read r = frames_written r @ [p]
      | Recording p \<Rightarrow> frames_written r = frames_read r
      | Exited \<Rightarrow> prefix (frames_written r) (frames_read r) \<and>
          length (frames_read r) \<le> length (frames_written r) + 1)"

definition recorder_ok :: "int \<Rightarrow> wsRelayState \<Rightarrow> bool" where
  "recorder_ok cap st \<longleftrightarrow>
     bodies (recorder st) =
       (capped_body (nat cap) (frames_recorded (relays st True)),
        capped_body (nat cap) (frames_recorded (relays st False))) \<and>
     (case recorder st of None \<Rightarrow> cap \<le> 0 | Some r \<Rightarrow> 0 < cap \<and> capBytes r = nat cap)"

definition closed_ok :: "bytes option \<Rightarrow> wsRelayState \<Rightarrow> bool" where
  "closed_ok reason st \<longleftrightarrow>
     closeErr st = reason \<and> (closeChan_closed st \<longleftrightarrow> reason \<noteq> None) \<and>
     client_closes st = (if reason = None then 0 else 1) \<and>
     upstream_closes st = (if reason = None then 0 else 1) \<and>
     (reason = None \<longleftrightarrow> (\<forall>d. pc (relays st d) \<noteq> Exited))"

text \<open>The frames recorded are among the frames written.\<close>

definition recorded_ok :: "relay \<Rightarrow> bool" where
  "recorded_ok r \<longleftrightarrow>
     (case pc r of
        Recording p \<Rightarrow> \<exists>xs. frames_written r = xs @ [p] \<and> subseq (frames_recorded r) xs
      | _ \<Rightarrow> subseq (frames_recorded r) (frames_written r))"

lemma relay_set_same [simp]: "relays (set_relay d r st) d = r"
  by (simp add: set_relay_def)

lemma relay_set_other: "d' \<noteq> d \<Longrightarrow> relays (set_relay d r st) d' = relays st d'"
  by (simp add: set_relay_def)

lemma wsCloseBoth_relays [simp]:
  "relays (wsCloseBoth e st) = relays st" "recorder (wsCloseBoth e st) = recorder st"
  "messageCount (wsCloseBoth e st) = messageCount st"
  by (simp_all add: wsCloseBoth_def)

lemma set_relay_fields [simp]:
  "recorder (set_relay d r st) = recorder st" "messageCount (set_relay d r st) = messageCount st"
  "closeErr (set_relay d r st) = closeErr st" "closeChan_closed (set_relay d r st) = closeChan_closed st"
  "client_closes (set_relay d r st) = client_closes st" "upstream_closes (set_relay d r st) = upstream_closes st"
  by (simp_all add: set_relay_def)

lemma closed_ok_wsCloseBoth:
  assumes "closed_ok reason st" and exited: "pc r = Exited"
  shows "closed_ok (if reason = None then Some e else reason) (set_relay d r (wsCloseBoth e st))"
proof -
  have "\<exists>d'. pc (relays (set_relay d r (wsCloseBoth e st)) d') = Exited"
    using exited by (intro exI [of _ d]) simp
  then show ?thesis using assms(1) by (auto simp: closed_ok_def wsCloseBoth_def)
qed

lemma closed_ok_set_relay:
  assumes "closed_ok reason st" "pc (relays st d) \<noteq> Exited" "pc r \<noteq> Exited"
  shows "closed_ok reason (set_relay d r st)"
proof -
  have "pc (relays (set_relay d r st) d') = Exited \<longleftrightarrow> pc (relays st d') = Exited" for d'
    using assms(2,3) by (cases "d' = d") (simp_all add: relay_set_other)
  then show ?thesis using assms(1) by (auto simp: closed_ok_def)
qed

lemma closed_ok_more:
  "closed_ok reason (st\<lparr>messageCount := n\<rparr>) = closed_ok reason st"
  "closed_ok reason (st\<lparr>recorder := rec\<rparr>) = closed_ok reason st"
  by (simp_all add: closed_ok_def)

text \<open>The reason kept is that of the first event that has one.\<close>

fun first_reason :: "relay_event list \<Rightarrow> bytes option" where
  "first_reason [] = None"
| "first_reason (e # es) = (case event_reason e of None \<Rightarrow> first_reason es | Some r \<Rightarrow> Some r)"

lemma relay_step_closed_ok:
  assumes "closed_ok reason st" "relay_step e st = Some st'"
  shows "closed_ok (if reason = None then event_reason e else reason) st'"
proof (cases e)
  case (ReadFrame d p)
  then show ?thesis using assms
    by (auto split: if_splits simp: closed_ok_more intro!: closed_ok_set_relay)
next
  case (ReadError d r)
  then show ?thesis
    using assms(2) closed_ok_wsCloseBoth [OF assms(1), of "relays st d\<lparr>pc := Exited\<rparr>" r d]
    by (auto split: if_splits)
next
  case (WriteFrame d)
  then show ?thesis using assms
    by (auto split: relay_pc.splits intro!: closed_ok_set_relay)
next
  case (WriteError d r)
  then show ?thesis
    using assms(2) closed_ok_wsCloseBoth [OF assms(1), of "relays st d\<lparr>pc := Exited\<rparr>" r d]
    by (auto split: relay_pc.splits)
next
  case (RecordFrame d b)
  then show ?thesis using assms
    by (auto split: relay_pc.splits simp: closed_ok_more intro!: closed_ok_set_relay)
next
  case (RelayPanic d m)
  then show ?thesis
    using assms(2) closed_ok_wsCloseBoth [OF assms(1), of "relays st d\<lparr>pc := Exited\<rparr>" "''relay panic: '' @ m" d]
    by (auto split: if_splits)
qed

fun event_dir :: "relay_event \<Rightarrow> bool" where
  "event_dir (ReadFrame d p) = d"
| "event_dir (ReadError d e) = d"
| "event_dir (WriteFrame d) = d"
| "event_dir (WriteError d e) = d"
| "event_dir (RecordFrame d b) = d"
| "event_dir (RelayPanic d m) = d"

lemma relay_step_other:
  "relay_step e st = Some st' \<Longrightarrow> d \<noteq> event_dir e \<Longrightarrow> relays st' d = relays st d"
  by (cases e) (auto split: if_splits relay_pc.splits simp: relay_set_other)

definition sides_ok :: "relay \<Rightarrow> bool" where
  "sides_ok r \<longleftrightarrow> relay_ok r \<and> recorded_ok r"

lemma relay_step_side:
  "relay_step e st = Some st' \<Longrightarrow> sides_ok (relays st (event_dir e)) \<Longrightarrow> sides_ok (relays st' (event_dir e))"
  by (cases e)
    (auto split: if_splits relay_pc.splits
      simp: sides_ok_def relay_ok_def recorded_ok_def subseq_rev_drop_many)

lemma relay_step_count:
  "relay_step e st = Some st' \<Longrightarrow>
   messageCount st = (\<Sum>d\<in>UNIV. length (frames_read (relays st d))) \<Longrightarrow>
   messageCount st' = (\<Sum>d\<in>UNIV. length (frames_read (relays st' d)))"
  by (cases e) (auto split: if_splits relay_pc.splits simp: UNIV_bool set_relay_def wsCloseBoth_def)

lemma relay_step_recorder:
  "relay_step e st = Some st' \<Longrightarrow> recorder_ok cap st \<Longrightarrow> recorder_ok cap st'"
  by (cases e)
    (auto split: if_splits relay_pc.splits option.splits
      simp: recorder_ok_def set_relay_def bodies_def add_def appendCappedWSFrame_capped_body)

text \<open>While recording is enabled, at most the frame in hand is not recorded.\<close>

definition full_ok :: "relay \<Rightarrow> bool" where
  "full_ok r \<longleftrightarrow>
     (case pc r of
        Recording p \<Rightarrow> frames_written r = frames_recorded r @ [p]
      | Exited \<Rightarrow> prefix (frames_recorded r) (frames_written r) \<and>
          length (frames_written r) \<le> length (frames_recorded r) + 1
      | _ \<Rightarrow> frames_recorded r = frames_written r)"

fun records :: "relay_event \<Rightarrow> bool" where
  "records (RecordFrame d enabled) = enabled"
| "records _ = True"

lemma relay_step_full:
  "relay_step e st = Some st' \<Longrightarrow> records e \<Longrightarrow> full_ok (relays st (event_dir e)) \<Longrightarrow>
   full_ok (relays st' (event_dir e))"
  by (cases e) (auto split: if_splits relay_pc.splits simp: full_ok_def)

lemma relay_run_sides:
  assumes "relay_run es st = Some st'" "\<forall>d. sides_ok (relays st d)"
  shows "\<forall>d. sides_ok (relays st' d)"
  using assms
proof (induction es arbitrary: st)
  case (Cons e es)
  then obtain st1 where st1: "relay_step e st = Some st1" "relay_run es st1 = Some st'"
    by (auto split: option.splits)
  have "sides_ok (relays st1 d)" for d
    using relay_step_side [OF st1(1)] relay_step_other [OF st1(1)] Cons.prems(2)
    by (cases "d = event_dir e") simp_all
  then show ?case using Cons.IH [OF st1(2)] by blast
qed simp

lemma relay_run_full:
  assumes "relay_run es st = Some st'" "\<forall>d. full_ok (relays st d)" "list_all records es"
  shows "\<forall>d. full_ok (relays st' d)"
  using assms
proof (induction es arbitrary: st)
  case (Cons e es)
  then obtain st1 where st1: "relay_step e st = Some st1" "relay_run es st1 = Some st'"
    by (auto split: option.splits)
  have "full_ok (relays st1 d)" for d
    using relay_step_full [OF st1(1)] relay_step_other [OF st1(1)] Cons.prems(2,3)
    by (cases "d = event_dir e") simp_all
  then show ?case using Cons.IH [OF st1(2)] Cons.prems(3) by simp
qed simp

lemma relay_run_closed:
  "relay_run es st = Some st' \<Longrightarrow> closed_ok reason st \<Longrightarrow>
   closed_ok (if reason = None then first_reason es else reason) st'"
proof (induction es arbitrary: st reason)
  case (Cons e es)
  then obtain st1 where st1: "relay_step e st = Some st1" "relay_run es st1 = Some st'"
    by (auto split: option.splits)
  show ?case
    using Cons.IH [OF st1(2) relay_step_closed_ok [OF Cons.prems(2) st1(1)]]
    by (cases reason; cases "event_reason e") simp_all
qed auto

lemma relay_run_count_recorder:
  "relay_run es st = Some st' \<Longrightarrow> recorder_ok cap st \<Longrightarrow>
   messageCount st = (\<Sum>d\<in>UNIV. length (frames_read (relays st d))) \<Longrightarrow>
   recorder_ok cap st' \<and> messageCount st' = (\<Sum>d\<in>UNIV. length (frames_read (relays st' d)))"
  by (induction es arbitrary: st) (auto split: option.splits dest: relay_step_count relay_step_recorder)

lemma relay_start_ok:
  "sides_ok (relays (relay_start cap) d)" "full_ok (relays (relay_start cap) d)"
  "closed_ok None (relay_start cap)" "recorder_ok cap (relay_start cap)"
  "messageCount (relay_start cap) = (\<Sum>d\<in>UNIV. length (frames_read (relays (relay_start cap) d)))"
  by (simp_all add: relay_start_def sides_ok_def relay_ok_def recorded_ok_def full_ok_def closed_ok_def
      recorder_ok_def bodies_def newWSCaptureStoreRecorder_def capped_body_def)

lemma sides_okD:
  assumes "sides_ok r"
  shows "prefix (frames_written r) (frames_read r)" "length (frames_read r) \<le> length (frames_written r) + 1"
    "subseq (frames_recorded r) (frames_written r)"
  using assms
  by (auto simp: sides_ok_def relay_ok_def recorded_ok_def split: relay_pc.splits) (metis subseq_rev_drop_many)

lemma full_okD:
  "full_ok r \<Longrightarrow> prefix (frames_recorded r) (frames_written r) \<and>
     length (frames_written r) \<le> length (frames_recorded r) + 1"
  by (auto simp: full_ok_def split: relay_pc.splits)

section \<open>The bridge\<close>

text \<open>
  The bridge reads the bodies as soon as the channel is closed, without waiting for the relays: a
  frame that one of them has forwarded and not yet recorded is then missing from the capture.
\<close>

lemma capture_misses_frame_in_hand:
  "map_option (\<lambda>st. (closeChan_closed st, frames_written (relays st True), bodies (recorder st)))
     (relay_run [ReadFrame True ''a'', WriteFrame True, ReadError False ''eof''] (relay_start 8)) =
   Some (True, [''a''], ([], []))"
  by (simp add: relay_start_def set_relay_def wsCloseBoth_def bodies_def newWSCaptureStoreRecorder_def)

text \<open>
  C6. In every interleaving of the two relays, with reads, writes and panics that end as they may:
  the bridge is torn down exactly when a relay has failed, both connections are closed once, and the
  error kept is the first one. Each direction writes the frames it read in their order, with at most
  one read frame not written; the frames recorded are among those written, and while recording stays
  enabled they are all of them but at most the last. The message count is the number of frames read,
  and each captured body is the newline-joined frames of its direction, empty ones at the front
  dropped, cut at the cap; without a positive cap there is nothing.
\<close>

theorem wsRelay_interleavings:
  assumes "relay_run es (relay_start cap) = Some st"
  shows "closeErr st = first_reason es \<and> (closeChan_closed st \<longleftrightarrow> (\<exists>d. pc (relays st d) = Exited)) \<and>
    client_closes st = (if closeChan_closed st then 1 else 0) \<and>
    upstream_closes st = (if closeChan_closed st then 1 else 0) \<and>
    (\<forall>d. prefix (frames_written (relays st d)) (frames_read (relays st d)) \<and>
         length (frames_read (relays st d)) \<le> length (frames_written (relays st d)) + 1 \<and>
         subseq (frames_recorded (relays st d)) (frames_written (relays st d)) \<and>
         (list_all records es \<longrightarrow>
            prefix (frames_recorded (relays st d)) (frames_written (relays st d)) \<and>
            length (frames_written (relays st d)) \<le> length (frames_recorded (relays st d)) + 1)) \<and>
    messageCount st = length (frames_read (relays st True)) + length (frames_read (relays st False)) \<and>
    bodies (recorder st) =
      (capped_body (nat cap) (frames_recorded (relays st True)),
       capped_body (nat cap) (frames_recorded (relays st False)))"
proof -
  have sides: "sides_ok (relays st d)" for d
    using relay_run_sides [OF assms] relay_start_ok(1) by blast
  have full: "list_all records es \<Longrightarrow> full_ok (relays st d)" for d
    using relay_run_full [OF assms] relay_start_ok(2) by blast
  have closed: "closed_ok (first_reason es) st"
    using relay_run_closed [OF assms relay_start_ok(3)] by simp
  have count: "recorder_ok cap st" "messageCount st = (\<Sum>d\<in>UNIV. length (frames_read (relays st d)))"
    using relay_run_count_recorder [OF assms relay_start_ok(4,5)] by simp_all
  have "closeErr st = first_reason es" "closeChan_closed st \<longleftrightarrow> (\<exists>d. pc (relays st d) = Exited)"
    "client_closes st = (if closeChan_closed st then 1 else 0)"
    "upstream_closes st = (if closeChan_closed st then 1 else 0)"
    using closed by (auto simp: closed_ok_def)
  moreover have "messageCount st = length (frames_read (relays st True)) + length (frames_read (relays st False))"
    using count(2) by (simp add: UNIV_bool)
  ultimately show ?thesis
    using sides_okD [OF sides] full_okD [OF full] count(1) unfolding recorder_ok_def by blast
qed

theorem wsRelay_interleavings_witness:
  "map_option (\<lambda>st. (bodies (recorder st), messageCount st, closeErr st))
     (relay_run
       [ReadFrame True [], WriteFrame True, RecordFrame True True, ReadFrame False ''ok'', ReadFrame True ''hello'',
        WriteFrame True, RecordFrame True True, ReadFrame True ''you'', WriteFrame True, WriteError False ''gone'',
        RecordFrame True True, ReadError True ''eof'']
       (relay_start 8)) = Some ((''hello'' @ CHR 0x0A # ''yo'', []), 4, Some ''gone'')"
proof -
  define es where "es = [ReadFrame True [], WriteFrame True, RecordFrame True True, ReadFrame False ''ok'',
    ReadFrame True ''hello'', WriteFrame True, RecordFrame True True, ReadFrame True ''you'', WriteFrame True,
    WriteError False ''gone'', RecordFrame True True, ReadError True ''eof'']"
  obtain st where st: "relay_run es (relay_start 8) = Some st"
    and frames: "frames_recorded (relays st True) = [[], ''hello'', ''you'']" "frames_recorded (relays st False) = []"
      "frames_read (relays st True) = [[], ''hello'', ''you'']" "frames_read (relays st False) = [''ok'']"
    by (simp add: es_def relay_start_def set_relay_def wsCloseBoth_def)
  have "closeErr st = Some ''gone''" "messageCount st = 4"
    "bodies (recorder st) = (''hello'' @ CHR 0x0A # ''yo'', [])"
    using wsRelay_interleavings [OF st] frames by (simp_all add: es_def capped_body_def)
  then show ?thesis using st by (simp add: es_def)
qed

end
