(* ===== verification/Mitm_Diff.thy ===== *)
theory Mitm_Diff
  imports Go_Prelude "HOL-Library.Char_ord" "HOL-Library.List_Lexorder" "HOL-Library.Multiset"
begin

text \<open>
  The comparison of two wire-shape snapshots (\<open>internal/mitm/diff.go\<close>): a learned baseline against
  the latest capture. Go maps are association lists in the order of insertion. A \<open>range\<close> over a map
  visits its keys in an unspecified order: the order is the argument \<open>visit\<close>, a permutation of the
  keys it is given. Header names are HTTP tokens, so lower-casing is that of the ASCII letters.
\<close>

section \<open>Snapshots\<close>

text \<open>The fields that the comparison does not read are left out.\<close>

record Signature =
  UserAgent :: bytes
  BetaFingerprint :: bytes
  BodyKeys :: "bytes list"

type_synonym HeaderClassification = bytes

definition HeaderClassConstant :: HeaderClassification where "HeaderClassConstant = ''constant''"
definition HeaderClassEnum :: HeaderClassification where "HeaderClassEnum = ''enum''"

record Header =
  Header_Name :: bytes
  Classification :: HeaderClassification
  ObservedValues :: "bytes list"
  Volatile :: bool

record FlavorShape =
  Flavor_Slug :: bytes
  Flavor_Signature :: Signature
  Headers :: "Header list"

record Snapshot =
  Upstream_Name :: bytes
  Flavors :: "FlavorShape list"

record DiffMismatch =
  Field :: bytes
  Expected :: bytes
  Got :: bytes
  Reason :: bytes

record FlavorDiffReport =
  Slug :: bytes
  HeaderMissing :: "bytes list"
  HeaderExtra :: "bytes list"
  HeaderClassChanged :: "DiffMismatch list"
  HeaderValuesDiff :: "DiffMismatch list"
  BodyMissing :: "bytes list"
  BodyExtra :: "bytes list"
  BetaFingerprintChange :: "DiffMismatch option"
  UserAgentChange :: "DiffMismatch option"

record DiffReport =
  Upstream :: bytes
  MissingFlavors :: "bytes list"
  ExtraFlavors :: "bytes list"
  FlavorReports :: "FlavorDiffReport list"

section \<open>Go maps and sets\<close>

text \<open>A later entry for a key replaces the earlier one and keeps its place.\<close>

fun map_put :: "bytes \<Rightarrow> 'v \<Rightarrow> (bytes \<times> 'v) list \<Rightarrow> (bytes \<times> 'v) list" where
  "map_put k v [] = [(k, v)]"
| "map_put k v ((k', v') # m) = (if k' = k then (k, v) # m else (k', v') # map_put k v m)"

definition keyed :: "('a \<Rightarrow> bytes) \<Rightarrow> 'a list \<Rightarrow> (bytes \<times> 'a) list" where
  "keyed key xs = fold (\<lambda>x. map_put (key x) x) xs []"

abbreviation keys :: "(bytes \<times> 'v) list \<Rightarrow> bytes list" where
  "keys m \<equiv> map fst m"

definition lower :: "char \<Rightarrow> char" where
  "lower c = (if 65 \<le> byte c \<and> byte c \<le> 90 then char_of (byte c + 32) else c)"

definition indexHeaders :: "Header list \<Rightarrow> (bytes \<times> Header) list" where
  "indexHeaders hs = keyed (\<lambda>h. map lower (Header_Name h)) hs"

definition stringSet :: "bytes list \<Rightarrow> (bytes \<times> bool) list" where
  "stringSet s = fold (\<lambda>v. map_put v True) s []"

fun stringSlicesEqual :: "bytes list \<Rightarrow> bytes list \<Rightarrow> bool" where
  "stringSlicesEqual [] [] = True"
| "stringSlicesEqual (a # as) (b # bs) = (a = b \<and> stringSlicesEqual as bs)"
| "stringSlicesEqual _ _ = False"

section \<open>One flavor\<close>

text \<open>The body of the loop over the reference's headers.\<close>

definition diff_header :: "(bytes \<times> Header) list \<Rightarrow> bytes \<Rightarrow> Header \<Rightarrow> FlavorDiffReport \<Rightarrow> FlavorDiffReport" where
  "diff_header candHeaders name refHdr out =
     (case map_of candHeaders name of
        None \<Rightarrow> out\<lparr>HeaderMissing := HeaderMissing out @ [name]\<rparr>
      | Some candHdr \<Rightarrow>
          if Volatile refHdr \<and> Volatile candHdr then out
          else
            let out =
              (if Classification refHdr \<noteq> Classification candHdr
               then out\<lparr>HeaderClassChanged := HeaderClassChanged out @
                 [\<lparr>Field = name, Expected = Classification refHdr,
                   Got = Classification candHdr, Reason = ''header classification changed''\<rparr>]\<rparr>
               else out)
            in if Classification refHdr = HeaderClassConstant \<or> Classification refHdr = HeaderClassEnum
               then if \<not> stringSlicesEqual (ObservedValues refHdr) (ObservedValues candHdr)
                    then out\<lparr>HeaderValuesDiff := HeaderValuesDiff out @
                      [\<lparr>Field = name, Expected = join (ObservedValues refHdr) ''|'',
                        Got = join (ObservedValues candHdr) ''|'', Reason = ''header observed values changed''\<rparr>]\<rparr>
                    else out
               else out)"

definition missing_keys :: "(bytes list \<Rightarrow> bytes list) \<Rightarrow> (bytes \<times> 'a) list \<Rightarrow> (bytes \<times> 'b) list \<Rightarrow> bytes list" where
  "missing_keys visit a b = filter (\<lambda>k. map_of b k = None) (visit (keys a))"

definition diffFlavor :: "(bytes list \<Rightarrow> bytes list) \<Rightarrow> FlavorShape \<Rightarrow> FlavorShape \<Rightarrow> FlavorDiffReport" where
  "diffFlavor visit ref cand =
     (let rs = Flavor_Signature ref; cs = Flavor_Signature cand;
          out = \<lparr>Slug = Flavor_Slug ref, HeaderMissing = [], HeaderExtra = [], HeaderClassChanged = [],
                 HeaderValuesDiff = [], BodyMissing = [], BodyExtra = [],
                 BetaFingerprintChange =
                   (if BetaFingerprint rs \<noteq> BetaFingerprint cs
                    then Some \<lparr>Field = ''beta_fingerprint'', Expected = BetaFingerprint rs,
                               Got = BetaFingerprint cs, Reason = ''beta fingerprint changed''\<rparr>
                    else None),
                 UserAgentChange =
                   (if UserAgent rs \<noteq> UserAgent cs
                    then Some \<lparr>Field = ''user_agent'', Expected = UserAgent rs,
                               Got = UserAgent cs, Reason = ''user agent changed''\<rparr>
                    else None)\<rparr>;
          refHeaders = indexHeaders (Headers ref); candHeaders = indexHeaders (Headers cand);
          out = fold (\<lambda>name out. case map_of refHeaders name of
                        None \<Rightarrow> out | Some h \<Rightarrow> diff_header candHeaders name h out)
                     (visit (keys refHeaders)) out;
          refKeys = stringSet (BodyKeys rs); candKeys = stringSet (BodyKeys cs)
      in out\<lparr>HeaderMissing := sort (HeaderMissing out),
             HeaderExtra := sort (missing_keys visit candHeaders refHeaders),
             BodyMissing := sort (missing_keys visit refKeys candKeys),
             BodyExtra := sort (missing_keys visit candKeys refKeys)\<rparr>)"

section \<open>Reports\<close>

definition FlavorDiffReport_HasDiverged :: "FlavorDiffReport \<Rightarrow> bool" where
  "FlavorDiffReport_HasDiverged r \<longleftrightarrow>
     HeaderMissing r \<noteq> [] \<or> HeaderExtra r \<noteq> [] \<or> HeaderClassChanged r \<noteq> [] \<or> HeaderValuesDiff r \<noteq> [] \<or>
     BodyMissing r \<noteq> [] \<or> BodyExtra r \<noteq> [] \<or> BetaFingerprintChange r \<noteq> None \<or> UserAgentChange r \<noteq> None"

definition HasDiverged :: "DiffReport \<Rightarrow> bool" where
  "HasDiverged r \<longleftrightarrow>
     MissingFlavors r \<noteq> [] \<or> ExtraFlavors r \<noteq> [] \<or> list_ex FlavorDiffReport_HasDiverged (FlavorReports r)"

definition DiffSnapshots :: "(bytes list \<Rightarrow> bytes list) \<Rightarrow> Snapshot \<Rightarrow> Snapshot \<Rightarrow> DiffReport" where
  "DiffSnapshots visit reference candidate =
     (let refFlavors = keyed Flavor_Slug (Flavors reference);
          candFlavors = keyed Flavor_Slug (Flavors candidate);
          common = sort (filter (\<lambda>slug. map_of candFlavors slug \<noteq> None) (visit (keys refFlavors)))
      in \<lparr>Upstream = Upstream_Name reference,
          MissingFlavors = sort (missing_keys visit refFlavors candFlavors),
          ExtraFlavors = sort (missing_keys visit candFlavors refFlavors),
          FlavorReports =
            filter FlavorDiffReport_HasDiverged
              (concat (map (\<lambda>slug. case (map_of refFlavors slug, map_of candFlavors slug) of
                                     (Some r, Some c) \<Rightarrow> [diffFlavor visit r c]
                                   | _ \<Rightarrow> []) common))\<rparr>)"

definition labelled :: "bytes \<Rightarrow> bytes list \<Rightarrow> bytes" where
  "labelled label xs = (if xs \<noteq> [] then label @ join xs '', '' @ [CHR 0x0A] else [])"

definition mismatch_lines :: "bytes \<Rightarrow> DiffMismatch list \<Rightarrow> bytes" where
  "mismatch_lines what ms =
     concat (map (\<lambda>m. ''    header '' @ Field m @ what @ Expected m @ '' -> '' @ Got m @ [CHR 0x0A]) ms)"

definition flavor_lines :: "FlavorDiffReport \<Rightarrow> bytes" where
  "flavor_lines fr =
     (if \<not> FlavorDiffReport_HasDiverged fr then []
      else ''  flavor '' @ Slug fr @ [CHR 0x0A] @
        (case UserAgentChange fr of
           None \<Rightarrow> []
         | Some m \<Rightarrow> ''    user-agent: '' @ Expected m @ '' -> '' @ Got m @ [CHR 0x0A]) @
        (if BetaFingerprintChange fr \<noteq> None then ''    beta fingerprint changed'' @ [CHR 0x0A] else []) @
        labelled ''    header missing: '' (HeaderMissing fr) @
        labelled ''    header extra:   '' (HeaderExtra fr) @
        mismatch_lines '' class '' (HeaderClassChanged fr) @
        mismatch_lines '' values: '' (HeaderValuesDiff fr) @
        labelled ''    body missing: '' (BodyMissing fr) @
        labelled ''    body extra:   '' (BodyExtra fr))"

definition SummaryString :: "DiffReport \<Rightarrow> bytes" where
  "SummaryString r =
     (if \<not> HasDiverged r then ''wire shape OK for upstream='' @ Upstream r
      else ''wire shape DRIFT for upstream='' @ Upstream r @ [CHR 0x0A] @
        labelled ''  missing flavors: '' (MissingFlavors r) @
        labelled ''  extra flavors:   '' (ExtraFlavors r) @
        concat (map flavor_lines (FlavorReports r)))"

section \<open>Lookups\<close>

text \<open>The entry a Go map holds for a key: the last one put.\<close>

definition last_with :: "('a \<Rightarrow> bytes) \<Rightarrow> bytes \<Rightarrow> 'a list \<Rightarrow> 'a option" where
  "last_with key k xs = find (\<lambda>x. key x = k) (rev xs)"

lemma map_of_map_put: "map_of (map_put k v m) = (map_of m)(k \<mapsto> v)"
  by (induction m) auto

lemma keys_map_put: "set (keys (map_put k v m)) = insert k (set (keys m))"
  by (simp add: map_of_map_put flip: dom_map_of_conv_image_fst)

lemma distinct_map_put: "distinct (keys m) \<Longrightarrow> distinct (keys (map_put k v m))"
  by (induction m) (auto simp: keys_map_put simp del: set_map)

lemma keyed_snoc: "keyed key (xs @ [x]) = map_put (key x) x (keyed key xs)"
  by (simp add: keyed_def)

lemma map_of_keyed: "map_of (keyed key xs) k = last_with key k xs"
proof (induction xs rule: rev_induct)
  case Nil
  then show ?case by (simp add: keyed_def last_with_def)
next
  case (snoc x xs)
  then show ?case by (simp add: keyed_snoc map_of_map_put last_with_def)
qed

lemma distinct_keyed: "distinct (keys (keyed key xs))"
proof (induction xs rule: rev_induct)
  case Nil
  then show ?case by (simp add: keyed_def)
qed (simp add: keyed_snoc distinct_map_put)

lemma keys_stringSet: "set (keys (stringSet xs)) = set xs"
proof (induction xs rule: rev_induct)
  case Nil
  then show ?case by (simp add: stringSet_def)
next
  case (snoc x xs)
  then show ?case by (simp add: stringSet_def keys_map_put del: set_map)
qed

lemma stringSlicesEqual_eq: "stringSlicesEqual a b \<longleftrightarrow> a = b"
  by (induction a b rule: stringSlicesEqual.induct) auto

section \<open>The contract\<close>

text \<open>A \<open>range\<close> visits every key once, in any order.\<close>

definition visits :: "(bytes list \<Rightarrow> bytes list) \<Rightarrow> bool" where
  "visits visit \<longleftrightarrow> (\<forall>ks. mset (visit ks) = mset ks)"

text \<open>
  Two headers agree when both are volatile, or they have the same class and, where the class fixes
  the values, the same values. Two flavors agree on the user agent, the beta fingerprint, the set of
  body keys, and the headers under each lower-case name; two snapshots agree on the flavors under
  each slug.
\<close>

definition header_agrees :: "Header \<Rightarrow> Header \<Rightarrow> bool" where
  "header_agrees h h' \<longleftrightarrow>
     Volatile h \<and> Volatile h' \<or>
     Classification h = Classification h' \<and>
     (Classification h \<in> {HeaderClassConstant, HeaderClassEnum} \<longrightarrow> ObservedValues h = ObservedValues h')"

definition header_named :: "bytes \<Rightarrow> FlavorShape \<Rightarrow> Header option" where
  "header_named name fl = last_with (\<lambda>h. map lower (Header_Name h)) name (Headers fl)"

definition flavors_agree :: "FlavorShape \<Rightarrow> FlavorShape \<Rightarrow> bool" where
  "flavors_agree r c \<longleftrightarrow>
     UserAgent (Flavor_Signature r) = UserAgent (Flavor_Signature c) \<and>
     BetaFingerprint (Flavor_Signature r) = BetaFingerprint (Flavor_Signature c) \<and>
     set (BodyKeys (Flavor_Signature r)) = set (BodyKeys (Flavor_Signature c)) \<and>
     (\<forall>name. rel_option header_agrees (header_named name r) (header_named name c))"

definition flavor_at :: "bytes \<Rightarrow> Snapshot \<Rightarrow> FlavorShape option" where
  "flavor_at slug s = last_with Flavor_Slug slug (Flavors s)"

definition snapshots_agree :: "Snapshot \<Rightarrow> Snapshot \<Rightarrow> bool" where
  "snapshots_agree r c \<longleftrightarrow> (\<forall>slug. rel_option flavors_agree (flavor_at slug r) (flavor_at slug c))"

lemma sort_Nil_iff [simp]: "sort xs = [] \<longleftrightarrow> xs = []"
  by (metis length_0_conv length_sort)

lemma visits_set: "visits visit \<Longrightarrow> set (visit ks) = set ks"
  by (metis visits_def set_mset_mset)

lemma visits_distinct: "visits visit \<Longrightarrow> distinct (visit ks) = distinct ks"
  by (metis visits_def mset_eq_imp_distinct_iff)

lemma mem_keys: "k \<in> set (keys m) \<longleftrightarrow> map_of m k \<noteq> None"
  by (metis map_of_eq_None_iff set_map)

lemma visits_keys: "visits visit \<Longrightarrow> set (visit (keys m)) = {k. map_of m k \<noteq> None}"
  using mem_keys [of _ m] by (auto simp: visits_set simp del: set_map)

lemma set_missing_keys: "visits visit \<Longrightarrow> set (missing_keys visit a b) = set (keys a) - set (keys b)"
  by (auto simp: missing_keys_def visits_set mem_keys simp del: set_map)

text \<open>What one header of the reference adds to each list of the report.\<close>

definition class_changes :: "(bytes \<times> Header) list \<Rightarrow> (bytes \<times> Header) list \<Rightarrow> bytes \<Rightarrow> DiffMismatch list" where
  "class_changes refHeaders candHeaders name =
     (case (map_of refHeaders name, map_of candHeaders name) of
        (Some h, Some h') \<Rightarrow>
          if \<not> (Volatile h \<and> Volatile h') \<and> Classification h \<noteq> Classification h'
          then [\<lparr>Field = name, Expected = Classification h,
                 Got = Classification h', Reason = ''header classification changed''\<rparr>]
          else []
      | _ \<Rightarrow> [])"

definition value_changes :: "(bytes \<times> Header) list \<Rightarrow> (bytes \<times> Header) list \<Rightarrow> bytes \<Rightarrow> DiffMismatch list" where
  "value_changes refHeaders candHeaders name =
     (case (map_of refHeaders name, map_of candHeaders name) of
        (Some h, Some h') \<Rightarrow>
          if \<not> (Volatile h \<and> Volatile h') \<and> Classification h \<in> {HeaderClassConstant, HeaderClassEnum} \<and>
             ObservedValues h \<noteq> ObservedValues h'
          then [\<lparr>Field = name, Expected = join (ObservedValues h) ''|'',
                 Got = join (ObservedValues h') ''|'', Reason = ''header observed values changed''\<rparr>]
          else []
      | _ \<Rightarrow> [])"

abbreviation diff_headers :: "(bytes \<times> Header) list \<Rightarrow> (bytes \<times> Header) list \<Rightarrow> bytes list \<Rightarrow>
    FlavorDiffReport \<Rightarrow> FlavorDiffReport" where
  "diff_headers refHeaders candHeaders names \<equiv>
     fold (\<lambda>name out. case map_of refHeaders name of None \<Rightarrow> out | Some h \<Rightarrow> diff_header candHeaders name h out) names"

lemma diff_header_lists:
  assumes "map_of refHeaders name = Some h"
  shows "diff_header candHeaders name h out =
    out\<lparr>HeaderMissing := HeaderMissing out @ (if map_of candHeaders name = None then [name] else []),
        HeaderClassChanged := HeaderClassChanged out @ class_changes refHeaders candHeaders name,
        HeaderValuesDiff := HeaderValuesDiff out @ value_changes refHeaders candHeaders name\<rparr>"
  using assms
  by (auto simp: diff_header_def class_changes_def value_changes_def stringSlicesEqual_eq Let_def split: option.split)

lemma diff_headers_lists:
  "\<forall>name \<in> set names. map_of refHeaders name \<noteq> None \<Longrightarrow>
   diff_headers refHeaders candHeaders names out =
    out\<lparr>HeaderMissing := HeaderMissing out @ filter (\<lambda>name. map_of candHeaders name = None) names,
        HeaderClassChanged := HeaderClassChanged out @ concat (map (class_changes refHeaders candHeaders) names),
        HeaderValuesDiff := HeaderValuesDiff out @ concat (map (value_changes refHeaders candHeaders) names)\<rparr>"
  by (induction names arbitrary: out) (auto simp: diff_header_lists)

lemma headers_agree_iff:
  fixes ref cand :: "(bytes \<times> Header) list"
  assumes "visits visit"
  shows "(\<forall>name. rel_option header_agrees (map_of ref name) (map_of cand name)) \<longleftrightarrow>
    filter (\<lambda>name. map_of cand name = None) (visit (keys ref)) = [] \<and> missing_keys visit cand ref = [] \<and>
    concat (map (class_changes ref cand) (visit (keys ref))) = [] \<and>
    concat (map (value_changes ref cand) (visit (keys ref))) = []" (is "?l \<longleftrightarrow> ?r")
proof -
  have "?r \<longleftrightarrow> (\<forall>name. (map_of ref name \<noteq> None \<longrightarrow> map_of cand name \<noteq> None) \<and>
      (map_of cand name \<noteq> None \<longrightarrow> map_of ref name \<noteq> None) \<and>
      (map_of ref name \<noteq> None \<longrightarrow> class_changes ref cand name = [] \<and> value_changes ref cand name = []))"
    by (auto simp: filter_empty_conv missing_keys_def visits_keys [OF assms])
  also have "\<dots> \<longleftrightarrow> ?l"
    by (intro iff_allI) (auto simp: option.rel_sel class_changes_def value_changes_def header_agrees_def split: if_splits)
  finally show ?thesis by blast
qed

lemma HasDiverged_diffFlavor:
  assumes "visits visit"
  shows "FlavorDiffReport_HasDiverged (diffFlavor visit r c) \<longleftrightarrow> \<not> flavors_agree r c"
proof -
  let ?ref = "indexHeaders (Headers r)" and ?cand = "indexHeaders (Headers c)"
  have "\<forall>name \<in> set (visit (keys ?ref)). map_of ?ref name \<noteq> None"
    using assms by (simp add: visits_set mem_keys del: set_map)
  note lists = diff_headers_lists [OF this]
  have body: "set (BodyKeys (Flavor_Signature r)) = set (BodyKeys (Flavor_Signature c)) \<longleftrightarrow>
      missing_keys visit (stringSet (BodyKeys (Flavor_Signature r))) (stringSet (BodyKeys (Flavor_Signature c))) = [] \<and>
      missing_keys visit (stringSet (BodyKeys (Flavor_Signature c))) (stringSet (BodyKeys (Flavor_Signature r))) = []"
    unfolding set_empty [symmetric] set_missing_keys [OF assms] keys_stringSet by auto
  have named: "header_named name fl = map_of (indexHeaders (Headers fl)) name" for name fl
    by (simp add: header_named_def indexHeaders_def map_of_keyed)
  show ?thesis
    unfolding flavors_agree_def named headers_agree_iff [OF assms] body
    by (auto simp: FlavorDiffReport_HasDiverged_def diffFlavor_def lists Let_def)
qed

lemma last_with_key: "last_with key k xs = Some x \<Longrightarrow> key x = k"
  by (simp add: last_with_def find_Some_iff) blast

lemma Slug_diffFlavor:
  assumes "visits visit"
  shows "Slug (diffFlavor visit r c) = Flavor_Slug r"
proof -
  let ?ref = "indexHeaders (Headers r)"
  have "\<forall>name \<in> set (visit (keys ?ref)). map_of ?ref name \<noteq> None"
    using assms by (simp add: visits_keys)
  then show ?thesis by (simp add: diffFlavor_def diff_headers_lists Let_def)
qed

text \<open>The flavors both snapshots have, in the order of their slugs, and the reports on them.\<close>

definition common_slugs :: "(bytes list \<Rightarrow> bytes list) \<Rightarrow> Snapshot \<Rightarrow> Snapshot \<Rightarrow> bytes list" where
  "common_slugs visit r c =
     sort (filter (\<lambda>slug. flavor_at slug c \<noteq> None) (visit (keys (keyed Flavor_Slug (Flavors r)))))"

definition flavor_diff :: "(bytes list \<Rightarrow> bytes list) \<Rightarrow> Snapshot \<Rightarrow> Snapshot \<Rightarrow> bytes \<Rightarrow> FlavorDiffReport" where
  "flavor_diff visit r c slug = diffFlavor visit (the (flavor_at slug r)) (the (flavor_at slug c))"

lemma set_common_slugs:
  "visits visit \<Longrightarrow>
   set (common_slugs visit r c) = {slug. flavor_at slug r \<noteq> None \<and> flavor_at slug c \<noteq> None}"
  by (auto simp: common_slugs_def visits_keys map_of_keyed flavor_at_def)

lemma distinct_common_slugs: "visits visit \<Longrightarrow> distinct (common_slugs visit r c)"
  by (simp add: common_slugs_def visits_distinct distinct_keyed)

lemma FlavorReports_DiffSnapshots:
  assumes "visits visit"
  shows "FlavorReports (DiffSnapshots visit r c) =
    map (flavor_diff visit r c)
      (filter (\<lambda>slug. FlavorDiffReport_HasDiverged (flavor_diff visit r c slug)) (common_slugs visit r c))"
proof -
  have one: "concat (map (\<lambda>slug. case (flavor_at slug r, flavor_at slug c) of
        (Some r, Some c) \<Rightarrow> [diffFlavor visit r c] | _ \<Rightarrow> []) slugs) = map (flavor_diff visit r c) slugs"
    if "set slugs \<subseteq> set (common_slugs visit r c)" for slugs
    using that by (induction slugs) (auto simp: set_common_slugs [OF assms] flavor_diff_def)
  have "FlavorReports (DiffSnapshots visit r c) =
      filter FlavorDiffReport_HasDiverged (map (flavor_diff visit r c) (common_slugs visit r c))"
    using one [of "common_slugs visit r c"]
    unfolding DiffSnapshots_def Let_def map_of_keyed flavor_at_def common_slugs_def by simp
  then show ?thesis by (simp add: filter_map comp_def)
qed

lemma flavor_diff_diverged:
  assumes "visits visit" "slug \<in> set (common_slugs visit r c)"
  shows "FlavorDiffReport_HasDiverged (flavor_diff visit r c slug) \<longleftrightarrow>
      \<not> rel_option flavors_agree (flavor_at slug r) (flavor_at slug c)"
    "Slug (flavor_diff visit r c slug) = slug"
  using assms(2)
  by (auto simp: set_common_slugs [OF assms(1)] flavor_diff_def HasDiverged_diffFlavor [OF assms(1)]
      Slug_diffFlavor [OF assms(1)] flavor_at_def dest: last_with_key)

definition slugs_lacking :: "Snapshot \<Rightarrow> Snapshot \<Rightarrow> bytes set" where
  "slugs_lacking r c = {slug. flavor_at slug r \<noteq> None \<and> flavor_at slug c = None}"

lemma missing_flavors:
  assumes "visits visit"
  shows "set (missing_keys visit (keyed Flavor_Slug (Flavors r)) (keyed Flavor_Slug (Flavors c))) = slugs_lacking r c"
    "distinct (missing_keys visit (keyed Flavor_Slug (Flavors r)) (keyed Flavor_Slug (Flavors c)))"
  using assms
  by (auto simp: missing_keys_def visits_keys map_of_keyed flavor_at_def slugs_lacking_def
      visits_distinct distinct_keyed)

lemma report_slugs:
  assumes "visits visit"
  shows "map Slug (FlavorReports (DiffSnapshots visit r c)) =
    filter (\<lambda>slug. \<not> rel_option flavors_agree (flavor_at slug r) (flavor_at slug c)) (common_slugs visit r c)"
proof -
  have "map Slug (FlavorReports (DiffSnapshots visit r c)) =
      filter (\<lambda>slug. FlavorDiffReport_HasDiverged (flavor_diff visit r c slug)) (common_slugs visit r c)"
    unfolding FlavorReports_DiffSnapshots [OF assms] map_map
    by (rule map_idI) (simp add: flavor_diff_diverged(2) [OF assms])
  then show ?thesis using flavor_diff_diverged(1) [OF assms] by (simp cong: filter_cong)
qed

lemma HasDiverged_slugs:
  assumes "visits visit"
  shows "HasDiverged (DiffSnapshots visit r c) \<longleftrightarrow> \<not> snapshots_agree r c"
proof -
  have reports: "list_ex FlavorDiffReport_HasDiverged (FlavorReports (DiffSnapshots visit r c)) \<longleftrightarrow>
      (\<exists>slug. flavor_at slug r \<noteq> None \<and> flavor_at slug c \<noteq> None \<and>
        \<not> rel_option flavors_agree (flavor_at slug r) (flavor_at slug c))"
    using flavor_diff_diverged(1) [OF assms]
    by (auto simp: FlavorReports_DiffSnapshots [OF assms] list_ex_iff set_common_slugs [OF assms])
  have "MissingFlavors (DiffSnapshots visit r c) = [] \<longleftrightarrow> slugs_lacking r c = {}"
    "ExtraFlavors (DiffSnapshots visit r c) = [] \<longleftrightarrow> slugs_lacking c r = {}"
    by (simp_all add: DiffSnapshots_def Let_def flip: missing_flavors(1) [OF assms])
  then show ?thesis
    unfolding HasDiverged_def reports snapshots_agree_def slugs_lacking_def
    by (auto simp: option.rel_sel)
qed

section \<open>The report is exact\<close>

text \<open>
  C7. The report of a comparison depends on the order in which Go visits its maps only in the order of
  some entries. It says that the wire shape diverged exactly when the two snapshots do not agree
  under the contract, and the summary says OK exactly when they do. The missing and the extra flavors
  are exactly those that only one side has, and the flavors reported on are exactly the common ones
  that disagree; all three lists are sorted and without repetition. A snapshot never diverges from
  itself.
\<close>

theorem DiffSnapshots_exact:
  assumes "visits visit"
  shows "(HasDiverged (DiffSnapshots visit r c) \<longleftrightarrow> \<not> snapshots_agree r c) \<and>
    (snapshots_agree r c \<longleftrightarrow>
       SummaryString (DiffSnapshots visit r c) = ''wire shape OK for upstream='' @ Upstream_Name r) \<and>
    MissingFlavors (DiffSnapshots visit r c) = sorted_list_of_set (slugs_lacking r c) \<and>
    ExtraFlavors (DiffSnapshots visit r c) = sorted_list_of_set (slugs_lacking c r) \<and>
    map Slug (FlavorReports (DiffSnapshots visit r c)) =
      sorted_list_of_set {slug. flavor_at slug r \<noteq> None \<and> flavor_at slug c \<noteq> None \<and>
        \<not> rel_option flavors_agree (flavor_at slug r) (flavor_at slug c)} \<and>
    \<not> HasDiverged (DiffSnapshots visit r r)"
proof -
  have sorted_unique: "sort xs = sorted_list_of_set A" if "set xs = A" "distinct xs" for xs :: "bytes list" and A
    using that by (metis sorted_list_of_set_sort_remdups distinct_remdups_id)
  have lists: "MissingFlavors (DiffSnapshots visit r c) = sorted_list_of_set (slugs_lacking r c)"
    "ExtraFlavors (DiffSnapshots visit r c) = sorted_list_of_set (slugs_lacking c r)"
    by (simp_all add: DiffSnapshots_def Let_def sorted_unique missing_flavors [OF assms])
  have reports: "map Slug (FlavorReports (DiffSnapshots visit r c)) =
      sorted_list_of_set {slug. flavor_at slug r \<noteq> None \<and> flavor_at slug c \<noteq> None \<and>
        \<not> rel_option flavors_agree (flavor_at slug r) (flavor_at slug c)}"
    unfolding report_slugs [OF assms] common_slugs_def filter_sort
    by (rule sorted_unique)
      (auto simp: visits_keys [OF assms] visits_distinct [OF assms] map_of_keyed distinct_keyed flavor_at_def)
  have refl: "snapshots_agree r r"
    by (simp add: snapshots_agree_def flavors_agree_def header_agrees_def option.rel_refl)
  have "Upstream (DiffSnapshots visit r c) = Upstream_Name r" by (simp add: DiffSnapshots_def Let_def)
  then have "SummaryString (DiffSnapshots visit r c) = ''wire shape OK for upstream='' @ Upstream_Name r \<longleftrightarrow>
      \<not> HasDiverged (DiffSnapshots visit r c)"
    by (simp add: SummaryString_def)
  then show ?thesis
    using lists reports refl HasDiverged_slugs [OF assms] by blast
qed

theorem DiffSnapshots_exact_witness:
  "\<not> snapshots_agree
      \<lparr>Upstream_Name = ''anthropic'', Flavors =
        [\<lparr>Flavor_Slug = ''cli'',
          Flavor_Signature = \<lparr>UserAgent = ''cli/1'', BetaFingerprint = [], BodyKeys = [''model'']\<rparr>,
          Headers = [\<lparr>Header_Name = ''Accept'', Classification = HeaderClassConstant,
                      ObservedValues = [''a''], Volatile = False\<rparr>]\<rparr>,
         \<lparr>Flavor_Slug = ''probe'', Flavor_Signature = \<lparr>UserAgent = [], BetaFingerprint = [], BodyKeys = []\<rparr>,
          Headers = []\<rparr>]\<rparr>
      \<lparr>Upstream_Name = ''anthropic'', Flavors =
        [\<lparr>Flavor_Slug = ''cli'',
          Flavor_Signature = \<lparr>UserAgent = ''cli/1'', BetaFingerprint = [], BodyKeys = [''model'', ''model'']\<rparr>,
          Headers = [\<lparr>Header_Name = ''accept'', Classification = HeaderClassConstant,
                      ObservedValues = [''b''], Volatile = True\<rparr>]\<rparr>]\<rparr>"
  (is "\<not> snapshots_agree ?r ?c")
proof -
  have "visits rev" by (simp add: visits_def)
  moreover have "HasDiverged (DiffSnapshots rev ?r ?c)"
    by (simp add: DiffSnapshots_def keyed_def missing_keys_def HasDiverged_def Let_def)
  ultimately show ?thesis using DiffSnapshots_exact [of rev ?r ?c] by blast
qed

end
