(* ===== verification/Mitm_Volatility.thy ===== *)
theory Mitm_Volatility
  imports Go_Strconv
begin

text \<open>
  How the wire-shape learner recognises values that change with every request
  (\<open>internal/mitm/volatility.go\<close>) and the canonical form of header values
  (\<open>internal/mitm/header_canonical.go\<close>). The regular expressions match ASCII characters only, so they
  are predicates on bytes; a \<open>range\<close> over a string that looks for ASCII letters and digits sees them
  byte by byte, since no byte of a longer rune is one.
\<close>

section \<open>The regular expressions\<close>

definition is_letter :: "char \<Rightarrow> bool" where
  "is_letter c \<longleftrightarrow> 97 \<le> byte c \<and> byte c \<le> 122 \<or> 65 \<le> byte c \<and> byte c \<le> 90"

definition is_hex :: "char \<Rightarrow> bool" where
  "is_hex c \<longleftrightarrow> is_digit c \<or> 97 \<le> byte c \<and> byte c \<le> 102 \<or> 65 \<le> byte c \<and> byte c \<le> 70"

text \<open>The characters between which \<open>\b\<close> sees a boundary and those of \<open>\s\<close>.\<close>

definition is_word :: "char \<Rightarrow> bool" where
  "is_word c \<longleftrightarrow> is_letter c \<or> is_digit c \<or> c = CHR ''_''"

definition re_space :: "char \<Rightarrow> bool" where
  "re_space c \<longleftrightarrow> byte c \<in> {9, 10, 12, 13, 32}"

text \<open>
  A UUID at the start of \<open>s\<close>. It begins and ends with word characters, so the two boundaries say that
  no word character stands before it (\<open>prev\<close>) or after it.
\<close>

definition uuid_dashes :: "bool list" where
  "uuid_dashes = replicate 8 False @ True # replicate 4 False @ True # replicate 4 False @ True #
     replicate 4 False @ True # replicate 12 False"

definition uuid_here :: "bool \<Rightarrow> bytes \<Rightarrow> bool" where
  "uuid_here prev s \<longleftrightarrow>
     \<not> prev \<and> list_all2 (\<lambda>dash c. if dash then c = CHR ''-'' else is_hex c) uuid_dashes (take 36 s) \<and>
     (case drop 36 s of [] \<Rightarrow> True | c # _ \<Rightarrow> \<not> is_word c)"

fun uuid_search :: "bool \<Rightarrow> bytes \<Rightarrow> bool" where
  "uuid_search prev [] = False"
| "uuid_search prev (c # s) = (uuid_here prev (c # s) \<or> uuid_search (is_word c) s)"

definition uuidPattern_MatchString :: "bytes \<Rightarrow> bool" where
  "uuidPattern_MatchString s = uuid_search False s"

text \<open>The leftmost matches that do not overlap are replaced.\<close>

function uuid_replace :: "bool \<Rightarrow> bytes \<Rightarrow> bytes" where
  "uuid_replace prev [] = []"
| "uuid_replace prev (c # s) =
     (if uuid_here prev (c # s) then ''<uuid>'' @ uuid_replace True (drop 35 s)
      else c # uuid_replace (is_word c) s)"
  by pat_completeness auto
termination
  by (relation "measure (\<lambda>(prev, s). length s)") auto

definition hexPattern_MatchString :: "bytes \<Rightarrow> bool" where
  "hexPattern_MatchString s \<longleftrightarrow> 12 \<le> length s \<and> list_all (\<lambda>c. is_hex c \<or> c = CHR ''-'') s"

definition bearerPattern_MatchString :: "bytes \<Rightarrow> bool" where
  "bearerPattern_MatchString s \<longleftrightarrow>
     has_prefix s ''Bearer'' \<and>
     (let rest = drop 6 s in takeWhile re_space rest \<noteq> [] \<and> dropWhile re_space rest \<noteq> [])"

definition prefixedIDPattern_MatchString :: "bytes \<Rightarrow> bool" where
  "prefixedIDPattern_MatchString s \<longleftrightarrow>
     takeWhile is_letter s \<noteq> [] \<and>
     (case dropWhile is_letter s of
        [] \<Rightarrow> False
      | c # body \<Rightarrow> c = CHR ''_'' \<and> 10 \<le> length body \<and> list_all (\<lambda>c. is_digit c \<or> is_letter c) body)"

section \<open>Volatile values\<close>

definition highEntropyMinLen :: nat where "highEntropyMinLen = 20"

definition isAllDigits :: "bytes \<Rightarrow> bool" where
  "isAllDigits s \<longleftrightarrow> list_all is_digit s \<and> s \<noteq> []"

definition isHighEntropyToken :: "bytes \<Rightarrow> bool" where
  "isHighEntropyToken s \<longleftrightarrow>
     \<not> length s < highEntropyMinLen \<and> \<not> list_ex (\<lambda>c. c = CHR '' '' \<or> c = CHR '','') s \<and>
     list_ex is_letter s \<and> list_ex is_digit s"

definition headerValueIsVolatile :: "bytes \<Rightarrow> bool" where
  "headerValueIsVolatile val =
     (let v = trim_space val
      in if v = [] then False
         else if isAllDigits v then True
         else if uuidPattern_MatchString v then True
         else isHighEntropyToken v)"

definition allValuesVolatile :: "bytes list \<Rightarrow> bool" where
  "allValuesVolatile vals \<longleftrightarrow> vals \<noteq> [] \<and> list_all headerValueIsVolatile vals"

definition pathSegmentIsID :: "bytes \<Rightarrow> bool" where
  "pathSegmentIsID seg =
     (if seg = [] then False
      else if isAllDigits seg \<and> 7 \<le> length seg then True
      else if uuidPattern_MatchString seg then True
      else if prefixedIDPattern_MatchString seg then True
      else isHighEntropyToken seg)"

definition templateChurningPath :: "bytes \<Rightarrow> bytes" where
  "templateChurningPath path =
     (if path = [] then path
      else join (map (\<lambda>seg. if pathSegmentIsID seg then ''{id}'' else seg) (split_byte path CHR ''/'')) ''/'')"

section \<open>Canonical header values\<close>

definition secret_headers :: "bytes list" where
  "secret_headers = [''cookie'', ''set-cookie'', ''x-api-key'', ''anthropic-api-key'']"

definition canonicalHeaderValue :: "bytes \<Rightarrow> bytes \<Rightarrow> bytes" where
  "canonicalHeaderValue lowerName val =
     (if lowerName = ''authorization'' then
        if bearerPattern_MatchString val then ''<bearer-redacted>'' else ''<redacted>''
      else if lowerName \<in> set secret_headers then ''<redacted>''
      else if lowerName = ''x-client-request-id'' \<or> lowerName = ''session_id'' then ''<conversation_id>''
      else if lowerName = ''x-codex-window-id'' then ''<conversation_id>:0''
      else if lowerName = ''x-codex-installation-id'' then ''<installation_id>''
      else if lowerName = ''x-codex-turn-metadata'' then ''<json:turn_metadata>''
      else if lowerName = ''cf-ray'' \<or> lowerName = ''x-amzn-trace-id'' then ''<trace>''
      else if uuidPattern_MatchString val then uuid_replace False val
      else if hexPattern_MatchString val \<and> 16 < length val then ''<hex>''
      else val)"

text \<open>A dashed version string of twenty characters counts as volatile, though it names a stable release.\<close>

lemma dashed_version_is_volatile: "headerValueIsVolatile ''claude-code-20250219''"
  by code_simp

section \<open>Path templates\<close>

lemma split_byte_parts: "part \<in> set (split_byte s c) \<Longrightarrow> c \<notin> set part"
proof (induction s arbitrary: part)
  case (Cons x s)
  show ?case
  proof (cases "split_byte s c")
    case (Cons p ps)
    then show ?thesis using Cons.prems Cons.IH by (auto split: if_splits)
  qed simp
qed simp

lemma join_split_byte: "join (split_byte s c) [c] = s"
proof (induction s)
  case (Cons x s)
  show ?case
  proof (cases "split_byte s c")
    case (Cons p ps)
    then show ?thesis using Cons.IH by (cases ps) auto
  qed simp
qed simp

lemma uuid_here_length: "uuid_here prev s \<Longrightarrow> 36 \<le> length s"
  by (auto simp: uuid_here_def uuid_dashes_def dest!: list_all2_lengthD)

lemma uuid_search_length: "uuid_search prev s \<Longrightarrow> 36 \<le> length s"
  by (induction prev s rule: uuid_search.induct) (auto dest: uuid_here_length)

lemma placeholder_not_id [simp]: "\<not> pathSegmentIsID ''{id}''"
proof -
  have "\<not> uuidPattern_MatchString ''{id}''"
    using uuid_search_length [of False "''{id}''"] by (auto simp: uuidPattern_MatchString_def)
  moreover have "\<not> is_digit CHR ''{''" "\<not> is_letter CHR ''{''"
    by (simp_all add: is_digit_def is_letter_def byte_def)
  ultimately show ?thesis
    by (simp add: pathSegmentIsID_def isAllDigits_def prefixedIDPattern_MatchString_def
        isHighEntropyToken_def highEntropyMinLen_def)
qed

lemma split_templateChurningPath:
  "split_byte (templateChurningPath p) CHR ''/'' =
     map (\<lambda>seg. if pathSegmentIsID seg then ''{id}'' else seg) (split_byte p CHR ''/'')"
proof (cases "p = []")
  case True
  then show ?thesis by (simp add: templateChurningPath_def pathSegmentIsID_def)
next
  case False
  have "\<forall>part \<in> set (map (\<lambda>seg. if pathSegmentIsID seg then ''{id}'' else seg) (split_byte p CHR ''/'')).
      CHR ''/'' \<notin> set part"
    by (auto dest: split_byte_parts)
  with False show ?thesis by (simp add: templateChurningPath_def split_byte_join)
qed

lemma templateChurningPath_join:
  "templateChurningPath p =
     join (map (\<lambda>seg. if pathSegmentIsID seg then ''{id}'' else seg) (split_byte p CHR ''/'')) ''/''"
  by (simp add: templateChurningPath_def pathSegmentIsID_def)


section \<open>No identifier survives\<close>

lemma uuid_here_chars:
  assumes "uuid_here prev s"
  shows "c \<in> set (take 36 s) \<Longrightarrow> c = CHR ''-'' \<or> is_hex c" "is_hex (s ! 0)" "is_hex (s ! 35)"
proof -
  have all: "list_all2 (\<lambda>dash c. if dash then c = CHR ''-'' else is_hex c) uuid_dashes (take 36 s)"
    using assms by (simp add: uuid_here_def)
  show "c \<in> set (take 36 s) \<Longrightarrow> c = CHR ''-'' \<or> is_hex c"
    using all by (auto simp: list_all2_conv_all_nth in_set_conv_nth split: if_splits)
  have "uuid_dashes ! 0 = False" "uuid_dashes ! 35 = False" "length uuid_dashes = 36"
    by code_simp+
  then show "is_hex (s ! 0)" "is_hex (s ! 35)"
    using list_all2_nthD [OF all, of 0] list_all2_nthD [OF all, of 35] by auto
qed

lemma is_hex_word: "is_hex c \<Longrightarrow> is_word c"
  by (auto simp: is_hex_def is_word_def is_letter_def)

lemma not_hex_open: "\<not> is_hex CHR ''<''"
  by (simp add: is_hex_def is_digit_def byte_def)

definition word_before :: "bool \<Rightarrow> bytes \<Rightarrow> bool" where
  "word_before prev s = (if s = [] then prev else is_word (List.last s))"

text \<open>The output up to the first inserted bracket is copied from the input.\<close>

lemma uuid_replace_copied:
  "k \<le> length (uuid_replace prev s) \<Longrightarrow> CHR ''<'' \<notin> set (take k (uuid_replace prev s)) \<Longrightarrow>
   take k (uuid_replace prev s) = take k s \<and> k \<le> length s \<and>
   drop k (uuid_replace prev s) = uuid_replace (word_before prev (take k s)) (drop k s)"
proof (induction k arbitrary: prev s)
  case 0
  then show ?case by (simp add: word_before_def)
next
  case (Suc k)
  show ?case
  proof (cases s)
    case Nil
    then show ?thesis using Suc.prems by simp
  next
    case (Cons c s')
    have not: "\<not> uuid_here prev (c # s')" using Suc.prems Cons by auto
    have "word_before (is_word c) (take k s') = word_before prev (c # take k s')"
      by (simp add: word_before_def)
    then show ?thesis using Suc.IH [of "is_word c" s'] Suc.prems not by (simp add: Cons)
  qed
qed

lemma uuid_here_replaced:
  assumes "uuid_here prev (uuid_replace prev s)"
  shows "uuid_here prev s"
proof -
  let ?t = "uuid_replace prev s"
  have len: "36 \<le> length ?t" by (rule uuid_here_length [OF assms])
  have "CHR ''<'' \<notin> set (take 36 ?t)"
    using uuid_here_chars(1) [OF assms, of "CHR ''<''"] not_hex_open by auto
  note copied = uuid_replace_copied [OF len this]
  have "take 36 ?t \<noteq> []" using len by auto
  then have "List.last (take 36 ?t) = ?t ! 35" using len by (simp add: last_conv_nth)
  then have "word_before prev (take 36 s)"
    using copied len uuid_here_chars(3) [OF assms] by (auto simp: word_before_def intro: is_hex_word)
  then have rest: "drop 36 ?t = uuid_replace True (drop 36 s)" using copied by simp
  have "\<not> is_word c" if "drop 36 s = c # s'" for c s'
  proof -
    have "\<not> uuid_here True (c # s')" by (simp add: uuid_here_def)
    then have "drop 36 ?t = c # uuid_replace (is_word c) s'" using rest that by simp
    then show ?thesis using assms by (simp add: uuid_here_def)
  qed
  then show ?thesis
    using assms copied by (auto simp: uuid_here_def split: list.split)
qed

lemma uuid_here_first: "uuid_here prev (c # s) \<Longrightarrow> is_hex c"
  using uuid_here_chars(2) [of prev "c # s"] by simp

lemma uuid_here_second: "uuid_here prev (c # d # s) \<Longrightarrow> is_hex d"
  by (auto simp: uuid_here_def uuid_dashes_def numeral_eq_Suc)

lemma uuid_search_placeholder: "uuid_search prev (''<uuid>'' @ s) = uuid_search False s"
proof -
  have "\<not> is_hex CHR ''<''" "\<not> is_hex CHR ''u''" "\<not> is_hex CHR ''i''" "\<not> is_hex CHR ''>''" "\<not> is_word CHR ''>''"
    by (simp_all add: is_hex_def is_word_def is_letter_def is_digit_def byte_def)
  then show ?thesis by (auto dest: uuid_here_first uuid_here_second)
qed

text \<open>After a character that is no word character, what stands before it does not matter.\<close>

lemma uuid_search_after_match:
  assumes "case s of [] \<Rightarrow> True | c # _ \<Rightarrow> \<not> is_word c"
  shows "uuid_search False (uuid_replace True s) = uuid_search True (uuid_replace True s)"
proof (cases s)
  case (Cons c s')
  then have "\<not> is_hex c" using assms is_hex_word by auto
  then have "\<not> uuid_here prev (c # t)" for prev t using uuid_here_first by blast
  then show ?thesis by (simp add: Cons)
qed simp

lemma uuid_search_replace: "\<not> uuid_search prev (uuid_replace prev s)"
proof (induction prev s rule: uuid_replace.induct)
  case (2 prev c s)
  show ?case
  proof (cases "uuid_here prev (c # s)")
    case True
    then have "case drop 35 s of [] \<Rightarrow> True | c # _ \<Rightarrow> \<not> is_word c" by (simp add: uuid_here_def)
    then show ?thesis
      using 2 True uuid_search_after_match uuid_search_placeholder [of prev] by simp
  next
    case False
    then have "\<not> uuid_here prev (uuid_replace prev (c # s))" using uuid_here_replaced by blast
    then show ?thesis using 2 False by simp
  qed
qed simp


end
