(* ===== verification/Codestore_Sync.thy ===== *)
theory Codestore_Sync
  imports Codestore_Write
begin

text \<open>
  Several stores may have the same collection open (\<open>codestore/coherence.go\<close>). Before every
  operation a store brings its copy in line with the files: it replays what others appended to
  the row log, or loads the collection again when a file was replaced or became shorter. The
  identity of a file, with the modification time for the header, is a number; while it is
  unchanged an open file has the bytes of the path. The kernel lock is held and the inspection of
  the files succeeds.
\<close>

section \<open>Files and handles\<close>

record disk_files =
  Disk_HeaderID :: nat
  Disk_Columns :: "ScalarColumn list"
  Disk_Generation :: nat
  Disk_Format :: int
  Disk_RowsID :: nat
  Disk_DataID :: nat
  Disk_Rows :: bytes
  Disk_Data :: bytes

record handle =
  Handle_Stored :: codeCollection
  Handle_HeaderInfo :: "nat option"
  Handle_RowsID :: nat
  Handle_DataID :: nat

definition filesReplaced :: "disk_files \<Rightarrow> handle \<Rightarrow> bool" where
  "filesReplaced disk h \<longleftrightarrow> Handle_HeaderInfo h \<noteq> Some (Disk_HeaderID disk) \<or>
     Handle_RowsID h \<noteq> Disk_RowsID disk \<or> Handle_DataID h \<noteq> Disk_DataID disk"

definition diskChanged :: "disk_files \<Rightarrow> handle \<Rightarrow> bool" where
  "diskChanged disk h \<longleftrightarrow> Handle_HeaderInfo h = None \<or> filesReplaced disk h \<or>
     length (Disk_Rows disk) \<noteq> logSize (Handle_Stored h) \<or> length (Disk_Data disk) < dataSize (Handle_Stored h)"

text \<open>The replay may truncate the row log; the handle changes only when the load succeeds.\<close>

definition reload ::
    "ScalarValue \<Rightarrow> disk_files \<Rightarrow> handle \<Rightarrow> (store_error option \<times> disk_files \<times> handle) outcome" where
  "reload emptyScalar disk h =
     and_then (loadCollection emptyScalar (Disk_Columns disk) (Disk_Generation disk) (Disk_Format disk) (Disk_Rows disk) (Disk_Data disk))
       (\<lambda>(e, fresh).
         let disk = disk\<lparr>Disk_Rows := rowsFile fresh\<rparr> in
         Returns (e, disk,
           if e \<noteq> None then h
           else \<lparr>Handle_Stored = fresh, Handle_HeaderInfo = Some (Disk_HeaderID disk), Handle_RowsID = Disk_RowsID disk,
                 Handle_DataID = Disk_DataID disk\<rparr>))"

definition syncWithDisk ::
    "ScalarValue \<Rightarrow> disk_files \<Rightarrow> handle \<Rightarrow> (store_error option \<times> disk_files \<times> handle) outcome" where
  "syncWithDisk emptyScalar disk h =
     (let st = Handle_Stored h in
      if Handle_HeaderInfo h = None then reload emptyScalar disk h
      else if filesReplaced disk h then reload emptyScalar disk h
      else if length (Disk_Rows disk) < logSize st \<or> length (Disk_Data disk) < dataSize st then reload emptyScalar disk h
      else let st = st\<lparr>rowsFile := Disk_Rows disk, dataFile := Disk_Data disk, dataSize := length (Disk_Data disk)\<rparr> in
        if length (Disk_Rows disk) = logSize st then Returns (None, disk, h\<lparr>Handle_Stored := st\<rparr>)
        else and_then (replay st) (\<lambda>(e, st).
          Returns (e, disk\<lparr>Disk_Rows := rowsFile st\<rparr>, h\<lparr>Handle_Stored := st\<rparr>)))"

section \<open>Complete records of a torn log\<close>

abbreviation frames :: "ScalarColumn list \<Rightarrow> rowRecord list \<Rightarrow> bytes" where
  "frames \<equiv> log_bytes frameFormatLengthCRC"

text \<open>The number of records whose frames lie in the first \<open>n\<close> bytes of a log.\<close>

definition complete :: "ScalarColumn list \<Rightarrow> rowRecord list \<Rightarrow> nat \<Rightarrow> nat" where
  "complete columns rs n = length (filter (\<lambda>j. length (frames columns (take j rs)) \<le> n) [1..<Suc (length rs)])"

lemma frames_mono: "i \<le> j \<Longrightarrow> length (frames columns (take i rs)) \<le> length (frames columns (take j rs))"
proof -
  assume "i \<le> j"
  then have "take j rs = take i rs @ take (j - i) (drop i rs)" by (metis le_add_diff_inverse take_add)
  then show ?thesis by simp
qed

lemma complete_eq:
  assumes "j \<le> length rs" "length (frames columns (take j rs)) \<le> n"
    "j < length rs \<Longrightarrow> n < length (frames columns (take (Suc j) rs))"
  shows "complete columns rs n = j"
proof -
  have "length (frames columns (take i rs)) \<le> n \<longleftrightarrow> i \<le> j" if "1 \<le> i" "i \<le> length rs" for i
  proof (cases "i \<le> j")
    case True
    then show ?thesis using frames_mono [OF True, of columns rs] assms(2) by simp
  next
    case False
    then have "length (frames columns (take (Suc j) rs)) \<le> length (frames columns (take i rs))" by (intro frames_mono) simp
    with False assms(3) that show ?thesis by simp
  qed
  then have "filter (\<lambda>i. length (frames columns (take i rs)) \<le> n) [1..<Suc (length rs)] =
      filter (\<lambda>i. i \<le> j) [1..<Suc (length rs)]" by (intro filter_cong) auto
  also have "\<dots> = [1..<Suc j]"
  proof -
    have split: "[1..<Suc (length rs)] = [1..<Suc j] @ [Suc j..<Suc (length rs)]"
      using assms(1) upt_add_eq_append [of 1 "Suc j" "length rs - j"] by (simp del: upt_Suc)
    have "filter (\<lambda>i. i \<le> j) [1..<Suc j] = [1..<Suc j]" "filter (\<lambda>i. i \<le> j) [Suc j..<Suc (length rs)] = []"
      by (auto simp del: upt_Suc simp: filter_id_conv filter_empty_conv)
    then show ?thesis unfolding split by (simp only: filter_append append_Nil2)
  qed
  finally show ?thesis by (simp add: complete_def del: upt_Suc)
qed

section \<open>Synchronisation\<close>

text \<open>A copy in memory that holds some first records of the log.\<close>

definition holds_prefix :: "disk_files \<Rightarrow> rowRecord list \<Rightarrow> codeCollection \<Rightarrow> bool" where
  "holds_prefix disk rs st \<longleftrightarrow> Scalars st = Disk_Columns disk \<and> FrameFormat st = frameFormatLengthCRC \<and>
     collection_inv (cells_total rs) st \<and>
     (\<exists>j \<le> length rs. logSize st = length (frames (Disk_Columns disk) (take j rs)) \<and>
        view st = fold (record_effect (length (Disk_Columns disk))) (take j rs) Map.empty)"

text \<open>The outcome of a synchronisation that leaves \<open>j\<close> records.\<close>

definition synced :: "disk_files \<Rightarrow> rowRecord list \<Rightarrow> nat \<Rightarrow> disk_files \<Rightarrow> handle \<Rightarrow> bool" where
  "synced disk rs j disk' h' \<longleftrightarrow>
     view (Handle_Stored h') = fold (record_effect (length (Disk_Columns disk))) (take j rs) Map.empty \<and>
     collection_inv 0 (Handle_Stored h') \<and> \<not> diskChanged disk' h' \<and>
     disk' = disk\<lparr>Disk_Rows := frames (Disk_Columns disk) (take j rs)\<rparr>"

lemma reload_synced:
  assumes format: "Disk_Format disk = frameFormatLengthCRC" and rows: "Disk_Rows disk = take n (frames (Disk_Columns disk) rs)"
    and ok: "list_all (stored_ok (Disk_Columns disk) (length (Disk_Data disk))) rs" "cells_total rs \<le> MaxUint32"
  obtains fresh disk' h' where "reload e disk h = Returns (None, disk', h')"
    "synced disk rs (complete (Disk_Columns disk) rs n) disk' h'"
    "loadCollection e (Disk_Columns disk) (Disk_Generation disk) (Disk_Format disk) (Disk_Rows disk) (Disk_Data disk) = Returns (None, fresh)"
    "view fresh = fold (record_effect (length (Disk_Columns disk))) (take (complete (Disk_Columns disk) rs n) rs) Map.empty"
proof -
  obtain j fresh where l: "j \<le> length rs" "j < length rs \<Longrightarrow> n < length (frames (Disk_Columns disk) (take (Suc j) rs))"
    "loadCollection e (Disk_Columns disk) (Disk_Generation disk) frameFormatLengthCRC (take n (frames (Disk_Columns disk) rs)) (Disk_Data disk) =
       Returns (None, fresh)" "collection_inv 0 fresh"
    "view fresh = fold (record_effect (length (Disk_Columns disk))) (take j rs) Map.empty"
    "rowsFile fresh = frames (Disk_Columns disk) (take j rs)" "logSize fresh = length (rowsFile fresh)"
    "length (frames (Disk_Columns disk) (take j rs)) \<le> n" "dataSize fresh = length (Disk_Data disk)"
    using load_prefix [OF ok, of n e "Disk_Generation disk"] by blast
  have j: "complete (Disk_Columns disk) rs n = j" by (rule complete_eq [OF l(1,8,2)])
  let ?disk = "disk\<lparr>Disk_Rows := rowsFile fresh\<rparr>"
  let ?h = "\<lparr>Handle_Stored = fresh, Handle_HeaderInfo = Some (Disk_HeaderID disk), Handle_RowsID = Disk_RowsID disk, Handle_DataID = Disk_DataID disk\<rparr>"
  have "reload e disk h = Returns (None, ?disk, ?h)"
    using l(3) format rows by (simp add: reload_def Let_def)
  moreover have "synced disk rs (complete (Disk_Columns disk) rs n) ?disk ?h"
    using l j by (simp add: synced_def diskChanged_def filesReplaced_def)
  ultimately show ?thesis using that [of ?disk ?h fresh] l(3,5) format rows j by simp
qed

lemma replay_synced:
  assumes same: "\<not> filesReplaced disk h" "holds_prefix disk rs (Handle_Stored h)"
    and rows: "Disk_Rows disk = take n (frames (Disk_Columns disk) rs)"
    and ok: "list_all (stored_ok (Disk_Columns disk) (length (Disk_Data disk))) rs"
    and size: "logSize (Handle_Stored h) \<le> length (Disk_Rows disk)" "dataSize (Handle_Stored h) \<le> length (Disk_Data disk)"
  shows "\<exists>disk' h'. syncWithDisk e disk h = Returns (None, disk', h') \<and> synced disk rs (complete (Disk_Columns disk) rs n) disk' h'"
proof -
  let ?cols = "Disk_Columns disk" and ?st = "Handle_Stored h"
  define st where "st = ?st\<lparr>rowsFile := Disk_Rows disk, dataFile := Disk_Data disk, dataSize := length (Disk_Data disk)\<rparr>"
  obtain j where p: "Scalars ?st = ?cols" "FrameFormat ?st = frameFormatLengthCRC" "collection_inv (cells_total rs) ?st"
    "j \<le> length rs" "logSize ?st = length (frames ?cols (take j rs))"
    "view ?st = fold (record_effect (length ?cols)) (take j rs) Map.empty"
    using same(2) by (auto simp: holds_prefix_def)
  have len: "length (frames ?cols (take j rs)) \<le> n" using size(1) rows p(5) by simp
  have "frames ?cols rs = frames ?cols (take j rs) @ frames ?cols (drop j rs)"
    by (metis append_take_drop_id log_bytes_simps(3))
  then have split: "Disk_Rows disk = frames ?cols (take j rs) @ take (n - length (frames ?cols (take j rs))) (frames ?cols (drop j rs))"
    using rows len by simp
  have "cells_total rs = cells_total (take j rs) + cells_total (drop j rs)"
    by (metis append_take_drop_id map_append sum_list_append)
  then have inv: "collection_inv (cells_total (drop j rs) + 0) st"
    using collection_inv_less [OF p(3), of "cells_total (drop j rs) + 0"] by (simp add: st_def)
  have stored: "list_all (stored_ok (Scalars st) (dataSize st)) (drop j rs)"
    using ok p(1) by (auto simp: st_def list_all_iff dest: in_set_dropD)
  have files: "Scalars st = ?cols" "FrameFormat st = frameFormatLengthCRC" "logSize st = length (frames ?cols (take j rs))"
    "rowsFile st = frames ?cols (take j rs) @ take (n - length (frames ?cols (take j rs))) (frames ?cols (drop j rs))"
    using p split by (simp_all add: st_def)
  obtain i st' where r: "i \<le> length (drop j rs)"
    "i < length (drop j rs) \<Longrightarrow> n - length (frames ?cols (take j rs)) < length (frames ?cols (take (Suc i) (drop j rs)))"
    "replay st = Returns (None, st')" "collection_inv 0 st'"
    "view st' = fold (record_effect (length ?cols)) (take i (drop j rs)) (view st)"
    "same_disk (st\<lparr>rowsFile := frames ?cols (take j rs) @ frames ?cols (take i (drop j rs)),
       logSize := length (frames ?cols (take j rs)) + length (frames ?cols (take i (drop j rs)))\<rparr>) st'"
    "length (frames ?cols (take i (drop j rs))) \<le> n - length (frames ?cols (take j rs))"
    by (rule replay_prefix [OF inv stored files(2,3), unfolded files(1), OF files(4)]) blast
  have take: "take (j + i) rs = take j rs @ take i (drop j rs)" "take (Suc (j + i)) rs = take j rs @ take (Suc i) (drop j rs)"
    by (metis take_add, metis add_Suc_right take_add)
  have c: "complete ?cols rs n = j + i"
  proof (rule complete_eq)
    show "n < length (frames ?cols (take (Suc (j + i)) rs))" if "j + i < length rs"
    proof -
      have "n - length (frames ?cols (take j rs)) < length (frames ?cols (take (Suc i) (drop j rs)))" using r(2) that by simp
      then show ?thesis using take(2) by simp
    qed
  qed (use r(1,7) p(4) len take(1) in auto)
  let ?disk = "disk\<lparr>Disk_Rows := rowsFile st'\<rparr>" and ?h = "h\<lparr>Handle_Stored := st'\<rparr>"
  have done_rows: "rowsFile st' = frames ?cols (take (j + i) rs)" "logSize st' = length (rowsFile st')" "dataSize st' = length (Disk_Data disk)"
    using r(6) take(1) by (simp_all add: same_disk_def st_def)
  have "view st' = fold (record_effect (length ?cols)) (take (j + i) rs) Map.empty"
    using r(5) p(6) take(1) by (simp add: st_def)
  then have sync: "synced disk rs (complete ?cols rs n) ?disk ?h"
    using r(4) done_rows c same(1) by (simp add: synced_def diskChanged_def filesReplaced_def)
  have "syncWithDisk e disk h = Returns (None, ?disk, ?h)"
  proof (cases "length (Disk_Rows disk) = logSize st")
    case True
    then have "replay st = Returns (None, st)"
      unfolding replay_def by (subst replay_loop.simps) (simp add: st_def Let_def)
    with r(3) have "st' = st" by simp
    moreover have "disk = disk\<lparr>Disk_Rows := rowsFile st\<rparr>" by (simp add: st_def)
    ultimately show ?thesis using True same(1) size by (auto simp: syncWithDisk_def st_def filesReplaced_def Let_def)
  next
    case False
    then show ?thesis
      using same(1) size r(3) by (auto simp: syncWithDisk_def filesReplaced_def Let_def simp flip: st_def)
  qed
  with sync show ?thesis by blast
qed

text \<open>
  C14. A store that shares a collection with others sees what they wrote. Whatever records other
  stores appended to the row log, also when the last one was cut off in the middle, and whether
  files were replaced or became shorter, synchronising succeeds and leaves the store holding
  exactly what loading the files anew would give: the effect of all complete records, in their
  order. The log then ends with the last complete record, and the files no longer count as
  changed, so the next operation has nothing to do.
\<close>

theorem syncWithDisk_equals_reload:
  assumes "Disk_Format disk = frameFormatLengthCRC" "Disk_Rows disk = take n (frames (Disk_Columns disk) rs)"
    and "list_all (stored_ok (Disk_Columns disk) (length (Disk_Data disk))) rs" "cells_total rs \<le> MaxUint32"
    and coherent: "\<not> filesReplaced disk h \<Longrightarrow> logSize (Handle_Stored h) \<le> length (Disk_Rows disk) \<Longrightarrow>
      dataSize (Handle_Stored h) \<le> length (Disk_Data disk) \<Longrightarrow> holds_prefix disk rs (Handle_Stored h)"
  shows "\<exists>disk' h' fresh. syncWithDisk e disk h = Returns (None, disk', h') \<and>
    loadCollection e (Disk_Columns disk) (Disk_Generation disk) (Disk_Format disk) (Disk_Rows disk) (Disk_Data disk) = Returns (None, fresh) \<and>
    view (Handle_Stored h') = view fresh \<and>
    view fresh = fold (record_effect (length (Disk_Columns disk))) (take (complete (Disk_Columns disk) rs n) rs) Map.empty \<and>
    Disk_Rows disk' = frames (Disk_Columns disk) (take (complete (Disk_Columns disk) rs n) rs) \<and>
    collection_inv 0 (Handle_Stored h') \<and> \<not> diskChanged disk' h'"
proof -
  obtain fresh disk1 h1 where r: "reload e disk h = Returns (None, disk1, h1)"
    "synced disk rs (complete (Disk_Columns disk) rs n) disk1 h1"
    "loadCollection e (Disk_Columns disk) (Disk_Generation disk) (Disk_Format disk) (Disk_Rows disk) (Disk_Data disk) = Returns (None, fresh)"
    "view fresh = fold (record_effect (length (Disk_Columns disk))) (take (complete (Disk_Columns disk) rs n) rs) Map.empty"
    using reload_synced [OF assms(1-4)] by blast
  have "\<exists>disk' h'. syncWithDisk e disk h = Returns (None, disk', h') \<and> synced disk rs (complete (Disk_Columns disk) rs n) disk' h'"
  proof (cases "\<not> filesReplaced disk h \<and> logSize (Handle_Stored h) \<le> length (Disk_Rows disk) \<and>
      dataSize (Handle_Stored h) \<le> length (Disk_Data disk)")
    case True
    then show ?thesis using coherent by (intro replay_synced [OF _ _ assms(2,3)]) simp_all
  next
    case False
    then have "syncWithDisk e disk h = reload e disk h" by (auto simp: syncWithDisk_def Let_def)
    with r show ?thesis by simp
  qed
  with r(3,4) show ?thesis by (fastforce simp: synced_def)
qed

text \<open>Another store appended a second record, of which all but the last byte arrived.\<close>

definition demo_disk :: disk_files where
  "demo_disk = \<lparr>Disk_HeaderID = 1, Disk_Columns = demo_columns, Disk_Generation = 0, Disk_Format = frameFormatLengthCRC,
     Disk_RowsID = 2, Disk_DataID = 3,
     Disk_Rows = take (length (frames demo_columns [demo_record ''r'', demo_record ''r'']) - 1)
       (frames demo_columns [demo_record ''r'', demo_record ''r'']), Disk_Data = []\<rparr>"

definition demo_handle :: handle where
  "demo_handle = \<lparr>Handle_Stored = emptyCollection (null_scalar ScalarTypeString) demo_columns 0 frameFormatLengthCRC [] [],
     Handle_HeaderInfo = Some 1, Handle_RowsID = 2, Handle_DataID = 3\<rparr>"

theorem syncWithDisk_equals_reload_witness:
  "\<exists>rs n. Disk_Format demo_disk = frameFormatLengthCRC \<and> Disk_Rows demo_disk = take n (frames (Disk_Columns demo_disk) rs) \<and>
     list_all (stored_ok (Disk_Columns demo_disk) (length (Disk_Data demo_disk))) rs \<and> cells_total rs \<le> MaxUint32 \<and>
     holds_prefix demo_disk rs (Handle_Stored demo_handle) \<and>
     (\<exists>disk' h' fresh. syncWithDisk (null_scalar ScalarTypeString) demo_disk demo_handle = Returns (None, disk', h') \<and>
       loadCollection (null_scalar ScalarTypeString) (Disk_Columns demo_disk) (Disk_Generation demo_disk) (Disk_Format demo_disk)
         (Disk_Rows demo_disk) (Disk_Data demo_disk) = Returns (None, fresh) \<and>
       view (Handle_Stored h') = view fresh \<and> \<not> diskChanged disk' h')"
proof -
  let ?rs = "[demo_record ''r'', demo_record ''r'']"
  let ?n = "length (frames demo_columns ?rs) - 1"
  have h: "Disk_Format demo_disk = frameFormatLengthCRC" "Disk_Rows demo_disk = take ?n (frames (Disk_Columns demo_disk) ?rs)"
    "list_all (stored_ok (Disk_Columns demo_disk) (length (Disk_Data demo_disk))) ?rs"
    by (simp_all add: demo_disk_def demo_stored_ok)
  have cells: "cells_total ?rs \<le> MaxUint32" by (simp add: demo_record_def emptyRecord_def)
  have prefix: "holds_prefix demo_disk ?rs (Handle_Stored demo_handle)"
    using emptyCollection_inv [OF cells] by (auto simp: holds_prefix_def demo_handle_def demo_disk_def intro!: exI [of _ 0])
  from syncWithDisk_equals_reload [OF h cells, of demo_handle "null_scalar ScalarTypeString"] prefix
  show ?thesis using h cells by blast
qed

end
