(* ===== verification/Spec2Isabelle.thy ===== *)
theory Spec2Isabelle
  imports Reorient_Inject Livetrack_Interleaving Livetrack_Group Export_Injected Export_Limits Codestore_Columns Codestore_Lock Codestore_Handles
    Mitm_Sniff Mitm_Ws Mitm_Diff Mitm_Volatility Codestore_Sync
begin

text \<open>
  Verification of clyde.

  Clyde is a local service around coding assistants. It keeps track of live sessions, reads the
  transcripts that assistants leave behind, compacts and exports conversations, and serves a semantic
  search over them. The development models the parts of the program that are algorithms over its own
  data, translated from the Go sources under \<open>src/internal\<close>, and proves the properties those parts are
  relied on for.

  \<^bold>\<open>Conventions.\<close> A Go string or byte slice is a list of bytes (\<open>bytes\<close>, the type \<open>string\<close>), and
  operations on runes go through the UTF-8 decoder of \<open>Go_Utf8\<close>. A struct is a record, an enumeration
  a datatype; a string type with named values has one more constructor for the other strings, or
  stays a string. An
  error is a value of a sum or option type, and a panic (an index or slice out of range) is the value
  \<open>Panic\<close> of \<open>outcome\<close>. A Go \<open>int\<close> is an integer, with \<open>MaxInt64\<close> bounds and wrap-around written out
  where the code depends on them. State is passed explicitly; code that runs concurrently is a step
  relation whose steps are the critical sections.

  \<^bold>\<open>The Go library.\<close> \<open>Go_Prelude\<close> holds byte strings, searching, splitting and joining, and outcomes;
  \<open>Go_Utf8\<close> the decoding and encoding of runes and white space; \<open>Go_Strconv\<close> decimal numbers, quoting
  and unquoting; \<open>Go_Sha256\<close> the hash used for content hashes.

  \<^bold>\<open>Framed transcripts.\<close> \<open>Reorient_Tag\<close> models \<open>reorienttag/tags.go\<close> and \<open>segments.go\<close>: the writer and the
  reader of the typed transcript that a compaction injects into a conversation. Reading gives back what
  was written, whatever bytes the texts hold, and the spans found in any text are in order and in range.

  \<^bold>\<open>Token budgets.\<close> \<open>Token_Count\<close> models \<open>tokencount\<close>: the local estimators and the cap to the last tokens.
  The locale \<open>token_counter\<close>, extended by \<open>mono_token_counter\<close>, states what the cap needs of an
  estimator and is interpreted for the estimators of the code. The capped text fits the budget, is a
  suffix cut at a rune boundary, and the binary search inside finds the first boundary that fits. The
  o200k codec is a third-party package and a parameter.

  \<^bold>\<open>The compaction split.\<close> \<open>Reorient_Inject\<close> models \<open>reorientinject/plan.go\<close>, \<open>splitter.go\<close> and \<open>unframed.go\<close>: the
  choice of the cut, the text that is kept, and the recovery of transcripts written without frames. A
  plan keeps its limits, the injection reads back as the segments after the cut, and an unframed
  transcript is recovered exactly when its reading is unique. The provider's request format, the
  argument parser and the exact token counter are parameters; the planner's attempts are bounded by
  the constant \<open>planAttempts\<close> of the code.

  \<^bold>\<open>Live sessions.\<close> \<open>Livetrack_Registry\<close> models \<open>livetrack/registry.go\<close>, \<open>parent.go\<close>, \<open>closer.go\<close> and \<open>drain.go\<close> as
  state transformers, with the locale \<open>session_inventory\<close> for taking sessions out; \<open>Livetrack_Interleaving\<close>
  models registration against the drain as interleaved steps; \<open>Livetrack_Group\<close> models \<open>group.go\<close>. The
  bookkeeping is exact at every moment, a drain empties the registry and admits nothing afterwards, in
  every interleaving, and a group quiesces in phase order.

  \<^bold>\<open>Conversations.\<close> \<open>Transcript_Model\<close> holds the data of \<open>transcript/transcript.go\<close> and \<open>compaction_items.go\<close>;
  \<open>Content_Kind\<close> models \<open>conversation/contentkind.go\<close> and \<open>loadrules.go\<close>; \<open>Compaction\<close> models the checkpoints,
  segments and selectors of \<open>compaction.go\<close>, \<open>compaction_segments.go\<close> and \<open>compaction_export.go\<close>. Segments
  tile a transcript, and a selector picks exactly the segments it names.

  \<^bold>\<open>Exports.\<close> \<open>Export_Filter\<close> models \<open>export_compaction_filter.go\<close> and \<open>export_injected_transcript.go\<close>, and
  \<open>Export_Injected\<close> proves what they let through: what the content kinds exclude does not influence the
  exported items, and no unresolved transcript passes as prose. \<open>Transcript_Shape\<close> models the shaping of
  turns in \<open>transcript/conversation.go\<close>, \<open>Export_Select\<close> the limits in \<open>export.go\<close> and \<open>export_last_n.go\<close>, and
  \<open>Export_Limits\<close> proves that the last \<open>N\<close> messages render exactly \<open>N\<close> turns, which lines the line cap keeps,
  and that compressing white space is idempotent.

  \<^bold>\<open>The code store.\<close> This is the embedded database under \<open>conversation/codestore\<close>. \<open>Codestore_Record\<close> models
  \<open>record.go\<close> (frames and records), \<open>Codestore_Collection\<close> the rows, dictionaries and indexes of
  \<open>collection.go\<close> with the locale \<open>log_machine\<close> for replaying records, \<open>Codestore_Log\<close> the replay of the log
  with its recovery, \<open>Codestore_Write\<close> writing with explicit faults and \<open>compact.go\<close>, \<open>Codestore_Filter\<close>
  \<open>filter.go\<close>, \<open>Codestore_Rank\<close> \<open>rank.go\<close> and the sign codes of \<open>staticembed/model.go\<close>, \<open>Codestore_Store\<close>
  the requests of \<open>store.go\<close> and \<open>update.go\<close>, and \<open>Codestore_Sync\<close>, \<open>Codestore_Lock\<close> and \<open>Codestore_Handles\<close>
  the sharing of a directory between stores, the wait for its lock, and the handles of one store under
  concurrent requests. \<open>Codestore_Contents\<close>, \<open>Codestore_Requests\<close> and \<open>Codestore_Columns\<close> state what a reader
  of a collection sees, independently of the file layout. Records round-trip; the last writer wins; a
  torn log loads as its complete records and valid frames are never truncated; a failed write changes
  nothing; compaction, added columns and synchronisation keep the contents; a filter means its
  three-valued reading; a search returns the nearest rows, as one full sort would; the wait for a lock
  ends; and closing a store leaves no file open.

  \<^bold>\<open>The intercepting proxy.\<close> Four parts of \<open>mitm\<close> are modelled. \<open>Mitm_Sniff\<close> models \<open>connect_sniff.go\<close> and the
  \<open>prefixConn\<close> of \<open>transparent.go\<close>: whatever arrives first, a dialed connection is handed over or closed
  once and the bytes read while deciding reach the splice. \<open>Mitm_Ws\<close> models the two relays of a
  websocket bridge in \<open>ws_capture.go\<close> with their teardown and capture recorder, in every interleaving.
  \<open>Mitm_Diff\<close> models \<open>diff.go\<close>, whose report is exact for every iteration order of the Go maps, and
  \<open>Mitm_Volatility\<close> models \<open>volatility.go\<close> and \<open>header_canonical.go\<close>: path templates are stable and no UUID or
  credential survives in a canonical header value.

  \<^bold>\<open>Bounds and fuel.\<close> Loops are structural recursion or have a measure. The wait for a lock has no bound
  of its own and is a partial function; that it returns is proved. The drain and the quiet wait read a
  list of events that stands for time passing. Sizes are assumed to fit an \<open>int64\<close> where the code
  computes with them, and a dictionary to have room for the values a request adds (\<open>store_ok k\<close>).
  Vector components are rational numbers.

  \<^bold>\<open>What the proofs showed.\<close> The blob decoder panics on a blob that lost its last byte; a byte cap at or
  below the size of the wrapper is not enforced; the planner can leave nothing to summarize; the line
  cap keeps one line too many when the text begins with an empty line; a byte of the upstream is lost
  when its read deadline cannot be cleared; a websocket capture can miss a frame that was forwarded; a
  dashed version string can count as volatile; two comments of the token cap promise more than the
  code does.

  \<^bold>\<open>Not modelled.\<close> The HTTP front end (\<open>adapter\<close>), the rest of the intercepting proxy (\<open>mitm\<close>: TLS,
  HTTP relays, capture files and the learner of snapshots), the daemon and its supervisor, the command line, configuration, deployment and logging are network, process and file
  I/O around JSON formats. The readers under \<open>providers\<close> decode files and databases that other programs
  define. \<open>vectorsearch\<close> drives external services. Of the modelled packages, the kernel's file
  operations are success flags or faults of the model, and times are not printed: the documents an
  export renders (Markdown, HTML, JSON) and its JSON sanitizer, the embedding model file with its
  tokenizer, the header file of a collection, and the HTTP token counters are left out.
\<close>

end
